(* ===== verification/Prelude.thy ===== *)
theory Prelude
  imports Main "HOL-Library.Word" "HOL-Library.Multiset"
begin

unbundle bit_operations_syntax

text \<open>
  What the components of the twOS model share: the C integer types as words, the faults an
  operation can end in instead of returning, sequencing of faulting operations, a byte
  memory with little-endian access, and the generic word and list facts the component
  proofs rest on.
\<close>

section \<open>C integers\<close>

type_synonym u8 = "8 word"
type_synonym u16 = "16 word"
type_synonym u32 = "32 word"
type_synonym u64 = "64 word"

named_theorems mem_simps \<open>reading after writing in a memory\<close>
named_theorems fault_simps \<open>operations that may end in a fault\<close>

section \<open>Faults\<close>

text \<open>
  An operation of the kernel that does not return ends in a fault: \<open>panic\<close> and a failed
  \<open>assert\<close> log a line and halt the processor (theory Panic); a division by zero raises the processor's
  divide error; an access outside the object it is made to, or another construct that C
  leaves undefined, has no defined continuation; a loop that does not end is \<open>Diverges\<close>.
\<close>

datatype fault =
    Panic string
  | Assertion string
  | Div_zero
  | Out_of_bounds
  | Undefined
  | Diverges

type_synonym 'a res = "fault + 'a"

definition bindE :: "'a res \<Rightarrow> ('a \<Rightarrow> 'b res) \<Rightarrow> 'b res" where
  "bindE x f = (case x of Inl e \<Rightarrow> Inl e | Inr v \<Rightarrow> f v)"

lemma bindE_simps [simp]:
  "bindE (Inl e) f = Inl e"
  "bindE (Inr v) f = f v"
  by (simp_all add: bindE_def)

lemma bindE_eq_Inr [fault_simps]:
  "bindE x f = Inr v \<longleftrightarrow> (\<exists>u. x = Inr u \<and> f u = Inr v)"
  by (cases x) auto

lemma bindE_eq_Inl [fault_simps]:
  "bindE x f = Inl e \<longleftrightarrow> x = Inl e \<or> (\<exists>u. x = Inr u \<and> f u = Inl e)"
  by (cases x) auto

lemma bindE_cong [fundef_cong]:
  "x = y \<Longrightarrow> (\<And>v. y = Inr v \<Longrightarrow> f v = g v) \<Longrightarrow> bindE x f = bindE y g"
  by (cases y) auto

lemma bindE_assoc: "bindE (bindE x f) g = bindE x (\<lambda>v. bindE (f v) g)"
  by (cases x) auto

lemma if_Inl_eq_Inr [fault_simps]:
  "((if b then Inl e else x) = Inr v) \<longleftrightarrow> (\<not> b \<and> x = Inr v)"
  "((if b then x else Inl e) = Inr v) \<longleftrightarrow> (b \<and> x = Inr v)"
  by auto

section \<open>Byte memory\<close>

type_synonym mem = "u64 \<Rightarrow> u8"

definition load_bytes :: "mem \<Rightarrow> u64 \<Rightarrow> nat \<Rightarrow> u8 list" where
  "load_bytes m a n = map (\<lambda>i. m (a + of_nat i)) [0..<n]"

definition store_bytes :: "u64 \<Rightarrow> u8 list \<Rightarrow> mem \<Rightarrow> mem" where
  "store_bytes a bs m = (\<lambda>x. if unat (x - a) < length bs then bs ! unat (x - a) else m x)"

text \<open>Little-endian values, as the x86 stores them.\<close>

fun of_le :: "u8 list \<Rightarrow> 'a::len word" where
  "of_le [] = 0"
| "of_le (b # bs) = ucast b OR push_bit 8 (of_le bs)"

fun to_le :: "nat \<Rightarrow> 'a::len word \<Rightarrow> u8 list" where
  "to_le 0 w = []"
| "to_le (Suc n) w = ucast w # to_le n (drop_bit 8 w)"

definition load16 :: "mem \<Rightarrow> u64 \<Rightarrow> u16" where "load16 m a = of_le (load_bytes m a 2)"
definition load32 :: "mem \<Rightarrow> u64 \<Rightarrow> u32" where "load32 m a = of_le (load_bytes m a 4)"
definition load64 :: "mem \<Rightarrow> u64 \<Rightarrow> u64" where "load64 m a = of_le (load_bytes m a 8)"

definition store8 :: "u64 \<Rightarrow> u8 \<Rightarrow> mem \<Rightarrow> mem" where "store8 a b m = m(a := b)"
definition store32 :: "u64 \<Rightarrow> u32 \<Rightarrow> mem \<Rightarrow> mem" where "store32 a v m = store_bytes a (to_le 4 v) m"
definition store64 :: "u64 \<Rightarrow> u64 \<Rightarrow> mem \<Rightarrow> mem" where "store64 a v m = store_bytes a (to_le 8 v) m"

lemma length_to_le [simp]: "length (to_le n w) = n"
  by (induction n arbitrary: w) auto

lemma length_load_bytes [simp]: "length (load_bytes m a n) = n"
  by (simp add: load_bytes_def)

lemma nth_load_bytes [simp]: "i < n \<Longrightarrow> load_bytes m a n ! i = m (a + of_nat i)"
  by (simp add: load_bytes_def)

lemma of_le_to_le: "of_le (to_le n w) = take_bit (8 * n) w"
proof (induction n arbitrary: w)
  case 0
  then show ?case by simp
next
  case (Suc n)
  show ?case
    by (rule bit_word_eqI) (auto simp: Suc bit_simps)
qed

lemma of_le_to_le_full [simp]: "LENGTH('a) \<le> 8 * n \<Longrightarrow> of_le (to_le n w) = (w :: 'a::len word)"
  by (simp add: of_le_to_le take_bit_word_eq_self)


text \<open>The bytes a store writes are those whose distance from its base is below the length.\<close>

lemma store_bytes_hit [mem_simps]:
  "unat (x - a) < length bs \<Longrightarrow> store_bytes a bs m x = bs ! unat (x - a)"
  by (simp add: store_bytes_def)

lemma store_bytes_miss [mem_simps]:
  "length bs \<le> unat (x - a) \<Longrightarrow> store_bytes a bs m x = m x"
  by (simp add: store_bytes_def)

lemma store_bytes_Nil [simp]: "store_bytes a [] m = m"
  by (simp add: store_bytes_def)

lemma unat_of_nat_small:
  "n < 2 ^ LENGTH('a) \<Longrightarrow> unat (of_nat n :: 'a::len word) = n"
  by (simp add: unat_of_nat)

lemma unat_lt_64: "unat (a :: u64) < 2 ^ 64"
proof -
  have "unat a < 2 ^ LENGTH(64)" by (rule unsigned_less)
  then show ?thesis by simp
qed

lemma unat_add_small:
  "unat (a :: 'a::len word) + unat b < 2 ^ LENGTH('a) \<Longrightarrow> unat (a + b) = unat a + unat b"
  by (simp add: unat_plus_if')

lemma unat_succ: "i < n \<Longrightarrow> unat (i + 1) = Suc (unat i)" for i n :: "'a::len word"
proof -
  assume "i < n"
  then have "unat i + 1 \<le> unat n" by (simp add: word_less_nat_alt)
  also have "unat n < 2 ^ LENGTH('a)" by (rule unsigned_less)
  finally have "unat i + unat (1 :: 'a word) < 2 ^ LENGTH('a)" by simp
  from unat_add_small [OF this] show ?thesis by simp
qed

lemma unat_sub_flip:
  "a \<noteq> b \<Longrightarrow> unat (a - b) + unat (b - a) = 2 ^ LENGTH('a)" for a b :: "'a::len word"
proof -
  assume "a \<noteq> b"
  then have "unat a \<noteq> unat b" by (simp add: word_unat_eq_iff)
  moreover have "unat a < 2 ^ LENGTH('a)" and "unat b < 2 ^ LENGTH('a)" by simp_all
  ultimately show ?thesis by (auto simp: unat_sub_if' simp del: unsigned_less)
qed

lemma load_store_bytes_same:
  assumes "length bs \<le> 2 ^ 64" and "n = length bs"
  shows "load_bytes (store_bytes a bs m) a n = bs"
proof (rule nth_equalityI)
  show "length (load_bytes (store_bytes a bs m) a n) = length bs"
    using assms by simp
next
  fix i assume "i < length (load_bytes (store_bytes a bs m) a n)"
  then have i: "i < length bs" using assms by simp
  then have "unat (of_nat i :: u64) = i"
    using assms by (simp add: unat_of_nat_small)
  with i assms show "load_bytes (store_bytes a bs m) a n ! i = bs ! i"
    by (simp add: store_bytes_def)
qed

text \<open>
  Two regions are apart when the distance from each base to the other is at least the
  length of the region one starts from; no assumption on wrap-around is needed.
\<close>

definition apart :: "u64 \<Rightarrow> nat \<Rightarrow> u64 \<Rightarrow> nat \<Rightarrow> bool" where
  "apart a k b n \<longleftrightarrow> k \<le> unat (b - a) \<and> n \<le> unat (a - b)"

lemma apart_sym: "apart a k b n \<longleftrightarrow> apart b n a k"
  by (auto simp: apart_def)

lemma apart_miss:
  assumes "apart a k b n" and "i < n"
  shows "k \<le> unat (b + of_nat i - a)"
proof (cases "a = b")
  case True
  with assms show ?thesis by (simp add: apart_def)
next
  case False
  then have "unat (a - b) + unat (b - a) = 2 ^ 64"
    using unat_sub_flip [of a b] by simp
  with assms have le: "unat (b - a) + i < 2 ^ 64"
    by (auto simp: apart_def)
  then have "unat (of_nat i :: u64) = i" by (simp add: unat_of_nat_small)
  with le have "unat (b - a + of_nat i) = unat (b - a) + i"
    by (simp add: unat_add_small)
  then have "unat (b + of_nat i - a) = unat (b - a) + i"
    by (simp add: algebra_simps)
  with assms show ?thesis by (simp add: apart_def)
qed

lemma load_store_bytes_apart:
  assumes "apart a (length bs) b n"
  shows "load_bytes (store_bytes a bs m) b n = load_bytes m b n"
  by (rule nth_equalityI) (auto simp: store_bytes_def dest: apart_miss [OF assms])

text \<open>Regions that do not wrap are apart when one ends before the other starts.\<close>

lemma apart_nat:
  assumes "unat a + k \<le> unat b \<or> unat b + n \<le> unat a" "unat a + k \<le> 2 ^ 64" "unat b + n \<le> 2 ^ 64"
    "0 < k" "0 < n"
  shows "apart a k b n"
proof -
  from assms(1) show ?thesis
  proof
    assume le: "unat a + k \<le> unat b"
    with assms have "a \<noteq> b" by auto
    moreover have d: "unat (b - a) = unat b - unat a" using le by (simp add: unat_sub word_le_nat_alt)
    ultimately have "unat (a - b) + (unat b - unat a) = 2 ^ 64" using unat_sub_flip [of a b] by simp
    with le d assms show ?thesis unfolding apart_def by simp linarith
  next
    assume le: "unat b + n \<le> unat a"
    with assms have "b \<noteq> a" by auto
    moreover have d: "unat (a - b) = unat a - unat b" using le by (simp add: unat_sub word_le_nat_alt)
    ultimately have "unat (b - a) + (unat a - unat b) = 2 ^ 64" using unat_sub_flip [of b a] by simp
    with le d assms show ?thesis unfolding apart_def by simp linarith
  qed
qed

text \<open>Parts of one object lie at offsets from its address; they are apart when the offsets are.\<close>

lemma apart_offsets:
  assumes "i + k \<le> j \<or> j + n \<le> i" "i + k \<le> 2 ^ 64" "j + n \<le> 2 ^ 64" "0 < k" "0 < n"
  shows "apart (a + of_nat i) k (a + of_nat j) n"
proof -
  have u: "unat (of_nat i :: u64) = i" "unat (of_nat j :: u64) = j"
    using assms by (simp_all add: unat_of_nat_small)
  have "apart (of_nat i) k (of_nat j) n" by (rule apart_nat) (use assms u in auto)
  then show ?thesis by (simp add: apart_def)
qed

lemma store8_bytes: "store8 a b m = store_bytes a [b] m"
proof
  fix x
  have "unat (x - a) < 1 \<longleftrightarrow> x = a" by (simp add: unat_eq_0)
  then show "store8 a b m x = store_bytes a [b] m x"
    by (auto simp: store8_def store_bytes_def)
qed

lemma load_store_same [mem_simps]:
  "load32 (store32 a v m) a = v" "load64 (store64 a w m) a = w"
  by (simp_all add: load32_def store32_def load64_def store64_def load_store_bytes_same)

lemma load_store_apart [mem_simps]:
  "apart a 4 b 4 \<Longrightarrow> load32 (store32 a v m) b = load32 m b"
  "apart a 8 b 4 \<Longrightarrow> load32 (store64 a w m) b = load32 m b"
  "apart a 1 b 4 \<Longrightarrow> load32 (store8 a u m) b = load32 m b"
  "apart a 4 b 8 \<Longrightarrow> load64 (store32 a v m) b = load64 m b"
  "apart a 8 b 8 \<Longrightarrow> load64 (store64 a w m) b = load64 m b"
  "apart a 1 b 8 \<Longrightarrow> load64 (store8 a u m) b = load64 m b"
  by (simp_all add: load32_def store32_def load64_def store64_def store8_bytes load_store_bytes_apart)

lemma byte_store_apart [mem_simps]:
  "apart a 4 x 1 \<Longrightarrow> store32 a v m x = m x"
  "apart a 8 x 1 \<Longrightarrow> store64 a w m x = m x"
  "apart a 1 x 1 \<Longrightarrow> store8 a u m x = m x"
  by (simp_all add: apart_def store32_def store64_def store8_bytes store_bytes_def)

lemma load_bytes_cong:
  "(\<And>i. i < n \<Longrightarrow> m (a + of_nat i) = m' (a + of_nat i)) \<Longrightarrow> load_bytes m a n = load_bytes m' a n"
  by (simp add: load_bytes_def)

lemma unat_add_of_nat:
  "unat (a :: u64) + i < 2 ^ 64 \<Longrightarrow> unat (a + of_nat i) = unat a + i"
proof -
  assume h: "unat a + i < 2 ^ 64"
  then have "unat (of_nat i :: u64) = i" by (simp add: unat_of_nat_small)
  with h show ?thesis by (simp add: unat_add_small)
qed

text \<open>Parts of regions that are apart are apart.\<close>

lemma apart_sub:
  assumes "apart a k b n" "i + k' \<le> k" "j + n' \<le> n" "0 < k'" "0 < n'"
  shows "apart (a + of_nat i) k' (b + of_nat j) n'"
proof -
  have "a \<noteq> b" using assms by (auto simp: apart_def)
  then have flip: "unat (a - b) + unat (b - a) = 2 ^ 64" using unat_sub_flip [of a b] by simp
  have le: "k \<le> unat (b - a)" "n \<le> unat (a - b)" using assms(1) by (auto simp: apart_def)
  have u: "unat (of_nat i :: u64) = i" "unat (of_nat j :: u64) = j"
    using flip le assms by (auto intro!: unat_of_nat_small)
  have 1: "unat (b - a + of_nat j) = unat (b - a) + j" using flip le assms by (intro unat_add_of_nat) linarith
  have 2: "unat (a - b + of_nat i) = unat (a - b) + i" using flip le assms by (intro unat_add_of_nat) linarith
  have "b + of_nat j - (a + of_nat i) = (b - a + of_nat j) - of_nat i" by simp
  also have "unat \<dots> = unat (b - a) + j - i"
    using 1 u le assms by (subst unat_sub) (simp_all add: word_le_nat_alt)
  finally have d1: "unat (b + of_nat j - (a + of_nat i)) = unat (b - a) + j - i" .
  have "a + of_nat i - (b + of_nat j) = (a - b + of_nat i) - of_nat j" by simp
  also have "unat \<dots> = unat (a - b) + i - j"
    using 2 u le assms by (subst unat_sub) (simp_all add: word_le_nat_alt)
  finally have "unat (a + of_nat i - (b + of_nat j)) = unat (a - b) + i - j" .
  then show ?thesis using d1 le assms unfolding apart_def by linarith
qed

text \<open>Parts of what is read, and of what was stored.\<close>

lemma load_bytes_sub:
  "j + n \<le> k \<Longrightarrow> load_bytes m (a + of_nat j) n = take n (drop j (load_bytes m a k))"
  by (rule nth_equalityI) (simp_all add: add.assoc)

lemma load_store_sub:
  assumes "j + n \<le> length bs" "length bs \<le> 2 ^ 64"
  shows "load_bytes (store_bytes a bs m) (a + of_nat j) n = take n (drop j bs)"
  using load_bytes_sub [OF assms(1)] load_store_bytes_same [OF assms(2) refl] by simp

text \<open>A value read from memory depends on the bytes it is read from only.\<close>

lemma load_bytes_agree:
  assumes "unat a + n \<le> 2 ^ 64" "\<And>x. unat a \<le> unat x \<Longrightarrow> unat x < unat a + n \<Longrightarrow> m x = m' x"
  shows "load_bytes m a n = load_bytes m' a n"
proof (rule load_bytes_cong)
  fix i assume "i < n"
  then have "unat (a + of_nat i) = unat a + i" using assms(1) by (intro unat_add_of_nat) simp
  then show "m (a + of_nat i) = m' (a + of_nat i)" using \<open>i < n\<close> by (intro assms(2)) simp_all
qed

text \<open>The bits of a little-endian value, and a 32-bit read inside a 64-bit one.\<close>

lemma bit_of_le:
  "bit (of_le bs :: 'a::len word) n \<longleftrightarrow>
     n < LENGTH('a) \<and> n div 8 < length bs \<and> bit (bs ! (n div 8)) (n mod 8)"
proof (induction bs arbitrary: n)
  case (Cons b bs)
  show ?case
  proof (cases "n < 8")
    case True
    then show ?thesis by (auto simp: bit_simps)
  next
    case False
    then have "n div 8 = Suc ((n - 8) div 8)" "n mod 8 = (n - 8) mod 8"
      using le_div_geq [of 8 n] le_mod_geq [of 8 n] by simp_all
    moreover have "\<not> bit b n" using False bit_imp_le_length [of b n] by auto
    ultimately show ?thesis using Cons.IH [of "n - 8"] False by (auto simp: bit_simps)
  qed
qed simp

lemma load32_in_load64:
  assumes "k \<le> 4"
  shows "load32 m (a + of_nat k) = ucast (drop_bit (8 * k) (load64 m a))"
proof (rule bit_word_eqI)
  fix n assume n: "n < LENGTH(32)"
  then have "n div 8 < 4" by simp
  with assms have "n div 8 + k < 8" by linarith
  moreover have "(8 * k + n) div 8 = n div 8 + k" "(8 * k + n) mod 8 = n mod 8" by simp_all
  moreover have "a + of_nat k + of_nat (n div 8) = a + of_nat (n div 8 + k)" by simp
  ultimately show "bit (load32 m (a + of_nat k)) n \<longleftrightarrow> bit (ucast (drop_bit (8 * k) (load64 m a)) :: u32) n"
    using n assms \<open>n div 8 < 4\<close>
    by (simp add: load32_def load64_def bit_of_le bit_simps add.assoc)
qed

end
