(* ===== verification/PageMath.thy ===== *)
theory PageMath
  imports Prelude
begin

text \<open>
  \<^verbatim>\<open>include/kernel/mem/page.h\<close>: the page size of twOS (2 MiB), the page table flags, and the
  address arithmetic on pages, on 64-bit words so that wrap-around is the C code's.
\<close>

definition PAGE_SIZE :: u64 where "PAGE_SIZE = 0x200000"

definition PAGEINDEXMASK :: u64 where "PAGEINDEXMASK = 0x1FF"

definition PAGE_PRESENT_FLAG :: u64 where "PAGE_PRESENT_FLAG = 1"
definition PAGE_WRITE_FLAG :: u64 where "PAGE_WRITE_FLAG = push_bit 1 1"
definition PAGE_USER :: u64 where "PAGE_USER = push_bit 2 1"
definition PAGE_SIZE_2MB :: u64 where "PAGE_SIZE_2MB = push_bit 7 1"
definition PAGE_DEFAULT :: u64 where
  "PAGE_DEFAULT = PAGE_SIZE_2MB OR PAGE_PRESENT_FLAG OR PAGE_WRITE_FLAG"
definition PAGE_USER_DEFAULT :: u64 where
  "PAGE_USER_DEFAULT = PAGE_SIZE_2MB OR PAGE_PRESENT_FLAG OR PAGE_WRITE_FLAG OR PAGE_USER"

definition round_up_to_page :: "u64 \<Rightarrow> u64" where
  "round_up_to_page addr =
     (if addr mod PAGE_SIZE = 0 then addr
      else addr + (PAGE_SIZE - (addr mod PAGE_SIZE)))"

text \<open>\<open>calc_num_pages\<close> returns an \<open>int\<close>: the 64-bit quotient is cut to 32 bits.\<close>

definition calc_num_pages :: "u64 \<Rightarrow> u32" where
  "calc_num_pages addr_size = ucast ((addr_size + PAGE_SIZE - 1) div PAGE_SIZE)"

definition BITMASK_21_ALIGN :: u64 where "BITMASK_21_ALIGN = 0xFFFFFFFFFFE00000"

definition page_align :: "u64 \<Rightarrow> u64" where
  "page_align address = address AND BITMASK_21_ALIGN"

definition is_page_aligned :: "u64 \<Rightarrow> bool" where
  "is_page_aligned address \<longleftrightarrow> page_align address = address"

section \<open>The arithmetic in natural numbers\<close>

lemma unat_PAGE_SIZE [simp]: "unat PAGE_SIZE = 2097152"
  by (simp add: PAGE_SIZE_def)

lemma PAGE_SIZE_nonzero [simp]: "PAGE_SIZE \<noteq> 0"
  by (simp add: PAGE_SIZE_def)

lemma BITMASK_21_ALIGN_mask: "BITMASK_21_ALIGN = NOT (mask 21)"
  by (simp add: BITMASK_21_ALIGN_def mask_eq_exp_minus_1)

lemma unat_page_align: "unat (page_align a) = unat a div 2097152 * 2097152"
proof -
  have "page_align a = push_bit 21 (drop_bit 21 a)"
    by (rule bit_word_eqI) (auto simp: page_align_def BITMASK_21_ALIGN_mask bit_simps)
  moreover have "take_bit 64 (unat a) = unat a"
    by (rule take_bit_nat_eq_self) (rule unat_lt_64)
  ultimately have "unat (page_align a) = take_bit 64 (push_bit 21 (drop_bit 21 (unat a)))"
    by (simp add: unsigned_push_bit_eq unsigned_drop_bit_eq)
  also have "\<dots> = push_bit 21 (drop_bit 21 (unat a))"
  proof -
    have "push_bit 21 (drop_bit 21 (unat a)) < 2 ^ 64"
      using unat_lt_64 [of a] by (simp add: push_bit_eq_mult drop_bit_eq_div)
    then show ?thesis by (simp add: take_bit_nat_eq_self)
  qed
  finally show ?thesis by (simp add: push_bit_eq_mult drop_bit_eq_div)
qed

lemma page_align_idem [simp]: "page_align (page_align a) = page_align a"
  by (simp add: page_align_def ac_simps)

lemma is_page_aligned_iff: "is_page_aligned a \<longleftrightarrow> 2097152 dvd unat a"
  unfolding is_page_aligned_def word_unat_eq_iff unat_page_align
  by (metis dvd_div_mult_self dvd_triv_right)

lemma unat_round_up_to_page:
  assumes "unat a \<le> 2 ^ 64 - 2097152"
  shows "unat (round_up_to_page a) = (unat a + 2097151) div 2097152 * 2097152"
proof -
  define q r where "q = unat a div 2097152" and "r = unat a mod 2097152"
  have a: "unat a = q * 2097152 + r" and r: "r < 2097152"
    by (simp_all add: q_def r_def)
  have um: "unat (a mod PAGE_SIZE) = r"
    by (simp add: unat_mod r_def)
  show ?thesis
  proof (cases "r = 0")
    case True
    with um have "a mod PAGE_SIZE = 0" by (simp add: word_unat_eq_iff)
    with True a show ?thesis by (simp add: round_up_to_page_def)
  next
    case False
    with um have "a mod PAGE_SIZE \<noteq> 0" by (auto simp: word_unat_eq_iff)
    moreover have "unat (PAGE_SIZE - a mod PAGE_SIZE) = 2097152 - r"
      using r by (simp add: unat_sub_if' um)
    moreover have "unat a + (2097152 - r) = Suc q * 2097152"
      using a r by simp
    moreover have "(unat a + 2097151) div 2097152 = Suc q"
      using False r by (intro div_nat_eqI) (simp_all add: a)
    moreover have "Suc q * 2097152 < 2 ^ 64"
      using assms False a by simp
    ultimately show ?thesis
      by (simp add: round_up_to_page_def unat_add_small)
  qed
qed

end
