(* ===== verification/PhysMem.thy ===== *)
theory PhysMem
  imports PageMath
begin

text \<open>
  \<^verbatim>\<open>src/kernel/mem/physmem.c\<close>: the physical page allocator. The bitmap \<open>pmm\<close> has one bit
  per 2 MiB page, 64 to a word, 512 words; a set bit is a used page. The theory holds the
  operations as the C code has them, the abstract view (is page p used?), and what the
  allocator promises on it.
\<close>

section \<open>State\<close>

definition PMM_SIZE :: nat where "PMM_SIZE = 512"

definition PHYS_USED :: u8 where "PHYS_USED = 1"
definition PHYS_FREE :: u8 where "PHYS_FREE = 0"

definition MULTIBOOT_MEMORY_AVAILABLE :: u32 where "MULTIBOOT_MEMORY_AVAILABLE = 1"

record mmap_entry =
  mm_addr :: u64
  mm_len :: u64
  mm_type :: u32

record physmem =
  pmm :: "u64 list"
  mb_mmaps :: "mmap_entry list"
  mb_size :: u64
  mm_end :: u64
  phys_end :: u64
  total_avail :: u64

section \<open>Single pages\<close>

text \<open>
  \<open>set_phys\<close> builds its mask from the \<open>int\<close> expression \<open>1 << bit\<close>. Up to bit 31 its value
  is the 32-bit shift (GCC defines the sign bit); from bit 32 on C leaves it undefined, so
  the value the machine gives is the parameter \<open>ub\<close> of the model. The conversion of the
  \<open>int\<close> to \<open>uint64_t\<close> extends the sign.
\<close>

type_synonym int_shl = "nat \<Rightarrow> u32"

definition int_shl1 :: "int_shl \<Rightarrow> nat \<Rightarrow> u32" where
  "int_shl1 ub n = (if n < 32 then push_bit n 1 else ub n)"

definition set_phys_mask :: "int_shl \<Rightarrow> nat \<Rightarrow> u64" where
  "set_phys_mask ub n = scast (int_shl1 ub n)"

definition get_phys :: "u64 \<Rightarrow> physmem \<Rightarrow> u8 res" where
  "get_phys addr s =
     (if mm_end s = 0 then Inl Div_zero
      else let page_num = addr div PAGE_SIZE;
               idx = page_num div 64;
               bit_no = page_num mod 64
           in if unat idx < PMM_SIZE
              then Inr (ucast (drop_bit (unat bit_no) (pmm s ! unat idx) AND 1))
              else Inl Out_of_bounds)"

definition set_phys :: "int_shl \<Rightarrow> u64 \<Rightarrow> u8 \<Rightarrow> physmem \<Rightarrow> physmem res" where
  "set_phys ub addr b s =
     (let page_num = addr div PAGE_SIZE;
          idx = unat (page_num div 64);
          bit_no = unat (page_num mod 64);
          mask = set_phys_mask ub bit_no
      in if idx < PMM_SIZE
         then Inr (s\<lparr>pmm := (pmm s)[idx := (if b \<noteq> 0 then pmm s ! idx OR mask
                                           else pmm s ! idx AND NOT mask)]\<rparr>)
         else Inl Out_of_bounds)"

section \<open>Ranges of pages\<close>

text \<open>
  The loops of \<open>physmem_markregion\<close>, \<open>physmem_init\<close> and \<open>phys_free\<close> all step an address by
  one page up to an end and call \<open>set_phys\<close>; \<open>bf\<close> gives the bit for each address. An
  address past the bitmap ends in the fault of \<open>set_phys\<close>, so the loop cannot wrap around.
\<close>

lemma set_phys_bound:
  assumes "set_phys ub a b s = Inr s'"
  shows "unat a < 2 ^ 36"
proof -
  from assms have "unat a div 2097152 div 64 < 512"
    by (simp add: set_phys_def Let_def PMM_SIZE_def unat_div split: if_splits)
  then show ?thesis by simp
qed

function set_range :: "int_shl \<Rightarrow> u64 \<Rightarrow> u64 \<Rightarrow> (u64 \<Rightarrow> u8) \<Rightarrow> physmem \<Rightarrow> physmem res" where
  "set_range ub addr e bf s =
     (if addr < e then bindE (set_phys ub addr (bf addr) s) (set_range ub (addr + PAGE_SIZE) e bf)
      else Inr s)"
  by pat_completeness auto
termination
proof (relation "measure (\<lambda>(ub, addr, e, bf, s). 2 ^ 64 - unat addr)", goal_cases)
  case 1
  show ?case by simp
next
  case (2 ub addr e bf s v)
  then have "unat addr < 2 ^ 36" by (blast dest: set_phys_bound)
  then show ?case by (simp add: unat_add_small)
qed

declare set_range.simps [simp del]

definition physmem_markregion :: "int_shl \<Rightarrow> u64 \<Rightarrow> u64 \<Rightarrow> u8 \<Rightarrow> physmem \<Rightarrow> physmem res" where
  "physmem_markregion ub map_start map_end b s = set_range ub map_start map_end (\<lambda>_. b) s"

definition phys_free :: "int_shl \<Rightarrow> u64 \<Rightarrow> u64 \<Rightarrow> physmem \<Rightarrow> physmem res" where
  "phys_free ub addr sz s = set_range ub addr (addr + sz) (\<lambda>_. PHYS_FREE) s"

section \<open>Initialisation from the multiboot memory map\<close>

text \<open>The first loop: the bytes available and the end of the highest available region.\<close>

fun sum_avail :: "mmap_entry list \<Rightarrow> u64 \<Rightarrow> u64 \<Rightarrow> u64 \<times> u64" where
  "sum_avail [] tot highest = (tot, highest)"
| "sum_avail (e # es) tot highest =
     sum_avail es
       (if mm_type e = MULTIBOOT_MEMORY_AVAILABLE then tot + mm_len e else tot)
       (if mm_addr e + mm_len e > highest \<and> mm_type e = MULTIBOOT_MEMORY_AVAILABLE
        then mm_addr e + mm_len e else highest)"

text \<open>The second loop: mark every entry's pages, up to the first entry past the end.\<close>

definition mark_entry :: "int_shl \<Rightarrow> mmap_entry \<Rightarrow> physmem \<Rightarrow> physmem res" where
  "mark_entry ub e s =
     set_range ub (round_up_to_page (mm_addr e)) (round_up_to_page (mm_addr e + mm_len e))
       (\<lambda>addr. of_bool (mm_type e \<noteq> MULTIBOOT_MEMORY_AVAILABLE \<or> addr < PAGE_SIZE)) s"

fun mark_entries :: "int_shl \<Rightarrow> mmap_entry list \<Rightarrow> physmem \<Rightarrow> physmem res" where
  "mark_entries ub [] s = Inr s"
| "mark_entries ub (e # es) s =
     (if mm_addr e > phys_end s then Inr s
      else bindE (mark_entry ub e s) (mark_entries ub es))"

text \<open>The third loop: the first 16 pages stay used.\<close>

fun reserve_low :: "int_shl \<Rightarrow> nat list \<Rightarrow> physmem \<Rightarrow> physmem res" where
  "reserve_low ub [] s = Inr s"
| "reserve_low ub (i # is) s =
     bindE (set_phys ub (PAGE_SIZE * of_nat i) 1 s) (reserve_low ub is)"

text \<open>
  \<open>physmem_init\<close> clears the state, fills the bitmap with bytes \<open>PHYS_USED\<close>, sizes it from
  the highest available address, fills the words below \<open>mm_end\<close> with ones, frees the
  available regions and reserves the low pages. The four \<open>get_phys\<close> calls are the
  arguments of the last debug line; they can fault.
\<close>

definition physmem_init :: "int_shl \<Rightarrow> mmap_entry list \<Rightarrow> (u64 \<times> physmem) res" where
  "physmem_init ub mmaps =
     (let (tot, highest) = sum_avail mmaps 0 0;
          highest_avail = round_up_to_page highest;
          num_bits = highest_avail div PAGE_SIZE + 64;
          mmend = num_bits div 64 - 1;
          s = \<lparr>pmm = replicate PMM_SIZE 0x0101010101010101, mb_mmaps = mmaps,
               mb_size = of_nat (length mmaps), mm_end = mmend,
               phys_end = highest_avail, total_avail = tot\<rparr>
      in if unat mmend > PMM_SIZE then Inl Out_of_bounds
         else
           let s = s\<lparr>pmm := replicate (unat mmend) (-1) @ drop (unat mmend) (pmm s)\<rparr>
           in bindE (mark_entries ub mmaps s) (\<lambda>s.
              bindE (reserve_low ub [0..<16] s) (\<lambda>s.
              bindE (get_phys 0xfffc0000 s) (\<lambda>_.
              bindE (get_phys (0x100000000 + PAGE_SIZE) s) (\<lambda>_.
              bindE (get_phys 0x100000000 s) (\<lambda>_.
              bindE (get_phys (0xbffe0000 - PAGE_SIZE) s) (\<lambda>_.
              Inr (total_avail s, s))))))))"

section \<open>Allocation\<close>

text \<open>The variables of the search: \<open>contiguous_free_pages\<close>, \<open>start_idx\<close>, \<open>start_bit\<close>.\<close>

record scan =
  run :: nat
  start_idx :: nat
  start_bit :: nat

datatype scan_out = Go_on scan | Found scan

function scan_bits :: "u64 \<Rightarrow> nat \<Rightarrow> nat \<Rightarrow> nat \<Rightarrow> scan \<Rightarrow> scan_out" where
  "scan_bits w num_pages idx b st =
     (if b < 64 then
        (if w AND push_bit b 1 = 0 then
           let st1 = (if run st = 0 then st\<lparr>start_idx := idx, start_bit := b\<rparr> else st);
               st2 = st1\<lparr>run := run st1 + 1\<rparr>
           in if run st2 = num_pages then Found st2
              else scan_bits w num_pages idx (b + 1) st2
         else scan_bits w num_pages idx (b + 1) (st\<lparr>run := 0\<rparr>))
      else Go_on st)"
  by pat_completeness auto
termination
  by (relation "measure (\<lambda>(m, n, i, b, st). 64 - b)") auto

declare scan_bits.simps [simp del]

text \<open>A word that is all ones is skipped; the run that was counted so far is kept.\<close>

function scan_words :: "u64 list \<Rightarrow> nat \<Rightarrow> nat \<Rightarrow> nat \<Rightarrow> scan \<Rightarrow> scan option res" where
  "scan_words ws mmend num_pages idx st =
     (if idx < mmend then
        (if idx \<ge> PMM_SIZE then Inl Out_of_bounds
         else if ws ! idx = -1 then scan_words ws mmend num_pages (idx + 1) st
         else (case scan_bits (ws ! idx) num_pages idx 0 st of
                 Found st' \<Rightarrow> Inr (Some st')
               | Go_on st' \<Rightarrow> scan_words ws mmend num_pages (idx + 1) st'))
      else Inr None)"
  by pat_completeness auto
termination
  by (relation "measure (\<lambda>(ws, e, n, i, st). e - i)") auto

declare scan_words.simps [simp del]

fun mark_pages :: "nat list \<Rightarrow> nat \<Rightarrow> nat \<Rightarrow> u64 list \<Rightarrow> u64 list res" where
  "mark_pages [] si sb ws = Inr ws"
| "mark_pages (i # is) si sb ws =
     (let alloc_idx = si + (sb + i) div 64;
          alloc_bit = (sb + i) mod 64
      in if alloc_idx < PMM_SIZE
         then mark_pages is si sb (ws[alloc_idx := ws ! alloc_idx OR push_bit alloc_bit 1])
         else Inl Out_of_bounds)"

definition alloc_num_pages :: "u64 \<Rightarrow> nat" where
  "alloc_num_pages sz = unat ((sz + PAGE_SIZE - 1) div PAGE_SIZE)"

definition phys_malloc :: "u64 \<Rightarrow> physmem \<Rightarrow> (u64 \<times> physmem) res" where
  "phys_malloc sz s =
     (let num_pages = alloc_num_pages sz
      in bindE (scan_words (pmm s) (unat (mm_end s)) num_pages 0
                  \<lparr>run = 0, start_idx = 0, start_bit = 0\<rparr>) (\<lambda>r.
         case r of
           None \<Rightarrow> Inr (0, s)
         | Some st \<Rightarrow>
             bindE (mark_pages [0..<num_pages] (start_idx st) (start_bit st) (pmm s)) (\<lambda>ws.
             Inr (of_nat (start_idx st * 64 + start_bit st) * PAGE_SIZE, s\<lparr>pmm := ws\<rparr>))))"


section \<open>The abstract view: which pages are used\<close>

definition page_of :: "u64 \<Rightarrow> nat" where
  "page_of a = unat a div 2097152"

definition page_used :: "u64 list \<Rightarrow> nat \<Rightarrow> bool" where
  "page_used ws p \<longleftrightarrow> bit (ws ! (p div 64)) (p mod 64)"

definition pmm_ok :: "physmem \<Rightarrow> bool" where
  "pmm_ok s \<longleftrightarrow> length (pmm s) = PMM_SIZE"

lemma page_index [simp]:
  "unat (addr div PAGE_SIZE div 64) = page_of addr div 64"
  "unat (addr div PAGE_SIZE mod 64) = page_of addr mod 64"
  by (simp_all add: page_of_def unat_div unat_mod)

lemma page_used_update:
  assumes "i < length ws"
  shows "page_used (ws[i := w]) q = (if q div 64 = i then bit w (q mod 64) else page_used ws q)"
  using assms by (auto simp: page_used_def nth_list_update)

lemma page_eq_iff: "(q :: nat) = p \<longleftrightarrow> q div 64 = p div 64 \<and> q mod 64 = p mod 64"
  by (metis div_mult_mod_eq)

lemma test_bit_mask: "b < 64 \<Longrightarrow> (w AND push_bit b 1 = 0) \<longleftrightarrow> \<not> bit w b" for w :: u64
  by (simp add: and_exp_eq_0_iff_not_bit)

lemma bit_push_bit_1: "bit (push_bit k 1 :: u64) n \<longleftrightarrow> n = k \<and> k < 64"
  by (auto simp: bit_simps)

lemma set_phys_mask_low: "n < 31 \<Longrightarrow> set_phys_mask ub n = push_bit n 1"
  by (rule bit_word_eqI) (auto simp: set_phys_mask_def int_shl1_def bit_simps)

text \<open>
  An \<open>int\<close> converted to 64 bits has equal bits from 31 up: whatever value the shift gives,
  it is not the single bit the page needs.
\<close>

lemma set_phys_mask_high:
  assumes "31 \<le> n" and "n < 64"
  shows "set_phys_mask ub n \<noteq> push_bit n 1"
proof
  assume eq: "set_phys_mask ub n = push_bit n 1"
  have "bit (set_phys_mask ub n) n" using assms by (simp add: eq bit_simps)
  then have "bit (int_shl1 ub n) 31"
    using assms by (auto simp: set_phys_mask_def bit_simps)
  then have "bit (set_phys_mask ub n) 31 \<and> bit (set_phys_mask ub n) 63"
    by (simp add: set_phys_mask_def bit_simps)
  then show False by (auto simp: eq bit_simps)
qed

lemma set_phys_frame:
  assumes "set_phys ub a b s = Inr s'"
  obtains ws where "s' = s\<lparr>pmm := ws\<rparr>" and "length ws = length (pmm s)"
  using assms by (auto simp: set_phys_def Let_def split: if_splits)

lemma set_phys_ok: "set_phys ub a b s = Inr s' \<Longrightarrow> pmm_ok s \<Longrightarrow> pmm_ok s'"
  by (auto simp: pmm_ok_def elim: set_phys_frame)

lemma set_phys_used:
  assumes "set_phys ub a b s = Inr s'" and "pmm_ok s"
  shows "page_used (pmm s') q =
    (if q div 64 = page_of a div 64
     then (if b \<noteq> 0 then page_used (pmm s) q \<or> bit (set_phys_mask ub (page_of a mod 64)) (q mod 64)
           else page_used (pmm s) q \<and> \<not> bit (set_phys_mask ub (page_of a mod 64)) (q mod 64))
     else page_used (pmm s) q)"
  using assms
  by (auto simp: set_phys_def Let_def pmm_ok_def page_used_update page_used_def bit_simps
      split: if_splits)

lemma set_phys_used_low:
  assumes "set_phys ub a b s = Inr s'" and "pmm_ok s" and "page_of a mod 64 < 31"
  shows "page_used (pmm s') q = (if q = page_of a then b \<noteq> 0 else page_used (pmm s) q)"
  unfolding set_phys_used [OF assms(1,2)] set_phys_mask_low [OF assms(3)] bit_push_bit_1
  by (auto simp: page_eq_iff [of q "page_of a"])

lemma set_phys_defined:
  "page_of a < 32768 \<Longrightarrow> \<exists>s'. set_phys ub a b s = Inr s'"
  by (auto simp: set_phys_def Let_def PMM_SIZE_def)

lemma get_phys_used:
  assumes "page_of a < 32768" and "mm_end s \<noteq> 0"
  shows "get_phys a s = Inr (of_bool (page_used (pmm s) (page_of a)))"
proof -
  have "page_of a div 64 < 512" using assms by simp
  moreover have "ucast (drop_bit n w AND 1) = (of_bool (bit w n) :: u8)" for n and w :: u64
    by (simp add: bit_iff_odd_drop_bit and_one_eq mod_2_eq_odd)
  ultimately show ?thesis
    using assms by (simp add: get_phys_def Let_def PMM_SIZE_def page_used_def)
qed


section \<open>The search\<close>

definition scan_start :: "scan \<Rightarrow> nat" where
  "scan_start st = start_idx st * 64 + start_bit st"

definition free_run :: "u64 list \<Rightarrow> nat \<Rightarrow> nat \<Rightarrow> bool" where
  "free_run ws p e \<longleftrightarrow> (\<forall>q. p \<le> q \<and> q < e \<longrightarrow> \<not> page_used ws q)"

definition free_or_full :: "u64 list \<Rightarrow> nat \<Rightarrow> nat \<Rightarrow> bool" where
  "free_or_full ws p e \<longleftrightarrow> (p < e \<longrightarrow> \<not> page_used ws p) \<and>
     (\<forall>q. p \<le> q \<and> q < e \<longrightarrow> \<not> page_used ws q \<or> ws ! (q div 64) = -1)"

definition no_fit :: "u64 list \<Rightarrow> nat \<Rightarrow> nat \<Rightarrow> bool" where
  "no_fit ws n e \<longleftrightarrow> (\<forall>p. p + n \<le> e \<longrightarrow> \<not> free_run ws p (p + n))"

text \<open>
  What the search knows before it looks at page \<open>x\<close>: the pages counted since the start of
  the run are free or belong to words it skipped; every run of free pages that ends at
  \<open>x\<close> has been counted in full; and no large enough run ends before \<open>x\<close>.
\<close>

definition scan_inv :: "u64 list \<Rightarrow> nat \<Rightarrow> nat \<Rightarrow> scan \<Rightarrow> bool" where
  "scan_inv ws n x st \<longleftrightarrow>
     run st < n \<and>
     (0 < run st \<longrightarrow> start_bit st < 64 \<and> scan_start st + run st \<le> x \<and>
        free_or_full ws (scan_start st) x) \<and>
     (\<forall>p\<le>x. free_run ws p x \<longrightarrow> x - p \<le> run st) \<and> no_fit ws n x"

definition scan_hit :: "u64 list \<Rightarrow> nat \<Rightarrow> nat \<Rightarrow> scan \<Rightarrow> bool" where
  "scan_hit ws n e st \<longleftrightarrow>
     0 < n \<and> start_bit st < 64 \<and>
     free_or_full ws (scan_start st) (scan_start st + n) \<and>
     (\<exists>x. scan_start st + n \<le> Suc x \<and> Suc x \<le> e \<and> no_fit ws n x)"

lemma free_run_Suc: "p \<le> x \<Longrightarrow> free_run ws p (Suc x) \<longleftrightarrow> free_run ws p x \<and> \<not> page_used ws x"
  by (auto simp: free_run_def less_Suc_eq)

lemma free_or_full_Suc:
  "p \<le> x \<Longrightarrow> free_or_full ws p (Suc x) \<longleftrightarrow>
     free_or_full ws p x \<and> (\<not> page_used ws x \<or> p < x \<and> ws ! (x div 64) = -1)"
  by (auto simp: free_or_full_def less_Suc_eq)

lemma no_fit_Suc:
  "no_fit ws n (Suc x) \<longleftrightarrow>
     no_fit ws n x \<and> (n \<le> Suc x \<longrightarrow> \<not> free_run ws (Suc x - n) (Suc x))"
proof -
  have "p + n \<le> Suc x \<longleftrightarrow> p + n \<le> x \<or> n \<le> Suc x \<and> p = Suc x - n" for p
    by auto
  then show ?thesis
    by (auto simp: no_fit_def simp del: diff_Suc_Suc)
qed

lemma no_fit_0: "0 < n \<Longrightarrow> no_fit ws n 0"
  by (simp add: no_fit_def)

text \<open>One used page: the counter is reset.\<close>

lemma scan_inv_used:
  assumes "scan_inv ws n x st" and "page_used ws x"
  shows "scan_inv ws n (Suc x) (st\<lparr>run := 0\<rparr>)"
proof -
  have "\<not> free_run ws p (Suc x)" if "p \<le> x" for p
    using assms that by (simp add: free_run_Suc)
  moreover have "0 < n" using assms by (auto simp: scan_inv_def)
  ultimately show ?thesis
    using assms by (auto simp: scan_inv_def no_fit_Suc le_Suc_eq)
qed

text \<open>One free page: the counter grows, and the page either completes the run or keeps the invariant.\<close>

definition scan_bump :: "nat \<Rightarrow> nat \<Rightarrow> scan \<Rightarrow> scan" where
  "scan_bump idx b st =
     (let st1 = (if run st = 0 then st\<lparr>start_idx := idx, start_bit := b\<rparr> else st)
      in st1\<lparr>run := run st1 + 1\<rparr>)"

lemma run_scan_bump [simp]: "run (scan_bump idx b st) = Suc (run st)"
  by (simp add: scan_bump_def Let_def)

lemma scan_bump_start:
  assumes "scan_inv ws n x st" and "\<not> page_used ws x" and "x = idx * 64 + b" and "b < 64"
  shows "start_bit (scan_bump idx b st) < 64"
    and "scan_start (scan_bump idx b st) + Suc (run st) \<le> Suc x"
    and "free_or_full ws (scan_start (scan_bump idx b st)) (Suc x)"
  using assms
  by (auto simp: scan_inv_def scan_bump_def Let_def scan_start_def free_or_full_Suc)
     (auto simp: free_or_full_def)

lemma scan_inv_free:
  assumes inv: "scan_inv ws n x st" and fr: "\<not> page_used ws x"
    and x: "x = idx * 64 + b" "b < 64" and ne: "Suc (run st) \<noteq> n"
  shows "scan_inv ws n (Suc x) (scan_bump idx b st)"
proof -
  have cnt: "Suc x - p \<le> Suc (run st)" if "p \<le> Suc x" "free_run ws p (Suc x)" for p
    using that inv by (cases "p = Suc x") (auto simp: scan_inv_def free_run_Suc le_Suc_eq)
  have lt: "Suc (run st) < n" using inv ne by (auto simp: scan_inv_def)
  have "no_fit ws n (Suc x)"
    using inv lt cnt [of "Suc x - n"] by (auto simp: scan_inv_def no_fit_Suc)
  with lt cnt scan_bump_start [OF inv fr x] show ?thesis
    by (simp add: scan_inv_def)
qed

lemma scan_hit_free:
  assumes inv: "scan_inv ws n x st" and fr: "\<not> page_used ws x"
    and x: "x = idx * 64 + b" "b < 64" and eq: "Suc (run st) = n"
  shows "scan_hit ws n (Suc x) (scan_bump idx b st)"
  using scan_bump_start [OF inv fr x] eq inv
  by (auto simp: scan_hit_def free_or_full_def scan_inv_def)


text \<open>A full word: no run ends in it, and the count goes on.\<close>

lemma full_word_used: "ws ! idx = -1 \<Longrightarrow> q div 64 = idx \<Longrightarrow> page_used ws q"
  by (simp add: page_used_def)

lemma scan_inv_full:
  assumes inv: "scan_inv ws n (idx * 64) st" and full: "ws ! idx = -1"
  shows "scan_inv ws n (Suc idx * 64) st"
proof -
  have used: "page_used ws q" if "idx * 64 \<le> q" "q < Suc idx * 64" for q
    using full that by (intro full_word_used [of ws idx]) auto
  have nofree: "\<not> free_run ws p (Suc idx * 64)" if "p < Suc idx * 64" for p
    using used [of "Suc idx * 64 - 1"] that
    by (auto simp: free_run_def intro!: exI [of _ "Suc idx * 64 - 1"])
  have "\<not> free_run ws p (p + n)" if "p + n \<le> Suc idx * 64" for p
  proof (cases "p + n \<le> idx * 64")
    case True
    then show ?thesis using inv by (simp add: scan_inv_def no_fit_def)
  next
    case False
    moreover have "0 < n" using inv by (auto simp: scan_inv_def)
    ultimately show ?thesis
      using used [of "p + n - 1"] that
      by (auto simp: free_run_def intro!: exI [of _ "p + n - 1"])
  qed
  moreover have "free_or_full ws (scan_start st) (Suc idx * 64)"
    if "free_or_full ws (scan_start st) (idx * 64)" "scan_start st < idx * 64"
  proof -
    have "q < idx * 64 \<or> q div 64 = idx" if "q < Suc idx * 64" for q
      using that by auto
    then show ?thesis using that full by (auto simp: free_or_full_def)
  qed
  moreover have "Suc idx * 64 - p \<le> run st" if "p \<le> Suc idx * 64" "free_run ws p (Suc idx * 64)" for p
    using nofree [of p] that by (cases "p = Suc idx * 64") auto
  ultimately show ?thesis
    using inv by (auto simp: scan_inv_def no_fit_def)
qed

lemma scan_bits_end: "\<not> b < 64 \<Longrightarrow> scan_bits w n idx b st = Go_on st"
  by (subst scan_bits.simps) simp

lemma scan_bits_used:
  "b < 64 \<Longrightarrow> bit w b \<Longrightarrow> scan_bits w n idx b st = scan_bits w n idx (b + 1) (st\<lparr>run := 0\<rparr>)"
  by (subst scan_bits.simps) (simp add: and_exp_eq_0_iff_not_bit)

lemma scan_bits_free:
  "b < 64 \<Longrightarrow> \<not> bit w b \<Longrightarrow> scan_bits w n idx b st =
     (if Suc (run st) = n then Found (scan_bump idx b st)
      else scan_bits w n idx (b + 1) (scan_bump idx b st))"
  by (subst scan_bits.simps) (simp add: and_exp_eq_0_iff_not_bit scan_bump_def Let_def)

lemma scan_bits_rule:
  assumes "scan_inv ws n (idx * 64 + b) st" and "b \<le> 64"
  shows "case scan_bits (ws ! idx) n idx b st of
           Go_on st' \<Rightarrow> scan_inv ws n (Suc idx * 64) st'
         | Found st' \<Rightarrow> (\<exists>e. e \<le> Suc idx * 64 \<and> scan_hit ws n e st')"
  using assms
proof (induction "64 - b" arbitrary: b st)
  case 0
  then show ?case by (simp add: scan_bits_end add.commute)
next
  case (Suc k)
  then have lt: "b < 64" and k: "k = 64 - (b + 1)" "b + 1 \<le> 64" by simp_all
  have pu: "page_used ws (idx * 64 + b) \<longleftrightarrow> bit (ws ! idx) b"
    using lt by (simp add: page_used_def)
  show ?case
  proof (cases "bit (ws ! idx) b")
    case True
    then have "scan_inv ws n (idx * 64 + (b + 1)) (st\<lparr>run := 0\<rparr>)"
      using scan_inv_used [OF Suc.prems(1)] pu by simp
    from Suc.hyps(1) [OF k(1) this k(2)] show ?thesis
      using True lt by (simp add: scan_bits_used)
  next
    case False
    with pu have np: "\<not> page_used ws (idx * 64 + b)" by simp
    show ?thesis
    proof (cases "Suc (run st) = n")
      case True
      have "scan_hit ws n (Suc (idx * 64 + b)) (scan_bump idx b st)"
        by (rule scan_hit_free [OF Suc.prems(1) np refl lt True])
      with True False lt show ?thesis
        by (auto simp: scan_bits_free intro!: exI [of _ "Suc (idx * 64 + b)"])
    next
      case ne: False
      have "scan_inv ws n (idx * 64 + (b + 1)) (scan_bump idx b st)"
        using scan_inv_free [OF Suc.prems(1) np refl lt ne] by simp
      from Suc.hyps(1) [OF k(1) this k(2)] show ?thesis
        using ne False lt by (simp add: scan_bits_free)
    qed
  qed
qed

lemma scan_words_rule:
  assumes "scan_inv ws n (idx * 64) st" and "mmend \<le> PMM_SIZE" and "idx \<le> mmend"
  shows "(scan_words ws mmend n idx st = Inr None \<and> no_fit ws n (mmend * 64)) \<or>
         (\<exists>st'. scan_words ws mmend n idx st = Inr (Some st') \<and> scan_hit ws n (mmend * 64) st')"
  using assms
proof (induction "mmend - idx" arbitrary: idx st)
  case 0
  then have "scan_words ws mmend n idx st = Inr None"
    by (subst scan_words.simps) simp
  with 0 show ?case by (simp add: scan_inv_def)
next
  case (Suc k)
  then have lt: "idx < mmend" and k: "k = mmend - Suc idx" "Suc idx \<le> mmend" by simp_all
  with Suc.prems have "\<not> PMM_SIZE \<le> idx" by simp
  note unf = scan_words.simps [of ws mmend n idx st] lt this
  show ?case
  proof (cases "ws ! idx = -1")
    case True
    from Suc.hyps(1) [OF k(1) scan_inv_full [OF Suc.prems(1) True] Suc.prems(2) k(2)]
    show ?thesis using True by (simp add: unf)
  next
    case False
    have rule: "case scan_bits (ws ! idx) n idx 0 st of
           Go_on st' \<Rightarrow> scan_inv ws n (Suc idx * 64) st'
         | Found st' \<Rightarrow> (\<exists>e. e \<le> Suc idx * 64 \<and> scan_hit ws n e st')"
      using Suc.prems(1) by (intro scan_bits_rule) simp_all
    show ?thesis
    proof (cases "scan_bits (ws ! idx) n idx 0 st")
      case (Go_on st')
      with rule have "scan_inv ws n (Suc idx * 64) st'" by simp
      from Suc.hyps(1) [OF k(1) this Suc.prems(2) k(2)] show ?thesis
        using False Go_on by (simp add: unf)
    next
      case (Found st')
      with rule obtain e where "e \<le> Suc idx * 64" and "scan_hit ws n e st'" by auto
      moreover have "Suc idx * 64 \<le> mmend * 64" using k(2) by (rule mult_le_mono1)
      ultimately have "scan_hit ws n (mmend * 64) st'" by (force simp: scan_hit_def)
      then show ?thesis using False Found by (simp add: unf)
    qed
  qed
qed

lemma scan_inv_init: "0 < n \<Longrightarrow> scan_inv ws n 0 \<lparr>run = 0, start_idx = 0, start_bit = 0\<rparr>"
  by (simp add: scan_inv_def no_fit_0)

text \<open>A request for no page at all never succeeds.\<close>

lemma scan_bits_zero: "\<exists>st'. scan_bits w 0 idx b st = Go_on st'"
proof (induction "64 - b" arbitrary: b st)
  case 0
  then show ?case by (simp add: scan_bits_end)
next
  case (Suc k)
  then have "k = 64 - (b + 1)" and "b < 64" by simp_all
  with Suc.hyps(1) show ?case
    by (cases "bit w b") (simp_all add: scan_bits_used scan_bits_free)
qed

lemma scan_words_zero: "mmend \<le> PMM_SIZE \<Longrightarrow> scan_words ws mmend 0 idx st = Inr None"
proof (induction "mmend - idx" arbitrary: idx st)
  case 0
  then show ?case by (subst scan_words.simps) simp
next
  case (Suc k)
  then have "k = mmend - (idx + 1)" by simp
  note IH = Suc.hyps(1) [OF this Suc.prems]
  obtain st' where "scan_bits (ws ! idx) 0 idx 0 st = Go_on st'"
    using scan_bits_zero by blast
  with Suc.prems Suc.hyps(2) IH show ?case
    by (subst scan_words.simps) simp
qed

section \<open>Marking the pages found\<close>

lemma mark_pages_rule:
  assumes "length ws = PMM_SIZE" and "si * 64 + sb + k + n \<le> PMM_SIZE * 64" and "sb < 64"
  shows "\<exists>ws'. mark_pages [k..<k + n] si sb ws = Inr ws' \<and> length ws' = PMM_SIZE \<and>
           (\<forall>q. page_used ws' q \<longleftrightarrow>
              page_used ws q \<or> si * 64 + sb + k \<le> q \<and> q < si * 64 + sb + k + n)"
  using assms
proof (induction n arbitrary: k ws)
  case 0
  then show ?case by auto
next
  case (Suc n)
  let ?i = "si + (sb + k) div 64" and ?b = "(sb + k) mod 64"
  let ?ws = "ws[?i := ws ! ?i OR push_bit ?b 1]"
  have pos: "?i * 64 + ?b = si * 64 + sb + k" by simp
  have lt: "?i < PMM_SIZE"
    using Suc.prems(2) pos by linarith
  have used: "page_used ?ws q \<longleftrightarrow> page_used ws q \<or> q = si * 64 + sb + k" for q
  proof -
    have "q = si * 64 + sb + k \<longleftrightarrow> q div 64 = ?i \<and> q mod 64 = ?b"
      unfolding page_eq_iff [of q] pos [symmetric] by simp
    moreover have "page_used ?ws q \<longleftrightarrow>
        (if q div 64 = ?i then bit (ws ! ?i OR push_bit ?b 1) (q mod 64) else page_used ws q)"
      using lt Suc.prems(1) by (intro page_used_update) simp
    moreover have "bit (ws ! ?i) (q mod 64) = page_used ws q" if "q div 64 = ?i"
      using that by (simp add: page_used_def)
    ultimately show ?thesis
      by (simp add: bit_or_iff bit_push_bit_1 del: push_bit_of_1)
  qed
  obtain ws' where ws': "mark_pages [Suc k..<Suc k + n] si sb ?ws = Inr ws'" "length ws' = PMM_SIZE"
      "\<forall>q. page_used ws' q \<longleftrightarrow>
         page_used ?ws q \<or> si * 64 + sb + Suc k \<le> q \<and> q < si * 64 + sb + Suc k + n"
    using Suc.IH [of ?ws "Suc k"] Suc.prems by auto
  have "[k..<k + Suc n] = k # [Suc k..<Suc k + n]"
    by (simp add: upt_conv_Cons del: upt_Suc)
  with lt ws'(1) have "mark_pages [k..<k + Suc n] si sb ws = Inr ws'"
    by (simp add: Let_def)
  moreover have "page_used ws' q \<longleftrightarrow>
      page_used ws q \<or> si * 64 + sb + k \<le> q \<and> q < si * 64 + sb + k + Suc n" for q
  proof -
    have "q = si * 64 + sb + k \<or> si * 64 + sb + Suc k \<le> q \<and> q < si * 64 + sb + Suc k + n \<longleftrightarrow>
      si * 64 + sb + k \<le> q \<and> q < si * 64 + sb + k + Suc n"
      by auto
    with ws'(3) used [of q] show ?thesis by blast
  qed
  ultimately show ?case using ws'(2) by blast
qed


section \<open>What the allocator promises\<close>

definition pmm_wf :: "physmem \<Rightarrow> bool" where
  "pmm_wf s \<longleftrightarrow> pmm_ok s \<and> unat (mm_end s) \<le> PMM_SIZE"

definition marks :: "u64 list \<Rightarrow> nat \<Rightarrow> nat \<Rightarrow> u64 list \<Rightarrow> bool" where
  "marks ws p n ws' \<longleftrightarrow> length ws' = PMM_SIZE \<and>
     (\<forall>q. page_used ws' q \<longleftrightarrow> page_used ws q \<or> p \<le> q \<and> q < p + n)"

lemma page_of_index: "p < 2 ^ 43 \<Longrightarrow> page_of (of_nat p * PAGE_SIZE) = p"
proof -
  assume p: "p < 2 ^ 43"
  have "of_nat p * PAGE_SIZE = of_nat (p * 2097152)"
    by (simp add: PAGE_SIZE_def)
  moreover have "unat (of_nat (p * 2097152) :: u64) = p * 2097152"
    using p by (intro unat_of_nat_small) simp
  ultimately show ?thesis
    unfolding page_of_def by simp
qed

lemma phys_malloc_cases:
  assumes wf: "pmm_wf s" and n: "n = alloc_num_pages sz"
  shows "(phys_malloc sz s = Inr (0, s) \<and> (n = 0 \<or> no_fit (pmm s) n (unat (mm_end s) * 64))) \<or>
    (\<exists>p ws'. phys_malloc sz s = Inr (of_nat p * PAGE_SIZE, s\<lparr>pmm := ws'\<rparr>) \<and>
       0 < n \<and> p + n \<le> unat (mm_end s) * 64 \<and> free_or_full (pmm s) p (p + n) \<and>
       marks (pmm s) p n ws' \<and> (\<forall>p'. free_run (pmm s) p' (p' + n) \<longrightarrow> p \<le> p'))"
proof (cases "n = 0")
  case True
  with wf n show ?thesis
    by (auto simp: phys_malloc_def Let_def pmm_wf_def scan_words_zero)
next
  case False
  let ?st = "\<lparr>run = 0, start_idx = 0, start_bit = 0\<rparr> :: scan"
  let ?scan = "scan_words (pmm s) (unat (mm_end s)) n 0 ?st"
  have "(?scan = Inr None \<and> no_fit (pmm s) n (unat (mm_end s) * 64)) \<or>
        (\<exists>st'. ?scan = Inr (Some st') \<and> scan_hit (pmm s) n (unat (mm_end s) * 64) st')"
    using False wf by (intro scan_words_rule) (simp_all add: scan_inv_init pmm_wf_def)
  then show ?thesis
  proof (elim disjE exE conjE)
    assume "?scan = Inr None" and "no_fit (pmm s) n (unat (mm_end s) * 64)"
    then show ?thesis by (simp add: phys_malloc_def Let_def n [symmetric])
  next
    fix st assume sc: "?scan = Inr (Some st)"
      and hit: "scan_hit (pmm s) n (unat (mm_end s) * 64) st"
    then obtain x where x: "scan_start st + n \<le> Suc x" "Suc x \<le> unat (mm_end s) * 64"
        "no_fit (pmm s) n x" by (auto simp: scan_hit_def)
    have le: "unat (mm_end s) * 64 \<le> PMM_SIZE * 64" using wf by (simp add: pmm_wf_def)
    obtain ws' where ws': "mark_pages [0..<n] (start_idx st) (start_bit st) (pmm s) = Inr ws'"
        "marks (pmm s) (scan_start st) n ws'"
      using mark_pages_rule [of "pmm s" "start_idx st" "start_bit st" 0 n] x le wf hit
      by (auto simp: scan_start_def pmm_wf_def pmm_ok_def scan_hit_def marks_def)
    have "phys_malloc sz s = Inr (of_nat (scan_start st) * PAGE_SIZE, s\<lparr>pmm := ws'\<rparr>)"
      using sc ws'(1) by (simp add: phys_malloc_def Let_def n [symmetric] scan_start_def)
    moreover have "scan_start st \<le> p'" if "free_run (pmm s) p' (p' + n)" for p'
    proof -
      have "\<not> p' + n \<le> x" using x(3) that by (auto simp: no_fit_def)
      with x(1) show ?thesis by simp
    qed
    moreover have "scan_start st + n \<le> unat (mm_end s) * 64" using x(1,2) by simp
    moreover have "0 < n" and "free_or_full (pmm s) (scan_start st) (scan_start st + n)"
      using hit by (simp_all add: scan_hit_def)
    ultimately show ?thesis using ws'(2) by blast
  qed
qed

lemma pmm_wf_bound: "pmm_wf s \<Longrightarrow> p < unat (mm_end s) * 64 \<Longrightarrow> p < 32768"
  by (auto simp: pmm_wf_def PMM_SIZE_def)

text \<open>A successful call, read off its result.\<close>

lemma phys_malloc_result:
  assumes wf: "pmm_wf s" and res: "phys_malloc sz s = Inr (a, s')" and a: "a \<noteq> 0"
  obtains ws' where "s' = s\<lparr>pmm := ws'\<rparr>"
    and "a = of_nat (page_of a) * PAGE_SIZE" and "0 < alloc_num_pages sz"
    and "page_of a + alloc_num_pages sz \<le> unat (mm_end s) * 64"
    and "free_or_full (pmm s) (page_of a) (page_of a + alloc_num_pages sz)"
    and "marks (pmm s) (page_of a) (alloc_num_pages sz) ws'"
    and "\<And>p'. free_run (pmm s) p' (p' + alloc_num_pages sz) \<Longrightarrow> page_of a \<le> p'"
proof -
  obtain p ws' where *: "a = of_nat p * PAGE_SIZE" "s' = s\<lparr>pmm := ws'\<rparr>"
      "0 < alloc_num_pages sz" "p + alloc_num_pages sz \<le> unat (mm_end s) * 64"
      "free_or_full (pmm s) p (p + alloc_num_pages sz)" "marks (pmm s) p (alloc_num_pages sz) ws'"
      "\<And>p'. free_run (pmm s) p' (p' + alloc_num_pages sz) \<Longrightarrow> p \<le> p'"
    using phys_malloc_cases [OF wf refl, of sz] res a by auto
  moreover have "p < 32768" using * by (intro pmm_wf_bound [OF wf]) simp
  then have "page_of a = p" using page_of_index [of p] by (simp add: *(1))
  ultimately show ?thesis using that by simp
qed

lemma phys_malloc_wf: "pmm_wf s \<Longrightarrow> phys_malloc sz s = Inr (a, s') \<Longrightarrow> pmm_wf s'"
  using phys_malloc_cases [of s "alloc_num_pages sz" sz]
  by (auto simp: pmm_wf_def pmm_ok_def marks_def)


section \<open>What ranges of pages become\<close>

lemma set_range_frame:
  "set_range ub a e bf s = Inr s' \<Longrightarrow> \<exists>ws. s' = s\<lparr>pmm := ws\<rparr> \<and> length ws = length (pmm s)"
proof (induction ub a e bf s rule: set_range.induct)
  case (1 ub a e bf s)
  show ?case
  proof (cases "a < e")
    case False
    with "1.prems" show ?thesis by (auto simp: set_range.simps [of ub a] intro!: exI [of _ "pmm s"])
  next
    case True
    with "1.prems" obtain s1 where s1: "set_phys ub a (bf a) s = Inr s1"
        "set_range ub (a + PAGE_SIZE) e bf s1 = Inr s'"
      by (auto simp: set_range.simps [of ub a] fault_simps)
    from "1.IH" [OF True s1] s1(1) show ?thesis
      by (auto elim!: set_phys_frame)
  qed
qed

lemma aligned_page: "2097152 dvd unat a \<Longrightarrow> unat a = page_of a * 2097152"
  by (simp add: page_of_def)

lemma aligned_page_word: "2097152 dvd unat a \<Longrightarrow> of_nat (page_of a) * PAGE_SIZE = a"
  using unat_lt_64 [of a]
  by (simp add: page_of_def word_unat_eq_iff unat_word_ariths unat_of_nat mod_mult_left_eq)

lemma page_of_next:
  assumes "unat a < 2 ^ 36"
  shows "page_of (a + PAGE_SIZE) = Suc (page_of a)" and "unat (a + PAGE_SIZE) = unat a + 2097152"
  using assms by (simp_all add: page_of_def unat_add_small)

lemma set_range_used:
  assumes "set_range ub a e bf s = Inr s'" and "pmm_ok s" and "2097152 dvd unat a"
    and "\<forall>q. page_of a \<le> q \<and> q * 2097152 < unat e \<longrightarrow> q mod 64 < 31"
  shows "page_used (pmm s') q = (if page_of a \<le> q \<and> q * 2097152 < unat e
           then bf (of_nat q * PAGE_SIZE) \<noteq> 0 else page_used (pmm s) q)"
  using assms
proof (induction ub a e bf s rule: set_range.induct)
  case (1 ub a e bf s)
  note al = aligned_page [OF "1.prems"(3)]
  show ?case
  proof (cases "a < e")
    case False
    then have "\<not> (page_of a \<le> q \<and> q * 2097152 < unat e)"
      using al by (auto simp: word_less_nat_alt dest: mult_le_mono1 [of _ _ 2097152])
    with "1.prems"(1) False show ?thesis by (auto simp: set_range.simps [of ub a])
  next
    case True
    with "1.prems"(1) obtain s1 where s1: "set_phys ub a (bf a) s = Inr s1"
        "set_range ub (a + PAGE_SIZE) e bf s1 = Inr s'"
      by (auto simp: set_range.simps [of ub a] fault_simps)
    note nx = page_of_next [OF set_phys_bound [OF s1(1)]]
    have low: "page_of a mod 64 < 31"
      using "1.prems"(4) True al by (auto simp: word_less_nat_alt)
    have IH: "page_used (pmm s') q = (if Suc (page_of a) \<le> q \<and> q * 2097152 < unat e
           then bf (of_nat q * PAGE_SIZE) \<noteq> 0 else page_used (pmm s1) q)"
      using "1.IH" [OF True s1(1) s1(2) set_phys_ok [OF s1(1) "1.prems"(2)]] "1.prems"(3,4)
      by (simp add: nx)
    have "page_used (pmm s1) q = (if q = page_of a then bf a \<noteq> 0 else page_used (pmm s) q)"
      by (rule set_phys_used_low [OF s1(1) "1.prems"(2) low])
    with IH show ?thesis
      using True al aligned_page_word [OF "1.prems"(3)]
      by (auto simp: word_less_nat_alt)
  qed
qed

text \<open>The size in pages, when a request is not empty, is the size rounded up.\<close>

lemma alloc_num_pages_bounds:
  assumes "0 < alloc_num_pages sz"
  shows "unat sz \<le> alloc_num_pages sz * 2097152" and "alloc_num_pages sz * 2097152 < unat sz + 2097152"
proof -
  let ?t = "unat sz + 2097151"
  have tm: "unat (sz + PAGE_SIZE - 1) = ?t mod 2 ^ 64"
  proof -
    have eq: "sz + PAGE_SIZE - 1 = sz + 2097151" by (simp add: PAGE_SIZE_def)
    show ?thesis unfolding eq by (simp add: unat_word_ariths)
  qed
  have "?t < 2 ^ 64"
  proof (rule ccontr)
    assume "\<not> ?t < 2 ^ 64"
    then have "?t mod 2 ^ 64 = (?t - 2 ^ 64) mod 2 ^ 64"
      by (intro le_mod_geq) simp
    also have "\<dots> \<le> ?t - 2 ^ 64" by (rule mod_less_eq_dividend)
    finally have "?t mod 2 ^ 64 < 2097152"
      using unat_lt_64 [of sz] by linarith
    with assms show False by (simp add: alloc_num_pages_def unat_div tm)
  qed
  then have eq: "alloc_num_pages sz = ?t div 2097152"
    by (simp add: alloc_num_pages_def unat_div tm)
  show "unat sz \<le> alloc_num_pages sz * 2097152" and "alloc_num_pages sz * 2097152 < unat sz + 2097152"
    using div_mult_mod_eq [of ?t 2097152] mod_less_divisor [of 2097152 ?t] unfolding eq by linarith+
qed


section \<open>The state after initialisation\<close>

lemma mark_entries_frame:
  "mark_entries ub es s = Inr s' \<Longrightarrow> \<exists>ws. s' = s\<lparr>pmm := ws\<rparr> \<and> length ws = length (pmm s)"
proof (induction es arbitrary: s)
  case Nil
  then show ?case by (auto intro!: exI [of _ "pmm s"])
next
  case (Cons e es)
  show ?case
  proof (cases "mm_addr e > phys_end s")
    case True
    with Cons.prems show ?thesis by (auto intro!: exI [of _ "pmm s"])
  next
    case False
    with Cons.prems obtain s1 where s1: "mark_entry ub e s = Inr s1" "mark_entries ub es s1 = Inr s'"
      by (auto simp: fault_simps)
    from set_range_frame [OF s1(1) [unfolded mark_entry_def]] Cons.IH [OF s1(2)] show ?thesis
      by auto
  qed
qed

lemma reserve_low_rule:
  assumes "reserve_low ub is s = Inr s'" and "pmm_ok s" and "\<forall>i\<in>set is. i < 31"
  shows "(\<exists>ws. s' = s\<lparr>pmm := ws\<rparr>) \<and> pmm_ok s' \<and>
    (\<forall>q. page_used (pmm s') q \<longleftrightarrow> page_used (pmm s) q \<or> q \<in> set is)"
  using assms
proof (induction "is" arbitrary: s)
  case Nil
  then show ?case by (auto intro!: exI [of _ "pmm s"])
next
  case (Cons i "is")
  then obtain s1 where s1: "set_phys ub (PAGE_SIZE * of_nat i) 1 s = Inr s1"
      "reserve_low ub is s1 = Inr s'"
    by (auto simp: fault_simps)
  have pg: "page_of (PAGE_SIZE * of_nat i) = i"
    using Cons.prems(3) page_of_index [of i] by (simp add: mult.commute)
  have "page_used (pmm s1) q \<longleftrightarrow> page_used (pmm s) q \<or> q = i" for q
    using set_phys_used_low [OF s1(1) Cons.prems(2)] Cons.prems(3) by (simp add: pg)
  moreover have "\<exists>ws. s1 = s\<lparr>pmm := ws\<rparr>" using s1(1) by (auto elim: set_phys_frame)
  ultimately show ?case
    using Cons.IH [OF s1(2) set_phys_ok [OF s1(1) Cons.prems(2)]] Cons.prems(3) by auto
qed

lemma physmem_init_result:
  assumes "physmem_init ub mmaps = Inr (tot, s)"
  shows "pmm_wf s" and "tot = fst (sum_avail mmaps 0 0)" and "mm_end s \<noteq> 0"
    and "\<forall>p<16. page_used (pmm s) p"
    and "mm_end s = (round_up_to_page (snd (sum_avail mmaps 0 0)) div PAGE_SIZE + 64) div 64 - 1"
proof -
  define me where
    "me = (round_up_to_page (snd (sum_avail mmaps 0 0)) div PAGE_SIZE + 64) div 64 - 1"
  define s0 where "s0 = \<lparr>pmm = replicate (unat me) (-1) @ drop (unat me) (replicate PMM_SIZE 0x0101010101010101),
      mb_mmaps = mmaps, mb_size = of_nat (length mmaps), mm_end = me,
      phys_end = round_up_to_page (snd (sum_avail mmaps 0 0)),
      total_avail = fst (sum_avail mmaps 0 0)\<rparr>"
  from assms obtain s1 where le: "unat me \<le> PMM_SIZE"
    and s1: "mark_entries ub mmaps s0 = Inr s1" and s: "reserve_low ub [0..<16] s1 = Inr s"
    and tot: "tot = total_avail s" and gp: "\<exists>v. get_phys 0xfffc0000 s = Inr v"
    by (auto simp: physmem_init_def Let_def case_prod_beta fault_simps me_def s0_def split: if_splits)
  have "pmm_ok s0" using le by (simp add: s0_def pmm_ok_def)
  with mark_entries_frame [OF s1] have ok1: "pmm_ok s1" and f1: "\<exists>ws. s1 = s0\<lparr>pmm := ws\<rparr>"
    by (auto simp: pmm_ok_def)
  from reserve_low_rule [OF s ok1] have r: "\<exists>ws. s = s1\<lparr>pmm := ws\<rparr>" "pmm_ok s"
      "\<forall>q. page_used (pmm s) q \<longleftrightarrow> page_used (pmm s1) q \<or> q < 16"
    by auto
  show "pmm_wf s" "tot = fst (sum_avail mmaps 0 0)"
    "mm_end s = (round_up_to_page (snd (sum_avail mmaps 0 0)) div PAGE_SIZE + 64) div 64 - 1"
    using r(1,2) f1 le tot by (auto simp: pmm_wf_def s0_def me_def)
  show "mm_end s \<noteq> 0" using gp by (auto simp: get_phys_def)
  show "\<forall>p<16. page_used (pmm s) p" using r(3) by simp
qed


lemma set_range_defined:
  "unat e \<le> 2 ^ 36 \<Longrightarrow> \<exists>s'. set_range ub a e bf s = Inr s'"
proof (induction ub a e bf s rule: set_range.induct)
  case (1 ub a e bf s)
  show ?case
  proof (cases "a < e")
    case False
    then show ?thesis by (simp add: set_range.simps [of ub a])
  next
    case True
    with "1.prems" have "unat a < 2 ^ 36" by (simp add: word_less_nat_alt)
    then have "page_of a < 32768" by (simp add: page_of_def)
    then obtain s1 where "set_phys ub a (bf a) s = Inr s1"
      using set_phys_defined by blast
    with "1.IH" [OF True this] "1.prems" True show ?thesis
      by (simp add: set_range.simps [of ub a])
  qed
qed

definition map_fits :: "mmap_entry list \<Rightarrow> bool" where
  "map_fits mmaps \<longleftrightarrow> (\<forall>e\<in>set mmaps. unat (mm_addr e) + unat (mm_len e) \<le> 2 ^ 36)"

lemma round_up_bound: "unat a \<le> 2 ^ 36 \<Longrightarrow> unat (round_up_to_page a) \<le> 2 ^ 36"
  by (simp add: unat_round_up_to_page)

lemma map_fits_end:
  "map_fits mmaps \<Longrightarrow> e \<in> set mmaps \<Longrightarrow> unat (mm_addr e + mm_len e) \<le> 2 ^ 36"
  by (auto simp: map_fits_def unat_add_small)

lemma mark_entries_defined:
  "map_fits es \<Longrightarrow> \<exists>s'. mark_entries ub es s = Inr s'"
proof (induction es arbitrary: s)
  case Nil
  then show ?case by simp
next
  case (Cons e es)
  have "unat (round_up_to_page (mm_addr e + mm_len e)) \<le> 2 ^ 36"
    using map_fits_end [OF Cons.prems, of e] by (intro round_up_bound) simp
  then obtain s1 where "mark_entry ub e s = Inr s1"
    unfolding mark_entry_def using set_range_defined by blast
  moreover obtain s2 where "mark_entries ub es s1 = Inr s2"
    using Cons by (auto simp: map_fits_def)
  ultimately show ?case by simp
qed

lemma reserve_low_defined: "\<forall>i\<in>set is. i < 31 \<Longrightarrow> \<exists>s'. reserve_low ub is s = Inr s'"
proof (induction "is" arbitrary: s)
  case Nil
  then show ?case by simp
next
  case (Cons i "is")
  then have "page_of (PAGE_SIZE * of_nat i) = i"
    using page_of_index [of i] by (simp add: mult.commute)
  with Cons.prems obtain s1 where "set_phys ub (PAGE_SIZE * of_nat i) 1 s = Inr s1"
    using set_phys_defined [of "PAGE_SIZE * of_nat i" ub 1 s] by auto
  with Cons show ?case by simp
qed

lemma sum_avail_bound:
  "map_fits es \<Longrightarrow> unat h \<le> 2 ^ 36 \<Longrightarrow> unat (snd (sum_avail es t h)) \<le> 2 ^ 36"
  by (induction es arbitrary: t h) (auto simp: map_fits_def unat_add_small)

lemma mm_end_value:
  assumes "unat h \<le> 2 ^ 36"
  shows "unat ((round_up_to_page h div PAGE_SIZE + 64) div 64 - 1) = (unat h + 2097151) div 2097152 div 64"
proof -
  let ?p = "(unat h + 2097151) div 2097152"
  have p: "?p \<le> 32768" using assms by simp
  have "unat (round_up_to_page h div PAGE_SIZE) = ?p"
    using assms by (simp add: unat_div unat_round_up_to_page)
  then have "unat (round_up_to_page h div PAGE_SIZE + 64) = ?p + 64"
    using p by (subst unat_add_small) simp_all
  then have "unat ((round_up_to_page h div PAGE_SIZE + 64) div 64) = Suc (?p div 64)"
    by (simp add: unat_div)
  then show ?thesis by (simp add: unat_sub_if')
qed

section \<open>Properties\<close>


lemma phys_malloc_takes_first:
  assumes "pmm_wf s" and "0 < alloc_num_pages sz"
    and "p + alloc_num_pages sz \<le> unat (mm_end s) * 64"
    and "\<forall>q. p \<le> q \<and> q < p + alloc_num_pages sz \<longrightarrow> \<not> page_used (pmm s) q"
  shows "\<exists>f s'. phys_malloc sz s = Inr (of_nat f * PAGE_SIZE, s') \<and> mm_end s' = mm_end s \<and> f \<le> p \<and>
    \<not> page_used (pmm s) f \<and>
    (\<forall>q. page_used (pmm s') q \<longleftrightarrow> page_used (pmm s) q \<or> f \<le> q \<and> q < f + alloc_num_pages sz)"
proof -
  have fr: "free_run (pmm s) p (p + alloc_num_pages sz)"
    using assms(4) by (simp add: free_run_def)
  then have "\<not> no_fit (pmm s) (alloc_num_pages sz) (unat (mm_end s) * 64)"
    using assms(3) by (auto simp: no_fit_def)
  with phys_malloc_cases [OF assms(1) refl, of sz] assms(2) obtain f ws'
    where f: "phys_malloc sz s = Inr (of_nat f * PAGE_SIZE, s\<lparr>pmm := ws'\<rparr>)"
      "free_or_full (pmm s) f (f + alloc_num_pages sz)" "marks (pmm s) f (alloc_num_pages sz) ws'"
      "\<forall>p'. free_run (pmm s) p' (p' + alloc_num_pages sz) \<longrightarrow> f \<le> p'"
    by auto
  with assms(2) fr show ?thesis
    by (intro exI [of _ f] exI [of _ "s\<lparr>pmm := ws'\<rparr>"]) (auto simp: marks_def free_or_full_def)
qed

text \<open>
  C15. Completeness and first fit. When a run of free pages large enough for a request lies
  below \<open>mm_end\<close>, \<open>phys_malloc\<close> returns, marks as many pages as the request needs, and
  the page it starts at is free and not above the start of any free run that fits.
\<close>

theorem phys_malloc_first_fit:
  assumes "pmm_wf s" and "0 < alloc_num_pages sz"
    and "p + alloc_num_pages sz \<le> unat (mm_end s) * 64"
    and "\<forall>q. p \<le> q \<and> q < p + alloc_num_pages sz \<longrightarrow> \<not> page_used (pmm s) q"
  shows "\<exists>f s'. phys_malloc sz s = Inr (of_nat f * PAGE_SIZE, s') \<and> f \<le> p \<and>
    \<not> page_used (pmm s) f \<and>
    (\<forall>q. page_used (pmm s') q \<longleftrightarrow> page_used (pmm s) q \<or> f \<le> q \<and> q < f + alloc_num_pages sz)"
  using phys_malloc_takes_first [OF assms] by blast



text \<open>Several allocations in a row.\<close>

fun phys_malloc_seq :: "u64 list \<Rightarrow> physmem \<Rightarrow> (u64 list \<times> physmem) res" where
  "phys_malloc_seq [] s = Inr ([], s)"
| "phys_malloc_seq (sz # szs) s =
     bindE (phys_malloc sz s) (\<lambda>(a, s1).
     bindE (phys_malloc_seq szs s1) (\<lambda>(as, s2). Inr (a # as, s2)))"

lemma phys_malloc_seq_rule:
  assumes "phys_malloc_seq szs s = Inr (as, s')" and "pmm_wf s"
  shows "pmm_wf s' \<and> (\<forall>q. page_used (pmm s) q \<longrightarrow> page_used (pmm s') q) \<and>
    (\<forall>a\<in>set as. a \<noteq> 0 \<longrightarrow> \<not> page_used (pmm s) (page_of a)) \<and>
    distinct (filter (\<lambda>a. a \<noteq> 0) as)"
  using assms
proof (induction szs arbitrary: s as)
  case Nil
  then show ?case by simp
next
  case (Cons sz szs)
  from Cons.prems(1) obtain a s1 as1 where st: "phys_malloc sz s = Inr (a, s1)"
      "phys_malloc_seq szs s1 = Inr (as1, s')" "as = a # as1"
    by (auto simp: fault_simps)
  from Cons.IH [OF st(2) phys_malloc_wf [OF Cons.prems(2) st(1)]]
  have IH: "pmm_wf s'" "\<forall>q. page_used (pmm s1) q \<longrightarrow> page_used (pmm s') q"
    "\<forall>a\<in>set as1. a \<noteq> 0 \<longrightarrow> \<not> page_used (pmm s1) (page_of a)"
    "distinct (filter (\<lambda>a. a \<noteq> 0) as1)" by simp_all
  have mono: "page_used (pmm s1) q" if "page_used (pmm s) q" for q
    using phys_malloc_cases [OF Cons.prems(2) refl, of sz] st(1) that by (auto simp: marks_def)
  have new: "\<not> page_used (pmm s) (page_of a) \<and> page_used (pmm s1) (page_of a)" if "a \<noteq> 0"
  proof (rule phys_malloc_result [OF Cons.prems(2) st(1) that], goal_cases)
    case 1
    then show ?case by (auto simp: free_or_full_def marks_def)
  qed
  show ?case using IH mono new st(3) by auto
qed

text \<open>
  C10. After a successful \<open>physmem_init\<close> no sequence of \<open>phys_malloc\<close> calls returns one of
  the first 16 pages (32 MiB: the kernel image and the low memory), nor the same start page
  twice; the bitmap stays well formed, and a page once used stays used.
\<close>
theorem phys_malloc_after_init:
  assumes "physmem_init ub mmaps = Inr (tot, s)" and "phys_malloc_seq szs s = Inr (as, s')"
  shows "(\<forall>a\<in>set as. a \<noteq> 0 \<longrightarrow> 16 \<le> page_of a) \<and> distinct (filter (\<lambda>a. a \<noteq> 0) as) \<and>
    (\<forall>p<16. page_used (pmm s') p) \<and> pmm_wf s'"
proof -
  have i: "pmm_wf s" "\<forall>p<16. page_used (pmm s) p"
    using physmem_init_result [OF assms(1)] by auto
  note r = phys_malloc_seq_rule [OF assms(2) i(1)]
  have "16 \<le> page_of a" if "a \<in> set as" "a \<noteq> 0" for a
    using r i(2) that by (metis not_le)
  with r i(2) show ?thesis by blast
qed

lemma physmem_init_defined:
  assumes "map_fits mmaps" and "134217728 \<le> unat (snd (sum_avail mmaps 0 0))"
  shows "\<exists>s. physmem_init ub mmaps = Inr (fst (sum_avail mmaps 0 0), s) \<and> pmm_wf s \<and>
    unat (mm_end s) = (unat (snd (sum_avail mmaps 0 0)) + 2097151) div 2097152 div 64"
proof -
  let ?h = "snd (sum_avail mmaps 0 0)"
  let ?me = "(round_up_to_page ?h div PAGE_SIZE + 64) div 64 - 1"
  have h: "unat ?h \<le> 2 ^ 36" using assms(1) by (intro sum_avail_bound) simp_all
  note me = mm_end_value [OF h]
  have le: "unat ?me \<le> PMM_SIZE" using h unfolding me PMM_SIZE_def by simp
  have ne: "?me \<noteq> 0" using assms(2) me by (auto simp: word_unat_eq_iff)
  define s0 where "s0 = \<lparr>pmm = replicate (unat ?me) (-1) @ drop (unat ?me) (replicate PMM_SIZE 0x0101010101010101),
      mb_mmaps = mmaps, mb_size = of_nat (length mmaps), mm_end = ?me,
      phys_end = round_up_to_page ?h, total_avail = fst (sum_avail mmaps 0 0)\<rparr>"
  obtain s1 where s1: "mark_entries ub mmaps s0 = Inr s1"
    using mark_entries_defined [OF assms(1)] by blast
  obtain s2 where s2: "reserve_low ub [0..<16] s1 = Inr s2"
    using reserve_low_defined [of "[0..<16]" ub s1] by auto
  have ok: "pmm_ok s1" and f1: "\<exists>ws. s1 = s0\<lparr>pmm := ws\<rparr>"
    using mark_entries_frame [OF s1] le by (auto simp: pmm_ok_def s0_def)
  have f2: "\<exists>ws. s2 = s0\<lparr>pmm := ws\<rparr>" and ok2: "pmm_ok s2"
    using reserve_low_rule [OF s2 ok] f1 by auto
  have "mm_end s2 = ?me" and tot: "total_avail s2 = fst (sum_avail mmaps 0 0)"
    using f2 by (auto simp: s0_def)
  moreover have "\<exists>v. get_phys a s2 = Inr v" if "page_of a < 32768" for a
    using get_phys_used [OF that] ne calculation by auto
  then have "\<exists>v. get_phys 0xfffc0000 s2 = Inr v" "\<exists>v. get_phys (0x100000000 + PAGE_SIZE) s2 = Inr v"
      "\<exists>v. get_phys 0x100000000 s2 = Inr v" "\<exists>v. get_phys (0xbffe0000 - PAGE_SIZE) s2 = Inr v"
    by (simp_all add: page_of_def PAGE_SIZE_def)
  ultimately have "physmem_init ub mmaps = Inr (fst (sum_avail mmaps 0 0), s2)"
    using le s1 s2 by (auto simp: physmem_init_def Let_def case_prod_beta s0_def)
  with ok2 le me \<open>mm_end s2 = ?me\<close> show ?thesis by (auto simp: pmm_wf_def)
qed



text \<open>
  The mask of \<open>set_phys\<close> for the upper half of a bitmap word. For a page whose bit is 31
  or above and a word of free pages, marking the page used never gives the bitmap in which
  exactly this page has become used, whatever value the shift of the \<open>int\<close> has.
\<close>

theorem set_phys_upper_half:
  assumes "pmm_wf s" and "31 \<le> page_of a mod 64" and "b \<noteq> 0"
    and "pmm s ! (page_of a div 64) = 0" and "set_phys ub a b s = Inr s'"
  shows "\<exists>q. page_used (pmm s') q \<noteq> (page_used (pmm s) q \<or> q = page_of a)"
proof (rule ccontr)
  assume "\<not> ?thesis"
  then have eq: "page_used (pmm s') q \<longleftrightarrow> page_used (pmm s) q \<or> q = page_of a" for q by simp
  let ?i = "page_of a div 64" and ?n = "page_of a mod 64"
  have "set_phys_mask ub ?n = push_bit ?n 1"
  proof (rule bit_word_eqI)
    fix k assume "k < LENGTH(64)"
    then have k: "k < 64" by simp
    let ?q = "?i * 64 + k"
    have "page_used (pmm s) ?q = False" and q: "?q div 64 = ?i" "?q mod 64 = k"
      using k assms(4) by (simp_all add: page_used_def)
    moreover have "?q = page_of a \<longleftrightarrow> k = ?n"
      unfolding page_eq_iff [of ?q] q by simp
    ultimately have "bit (set_phys_mask ub ?n) k \<longleftrightarrow> k = ?n"
      using eq [of ?q] set_phys_used [OF assms(5), of ?q] assms(1,3) by (simp add: pmm_wf_def)
    then show "bit (set_phys_mask ub ?n) k = bit (push_bit ?n 1 :: u64) k"
      by (simp add: bit_push_bit_1 del: push_bit_of_1)
  qed
  with set_phys_mask_high [OF assms(2)] show False by simp
qed

lemma scan_words_skip:
  "(\<And>j. k \<le> j \<Longrightarrow> j < i \<Longrightarrow> ws ! j = -1) \<Longrightarrow> k \<le> i \<Longrightarrow> i \<le> mmend \<Longrightarrow> mmend \<le> PMM_SIZE \<Longrightarrow>
     scan_words ws mmend n k st = scan_words ws mmend n i st"
proof (induction "i - k" arbitrary: k)
  case 0
  then show ?case by simp
next
  case (Suc d)
  then have "k < i" "d = i - Suc k" by simp_all
  moreover from this Suc.prems have "scan_words ws mmend n k st = scan_words ws mmend n (Suc k) st"
    by (subst scan_words.simps) simp
  ultimately show ?case using Suc.hyps(1) [of "Suc k"] Suc.prems by simp
qed

lemma run_reset [simp]: "run st = 0 \<Longrightarrow> st\<lparr>run := 0\<rparr> = st" for st :: scan
  by (cases st) simp

lemma scan_bits_skip:
  "(\<And>b. k \<le> b \<Longrightarrow> b < j \<Longrightarrow> bit w b) \<Longrightarrow> k \<le> j \<Longrightarrow> j \<le> 64 \<Longrightarrow> run st = 0 \<Longrightarrow>
     scan_bits w n idx k st = scan_bits w n idx j st"
proof (induction "j - k" arbitrary: k)
  case 0
  then show ?case by simp
next
  case (Suc d)
  then have "k < j" "d = j - Suc k" by simp_all
  moreover from this Suc.prems have "scan_bits w n idx k st = scan_bits w n idx (Suc k) st"
    by (simp add: scan_bits_used)
  ultimately show ?case using Suc.hyps(1) [of "Suc k"] Suc.prems by simp
qed

text \<open>
  C37. Double allocation. When the first free page is the last of its bitmap word, the next
  word is completely used and the word after it starts with a free page, a request for two
  pages returns the last page of the first word although the page after it is in use: the
  skip of full words does not reset the count.
\<close>

theorem phys_malloc_spans_full_word:
  assumes wf: "pmm_wf s" and i: "i + 2 < unat (mm_end s)" and two: "alloc_num_pages sz = 2"
    and before: "\<forall>j<i. pmm s ! j = -1" and last: "pmm s ! i = 0x7FFFFFFFFFFFFFFF"
    and full: "pmm s ! (i + 1) = -1" and after: "\<not> bit (pmm s ! (i + 2)) 0"
  shows "\<exists>s'. phys_malloc sz s = Inr (of_nat (64 * i + 63) * PAGE_SIZE, s') \<and>
    page_used (pmm s) (64 * i + 64)"
proof -
  define ws e where "ws = pmm s" and "e = unat (mm_end s)"
  define st st1 where "st = \<lparr>run = 0, start_idx = 0, start_bit = 0\<rparr>"
    and "st1 = \<lparr>run = 1, start_idx = i, start_bit = 63\<rparr>"
  note loc = ws_def [symmetric] e_def [symmetric] st_def [symmetric]
  have eP: "e \<le> PMM_SIZE" using wf by (simp add: pmm_wf_def e_def)
  have b: "bit (ws ! i) b \<longleftrightarrow> b \<noteq> 63" if "b < 64" for b
  proof -
    have "ws ! i = mask 63" using last by (simp add: ws_def mask_eq_exp_minus_1)
    then show ?thesis using that by (auto simp: bit_simps)
  qed
  have ne: "ws ! i \<noteq> -1" using b [of 63] by auto
  have "scan_bits (ws ! i) 2 i 0 st = scan_bits (ws ! i) 2 i 63 st"
    by (rule scan_bits_skip) (simp_all add: b st_def)
  also have "\<dots> = Go_on st1"
    by (simp add: scan_bits_free scan_bits_end b scan_bump_def st_def st1_def)
  finally have w1: "scan_bits (ws ! i) 2 i 0 st = Go_on st1" .
  have ne2: "ws ! (i + 2) \<noteq> -1" using after by (auto simp: ws_def)
  have w3: "scan_bits (ws ! (i + 2)) 2 (i + 2) 0 st1 = Found (st1\<lparr>run := 2\<rparr>)"
    using after by (simp add: scan_bits_free ws_def scan_bump_def st1_def)
  have "scan_words ws e 2 0 st = scan_words ws e 2 i st"
    using before i eP by (intro scan_words_skip) (simp_all add: loc)
  also have "\<dots> = scan_words ws e 2 (i + 1) st1"
    using i eP ne w1 by (subst scan_words.simps) (simp add: e_def)
  also have "\<dots> = scan_words ws e 2 (i + 2) st1"
    using i eP full by (subst scan_words.simps) (simp add: loc)
  also have "\<dots> = Inr (Some (st1\<lparr>run := 2\<rparr>))"
    using i eP ne2 w3 by (subst scan_words.simps) (simp add: e_def)
  finally have sc: "scan_words ws e 2 0 st = Inr (Some (st1\<lparr>run := 2\<rparr>))" .
  have "length ws = PMM_SIZE" and "i * 64 + 63 + 0 + 2 \<le> PMM_SIZE * 64"
    using wf i eP by (simp_all add: pmm_wf_def pmm_ok_def loc)
  from mark_pages_rule [OF this] obtain ws' where "mark_pages [0..<0 + 2] i 63 ws = Inr ws'"
    by fastforce
  then have m: "mark_pages [0..<2] i 63 ws = Inr ws'" by (simp only: add_0)
  have "phys_malloc sz s = Inr (of_nat (start_idx st1 * 64 + start_bit st1) * PAGE_SIZE, s\<lparr>pmm := ws'\<rparr>)"
    unfolding phys_malloc_def Let_def two loc sc bindE_simps option.case
    by (simp add: m st1_def del: upt.simps mark_pages.simps)
  then have "\<exists>s'. phys_malloc sz s = Inr (of_nat (64 * i + 63) * PAGE_SIZE, s')"
    by (simp add: st1_def mult.commute)
  moreover have "page_used (pmm s) (64 * i + 64)"
    using full by (intro full_word_used [of _ "i + 1"]) simp_all
  ultimately show ?thesis by blast
qed

text \<open>
  On a machine whose highest available address is at most 126 MiB (after rounding below
  128 MiB) initialisation never returns: \<open>mm_end\<close> becomes 0, and the \<open>get_phys\<close> calls of its
  debug line divide by it.
\<close>

theorem physmem_init_small_memory:
  assumes "map_fits mmaps" and "unat (snd (sum_avail mmaps 0 0)) \<le> 132120576"
  shows "physmem_init ub mmaps = Inl Div_zero"
proof -
  let ?h = "snd (sum_avail mmaps 0 0)"
  let ?me = "(round_up_to_page ?h div PAGE_SIZE + 64) div 64 - 1"
  have "unat ?h \<le> 2 ^ 36" using assms(2) by simp
  from mm_end_value [OF this] have me: "?me = 0"
    using assms(2) by (simp add: word_unat_eq_iff)
  define s0 where "s0 = \<lparr>pmm = replicate (unat ?me) (-1) @ drop (unat ?me) (replicate PMM_SIZE 0x0101010101010101),
      mb_mmaps = mmaps, mb_size = of_nat (length mmaps), mm_end = ?me,
      phys_end = round_up_to_page ?h, total_avail = fst (sum_avail mmaps 0 0)\<rparr>"
  obtain s1 where s1: "mark_entries ub mmaps s0 = Inr s1"
    using mark_entries_defined [OF assms(1)] by blast
  obtain s2 where s2: "reserve_low ub [0..<16] s1 = Inr s2"
    using reserve_low_defined [of "[0..<16]" ub s1] by auto
  have f1: "\<exists>ws. s1 = s0\<lparr>pmm := ws\<rparr>" and ok1: "pmm_ok s1"
    using mark_entries_frame [OF s1] by (auto simp: pmm_ok_def s0_def me)
  have "mm_end s2 = 0" using reserve_low_rule [OF s2 ok1] f1 by (auto simp: s0_def me)
  then have "get_phys 0xfffc0000 s2 = Inl Div_zero" by (simp add: get_phys_def)
  with s1 s2 me show ?thesis
    by (simp add: physmem_init_def Let_def case_prod_beta s0_def)
qed


section \<open>Memory with low pages free\<close>

text \<open>The bitmap the start of the kernel needs: the first 16 of the pages of two words are used.\<close>

definition low_free :: "physmem \<Rightarrow> bool" where
  "low_free s \<longleftrightarrow> pmm_wf s \<and> 2 \<le> unat (mm_end s) \<and> (\<forall>q<128. page_used (pmm s) q \<longleftrightarrow> q < 16)"

lemma alloc_requests: "alloc_num_pages (PAGE_SIZE * 64) = 64" "alloc_num_pages PAGE_SIZE = 1"
  by (simp_all add: alloc_num_pages_def PAGE_SIZE_def unat_div)

lemma low_alloc_first:
  assumes "low_free s"
  obtains ph where "phys_malloc (PAGE_SIZE * 64) s = Inr (of_nat 16 * PAGE_SIZE, ph)" "mm_end ph = mm_end s"
    "\<And>q. q < 128 \<Longrightarrow> page_used (pmm ph) q \<longleftrightarrow> q < 80"
proof -
  have s: "pmm_wf s" "2 \<le> unat (mm_end s)" "\<And>q. q < 128 \<Longrightarrow> page_used (pmm s) q \<longleftrightarrow> q < 16"
    using assms by (simp_all add: low_free_def)
  have "\<forall>q. 16 \<le> q \<and> q < 16 + 64 \<longrightarrow> \<not> page_used (pmm s) q" using s(3) by simp
  moreover have "16 + 64 \<le> unat (mm_end s) * 64" "0 < (64 :: nat)" using s(2) by simp_all
  ultimately obtain f ph where f: "phys_malloc (PAGE_SIZE * 64) s = Inr (of_nat f * PAGE_SIZE, ph)"
    "mm_end ph = mm_end s" "f \<le> 16" "\<not> page_used (pmm s) f"
    "\<forall>q. page_used (pmm ph) q \<longleftrightarrow> page_used (pmm s) q \<or> f \<le> q \<and> q < f + 64"
    using phys_malloc_takes_first [OF s(1), of "PAGE_SIZE * 64" 16, unfolded alloc_requests] by blast
  have "\<not> f < 16" using f(3,4) s(3) [of f] by linarith
  then have f16: "f = 16" using f(3) by linarith
  show ?thesis
  proof (rule that [OF f(1) [unfolded f16] f(2)])
    fix q :: nat assume "q < 128"
    from s(3) [OF this] f(5) [rule_format, of q] f16
    show "page_used (pmm ph) q \<longleftrightarrow> q < 80" by linarith
  qed
qed

lemma low_alloc:
  assumes "low_free s"
  shows "\<exists>ph ph1. phys_malloc (PAGE_SIZE * 64) s = Inr (0x2000000, ph) \<and>
     phys_malloc PAGE_SIZE ph = Inr (0xA000000, ph1)"
proof -
  obtain ph where ph: "phys_malloc (PAGE_SIZE * 64) s = Inr (of_nat 16 * PAGE_SIZE, ph)" "mm_end ph = mm_end s"
    and used: "\<And>q. q < 128 \<Longrightarrow> page_used (pmm ph) q \<longleftrightarrow> q < 80"
    by (rule low_alloc_first [OF assms]) blast
  have s: "pmm_wf s" "2 \<le> unat (mm_end s)" using assms by (simp_all add: low_free_def)
  have wf: "pmm_wf ph" by (rule phys_malloc_wf [OF s(1) ph(1)])
  have free: "\<forall>q. 80 \<le> q \<and> q < 80 + 1 \<longrightarrow> \<not> page_used (pmm ph) q" using used by simp
  have "0 < (1 :: nat)" "80 + 1 \<le> unat (mm_end ph) * 64" using s(2) ph(2) by simp_all
  from phys_malloc_takes_first [OF wf, of PAGE_SIZE 80, unfolded alloc_requests, OF this free]
  obtain g ph1 where g: "phys_malloc PAGE_SIZE ph = Inr (of_nat g * PAGE_SIZE, ph1)" "g \<le> 80"
    "\<not> page_used (pmm ph) g" by (elim exE conjE)
  have "\<not> g < 80" using g(2,3) used [of g] by linarith
  then have "g = 80" using g(2) by linarith
  moreover have "of_nat 16 * PAGE_SIZE = 0x2000000" "of_nat 80 * PAGE_SIZE = 0xA000000" by (simp_all add: PAGE_SIZE_def)
  ultimately show ?thesis using ph(1) g(1) by metis
qed

section \<open>Witnesses\<close>

definition demo_pmm :: physmem where
  "demo_pmm = \<lparr>pmm = 0xFFFF # replicate 511 0, mb_mmaps = [], mb_size = 0, mm_end = 8,
     phys_end = 0x40000000, total_avail = 0x40000000\<rparr>"

definition demo_map :: "mmap_entry list" where
  "demo_map = [\<lparr>mm_addr = 0, mm_len = 0xA0000, mm_type = 1\<rparr>,
     \<lparr>mm_addr = 0x100000, mm_len = 0x3FF00000, mm_type = 1\<rparr>,
     \<lparr>mm_addr = 0x40000000, mm_len = 0x1000, mm_type = 2\<rparr>]"

text \<open>The x86 shifts a 32-bit register by the count modulo 32.\<close>

definition x86_shl :: int_shl where "x86_shl n = push_bit (n mod 32) 1"

lemma demo_pmm_wf: "pmm_wf demo_pmm"
  by (simp add: demo_pmm_def pmm_wf_def pmm_ok_def PMM_SIZE_def)

lemma demo_alloc: "map_sum id fst (phys_malloc 0x400000 demo_pmm) = Inr 0x2000000"
  by code_simp

lemma demo_alloc_result: "\<exists>s'. phys_malloc 0x400000 demo_pmm = Inr (0x2000000, s')"
  using demo_alloc by (cases "phys_malloc 0x400000 demo_pmm") auto

lemma demo_pages: "alloc_num_pages 0x400000 = 2" "page_of 0x2000000 = 16"
  by (simp_all add: alloc_num_pages_def page_of_def PAGE_SIZE_def unat_div)

lemma demo_not_full:
  "\<forall>q. page_of 0x2000000 \<le> q \<and> q < page_of 0x2000000 + alloc_num_pages 0x400000 \<longrightarrow>
     pmm demo_pmm ! (q div 64) \<noteq> -1"
  by (auto simp: demo_pages demo_pmm_def)

lemma demo_free: "16 \<le> q \<Longrightarrow> q < 64 \<Longrightarrow> \<not> page_used (pmm demo_pmm) q"
proof -
  assume q: "16 \<le> q" "q < 64"
  have "(0xFFFF :: u64) = mask 16" by (simp add: mask_eq_exp_minus_1)
  then have "bit (0xFFFF :: u64) q = bit (mask 16 :: u64) q" by (rule arg_cong)
  also have "\<dots> = False" using q(1) by (simp only: bit_mask_iff) simp
  finally have "\<not> bit (0xFFFF :: u64) q" by simp
  with q show ?thesis by (simp add: demo_pmm_def page_used_def)
qed

lemma demo_map_fits: "map_fits demo_map" "unat (snd (sum_avail demo_map 0 0)) = 1073741824"
  by (simp_all add: map_fits_def demo_map_def MULTIBOOT_MEMORY_AVAILABLE_def)

lemma demo_used: "page_used (pmm demo_pmm) q \<longleftrightarrow> q < 16" if "q < 512"
proof -
  consider "q < 16" | "16 \<le> q" "q < 64" | "64 \<le> q" by linarith
  then show ?thesis
  proof cases
    case 1
    have "(0xFFFF :: u64) = mask 16" by (simp add: mask_eq_exp_minus_1)
    then have "bit (0xFFFF :: u64) q = bit (mask 16 :: u64) q" by (rule arg_cong)
    also have "\<dots> = True" using 1 by (simp only: bit_mask_iff) simp
    finally show ?thesis using 1 by (simp add: demo_pmm_def page_used_def)
  next
    case 2
    then show ?thesis using demo_free by simp
  next
    case 3
    then have "pmm demo_pmm ! (q div 64) = 0" using that by (simp add: demo_pmm_def nth_Cons' nth_replicate)
    then show ?thesis using 3 by (simp add: page_used_def)
  qed
qed

text \<open>The 64 pages of a framebuffer, and the page after them.\<close>

lemma demo_alloc_pages:
  "\<exists>ph ph1. phys_malloc (PAGE_SIZE * 64) demo_pmm = Inr (0x2000000, ph) \<and>
     phys_malloc PAGE_SIZE ph = Inr (0xA000000, ph1)"
proof (rule low_alloc)
  show "low_free demo_pmm" unfolding low_free_def using demo_pmm_wf demo_used by (simp add: demo_pmm_def)
qed


theorem phys_malloc_first_fit_witness:
  "\<exists>f s'. phys_malloc 0x400000 demo_pmm = Inr (of_nat f * PAGE_SIZE, s') \<and> f \<le> 20"
proof -
  have "20 + alloc_num_pages 0x400000 \<le> unat (mm_end demo_pmm) * 64"
    by (simp add: demo_pages demo_pmm_def)
  moreover have "\<forall>q. 20 \<le> q \<and> q < 20 + alloc_num_pages 0x400000 \<longrightarrow> \<not> page_used (pmm demo_pmm) q"
    using demo_free by (simp add: demo_pages)
  moreover have "0 < alloc_num_pages 0x400000" by (simp add: demo_pages)
  ultimately show ?thesis using phys_malloc_first_fit [OF demo_pmm_wf] by blast
qed


theorem phys_malloc_after_init_witness:
  "\<exists>s as s'. physmem_init x86_shl demo_map = Inr (fst (sum_avail demo_map 0 0), s) \<and>
     phys_malloc_seq [0x200000, 0x200000] s = Inr (as, s') \<and> (\<forall>a\<in>set as. a \<noteq> 0 \<longrightarrow> 16 \<le> page_of a)"
proof -
  obtain s where s: "physmem_init x86_shl demo_map = Inr (fst (sum_avail demo_map 0 0), s)" "pmm_wf s"
    using physmem_init_defined [of demo_map x86_shl] demo_map_fits by auto
  have def: "\<exists>a s'. phys_malloc sz t = Inr (a, s') \<and> pmm_wf s'" if "pmm_wf t" for sz t
    using phys_malloc_cases [OF that refl, of sz] phys_malloc_wf [OF that, of sz] by blast
  obtain a1 s1 where 1: "phys_malloc 0x200000 s = Inr (a1, s1)" "pmm_wf s1" using def [OF s(2)] by blast
  obtain a2 s2 where 2: "phys_malloc 0x200000 s1 = Inr (a2, s2)" using def [OF 1(2)] by blast
  have "phys_malloc_seq [0x200000, 0x200000] s = Inr ([a1, a2], s2)" using 1 2 by simp
  with phys_malloc_after_init [OF s(1) this] s(1) show ?thesis by blast
qed


theorem set_phys_upper_half_witness:
  "\<exists>s'. set_phys x86_shl (0x200000 * 104) 1 demo_pmm = Inr s' \<and>
     (\<exists>q. page_used (pmm s') q \<noteq> (page_used (pmm demo_pmm) q \<or> q = 104))"
proof -
  have pg: "page_of (0x200000 * 104) = 104" by (simp add: page_of_def)
  obtain s' where s': "set_phys x86_shl (0x200000 * 104) 1 demo_pmm = Inr s'"
    using set_phys_defined [of "0x200000 * 104" x86_shl 1 demo_pmm] pg by auto
  have "pmm demo_pmm ! (104 div 64) = 0" by (simp add: demo_pmm_def)
  with set_phys_upper_half [OF demo_pmm_wf _ _ _ s', unfolded pg] s' show ?thesis by auto
qed

theorem phys_malloc_spans_full_word_witness:
  "\<exists>s'. phys_malloc 0x400000 (demo_pmm\<lparr>pmm := 0x7FFFFFFFFFFFFFFF # -1 # replicate 510 0\<rparr>) =
     Inr (0x7E00000, s')"
  using phys_malloc_spans_full_word
    [of "demo_pmm\<lparr>pmm := 0x7FFFFFFFFFFFFFFF # -1 # replicate 510 0\<rparr>" 0 "0x400000"]
  by (simp add: demo_pages(1)) (simp add: demo_pmm_def pmm_wf_def pmm_ok_def PMM_SIZE_def PAGE_SIZE_def)

theorem physmem_init_small_memory_witness:
  "physmem_init x86_shl [\<lparr>mm_addr = 0x100000, mm_len = 0x3F00000, mm_type = 1\<rparr>] = Inl Div_zero"
  by (rule physmem_init_small_memory)
     (simp_all add: map_fits_def MULTIBOOT_MEMORY_AVAILABLE_def)

end
