(* ===== verification/PhysReach.thy ===== *)
theory PhysReach
  imports PhysMem
begin

text \<open>
  Every state the page allocator of \<^verbatim>\<open>src/kernel/mem/physmem.c\<close> can reach, in any order of allocation,
  release and marking of regions: the bitmap keeps its size and its end, and no request faults.
\<close>

section \<open>Reachable states\<close>

inductive pmm_reach :: "int_shl \<Rightarrow> physmem \<Rightarrow> bool" for ub where
  init: "physmem_init ub mmaps = Inr (tot, s) \<Longrightarrow> pmm_reach ub s"
| malloc: "pmm_reach ub s \<Longrightarrow> phys_malloc sz s = Inr (a, s') \<Longrightarrow> pmm_reach ub s'"
| release: "pmm_reach ub s \<Longrightarrow> phys_free ub a sz s = Inr s' \<Longrightarrow> pmm_reach ub s'"
| mark: "pmm_reach ub s \<Longrightarrow> physmem_markregion ub a e b s = Inr s' \<Longrightarrow> pmm_reach ub s'"

lemma set_range_wf:
  assumes "set_range ub a e bf s = Inr s'" "pmm_wf s"
  shows "pmm_wf s'" "mm_end s' = mm_end s"
  using set_range_frame [OF assms(1)] assms(2) by (auto simp: pmm_wf_def pmm_ok_def)

lemma pmm_reach_wf: "pmm_reach ub s \<Longrightarrow> pmm_wf s \<and> mm_end s \<noteq> 0"
proof (induction rule: pmm_reach.induct)
  case (init mmaps tot s)
  then show ?case using physmem_init_result by blast
next
  case (malloc s sz a s')
  then have "mm_end s' = mm_end s"
    using phys_malloc_cases [of s "alloc_num_pages sz" sz] by auto
  then show ?case using malloc phys_malloc_wf by auto
next
  case (release s a sz s')
  then show ?case using set_range_wf unfolding phys_free_def by metis
next
  case (mark s a e b s')
  then show ?case using set_range_wf unfolding physmem_markregion_def by metis
qed

text \<open>
  C11. The allocator's state is well typed in every history: from any initialisation, whatever is
  allocated, freed or marked in whatever order, the bitmap has its 512 words and the end of memory
  stays within it; so every allocation request returns, with null and the state it had or with a
  page-aligned range below the end of memory, the bit of every page can be read, and releasing any
  range below 64 GiB returns.
\<close>
theorem pmm_reachable_typed:
  assumes "pmm_reach ub s"
  shows "length (pmm s) = PMM_SIZE \<and> 0 < unat (mm_end s) \<and> unat (mm_end s) \<le> PMM_SIZE \<and>
    (\<forall>sz. phys_malloc sz s = Inr (0, s) \<or> (\<exists>a s'. phys_malloc sz s = Inr (a, s') \<and>
       2097152 dvd unat a \<and> unat a + alloc_num_pages sz * 2097152 \<le> unat (mm_end s) * 64 * 2097152)) \<and>
    (\<forall>a. page_of a < 32768 \<longrightarrow> get_phys a s = Inr (of_bool (page_used (pmm s) (page_of a)))) \<and>
    (\<forall>a sz. unat (a + sz) \<le> 2 ^ 36 \<longrightarrow> (\<exists>s'. phys_free ub a sz s = Inr s'))"
proof -
  have wf: "pmm_wf s" "mm_end s \<noteq> 0" using pmm_reach_wf [OF assms] by auto
  have "phys_malloc sz s = Inr (0, s) \<or> (\<exists>a s'. phys_malloc sz s = Inr (a, s') \<and>
       2097152 dvd unat a \<and> unat a + alloc_num_pages sz * 2097152 \<le> unat (mm_end s) * 64 * 2097152)" for sz
    using phys_malloc_cases [OF wf(1) refl, of sz]
  proof (elim disjE exE conjE)
    fix p ws' assume r: "phys_malloc sz s = Inr (of_nat p * PAGE_SIZE, s\<lparr>pmm := ws'\<rparr>)" "0 < alloc_num_pages sz"
      "p + alloc_num_pages sz \<le> unat (mm_end s) * 64"
    have p: "p < 32768" using r(2,3) by (intro pmm_wf_bound [OF wf(1)]) simp
    have "of_nat p * PAGE_SIZE = (of_nat (p * 2097152) :: u64)" by (simp add: PAGE_SIZE_def)
    moreover have "unat (of_nat (p * 2097152) :: u64) = p * 2097152" by (rule unat_of_nat_small) (use p in simp)
    ultimately have u: "unat (of_nat p * PAGE_SIZE) = p * 2097152" by (simp only:)
    have "(p + alloc_num_pages sz) * 2097152 \<le> unat (mm_end s) * 64 * 2097152"
      using r(3) by (rule mult_right_mono) simp
    then show ?thesis using r(1) u by (simp add: add_mult_distrib)
  qed simp_all
  moreover have "get_phys a s = Inr (of_bool (page_used (pmm s) (page_of a)))" if "page_of a < 32768" for a
    by (rule get_phys_used [OF that wf(2)])
  moreover have "\<exists>s'. phys_free ub a sz s = Inr s'" if "unat (a + sz) \<le> 2 ^ 36" for a sz
    unfolding phys_free_def by (rule set_range_defined [OF that])
  moreover have "0 < unat (mm_end s)" using wf(2) by (simp add: unat_gt_0)
  ultimately show ?thesis using wf(1) by (auto simp: pmm_wf_def pmm_ok_def)
qed

section \<open>Witness\<close>

text \<open>Initialisation on the map of a machine with 1 GiB, an allocation and its release.\<close>

theorem pmm_reachable_typed_witness:
  "\<exists>s a s1 s2. physmem_init x86_shl demo_map = Inr (fst (sum_avail demo_map 0 0), s) \<and>
     phys_malloc 0x200000 s = Inr (a, s1) \<and> phys_malloc 0x400000 s1 = Inr s2"
proof -
  obtain s where s: "physmem_init x86_shl demo_map = Inr (fst (sum_avail demo_map 0 0), s)"
    using physmem_init_defined [of demo_map x86_shl] demo_map_fits by auto
  have r: "pmm_reach x86_shl s" by (rule pmm_reach.init [OF s])
  then obtain a s1 where a: "phys_malloc 0x200000 s = Inr (a, s1)" using pmm_reachable_typed [OF r] by blast
  have "pmm_reach x86_shl s1" by (rule pmm_reach.malloc [OF r a])
  from pmm_reachable_typed [OF this] obtain s2 where "phys_malloc 0x400000 s1 = Inr s2" by blast
  with s a show ?thesis by blast
qed

end
