(* ===== verification/OArray.thy ===== *)
theory OArray
  imports Prelude
begin

text \<open>
  \<^verbatim>\<open>src/include/kernel/types/orderedarray.h\<close>: the ordered array of pointers the heap keeps its
  blocks in. The array object is one region of \<open>max_size_bytes\<close> bytes: a 48-byte header and
  then the items; an access to an item outside that region is the fault \<open>Out_of_bounds\<close>.
  The theory holds the operations, their effect on the list of elements, and the contract of
  an order given by a numeric key, under which insertion keeps the array sorted.
\<close>

section \<open>State\<close>

text \<open>
  The comparator is called through a pointer and reads the memory its arguments point into;
  it returns a pointer-sized value that the code only tests against zero. The two allocation
  callbacks are kept as code addresses: the array itself only calls \<open>bfree\<close>, in
  \<open>oarray_destroy\<close>.
\<close>

type_synonym oarray_greater_fn = "mem \<Rightarrow> u64 \<Rightarrow> u64 \<Rightarrow> u64"

record oarray =
  bmalloc :: u64
  bfree :: u64
  bgreater :: oarray_greater_fn
  max_size_bytes :: u64
  max_elements :: u32
  oa_idx :: u32
  oa_items :: "nat \<Rightarrow> u64"

definition sizeof_oarray :: u64 where "sizeof_oarray = 48"

definition in_array :: "oarray \<Rightarrow> nat \<Rightarrow> bool" where
  "in_array a i \<longleftrightarrow> unat sizeof_oarray + 8 * (i + 1) \<le> unat (max_size_bytes a)"

definition item_get :: "oarray \<Rightarrow> nat \<Rightarrow> u64 res" where
  "item_get a i = (if in_array a i then Inr (oa_items a i) else Inl Out_of_bounds)"

definition item_set :: "nat \<Rightarrow> u64 \<Rightarrow> oarray \<Rightarrow> oarray res" where
  "item_set i v a =
     (if in_array a i then Inr (a\<lparr>oa_items := (oa_items a)(i := v)\<rparr>) else Inl Out_of_bounds)"

section \<open>Operations\<close>

text \<open>The items of a new array are whatever the memory it is made of holds: \<open>raw\<close>.\<close>

definition oarray_init ::
    "(nat \<Rightarrow> u64) \<Rightarrow> u64 \<Rightarrow> u64 \<Rightarrow> u64 \<Rightarrow> oarray_greater_fn \<Rightarrow> oarray" where
  "oarray_init raw sz our_malloc our_free our_greater =
     \<lparr>bmalloc = our_malloc, bfree = our_free, bgreater = our_greater, max_size_bytes = sz,
      max_elements = ucast ((sz - sizeof_oarray) div 8), oa_idx = 0, oa_items = raw\<rparr>"

definition oarray_destroy :: "(u64 \<Rightarrow> u64 \<Rightarrow> 's \<Rightarrow> 's res) \<Rightarrow> u64 \<Rightarrow> oarray \<Rightarrow> 's \<Rightarrow> 's res" where
  "oarray_destroy call map_addr a s = call (bfree a) map_addr s"

text \<open>\<open>while (itr < map->idx && !map->bgreater(map->items[itr], element)) itr++;\<close>\<close>

function insert_pos :: "mem \<Rightarrow> oarray \<Rightarrow> u64 \<Rightarrow> nat \<Rightarrow> nat res" where
  "insert_pos m a e i =
     (if i < unat (oa_idx a)
      then bindE (item_get a i) (\<lambda>x. if bgreater a m x e = 0 then insert_pos m a e (Suc i) else Inr i)
      else Inr i)"
  by auto
termination by (relation "measure (\<lambda>(m, a, e, i). unat (oa_idx a) - i)") auto

text \<open>The loop that moves every item from the insertion point up by one.\<close>

function shift_up :: "nat \<Rightarrow> u64 \<Rightarrow> oarray \<Rightarrow> oarray res" where
  "shift_up i displaced a =
     (if i < unat (oa_idx a)
      then bindE (item_get a (Suc i)) (\<lambda>tmp.
           bindE (item_set (Suc i) displaced a) (\<lambda>a'. shift_up (Suc i) tmp a'))
      else Inr a)"
  by auto
termination
  by (relation "measure (\<lambda>(i, d, a). unat (oa_idx a) - i)")
    (auto simp: item_set_def split: if_splits)

definition oarray_insert :: "mem \<Rightarrow> oarray \<Rightarrow> u64 \<Rightarrow> (u64 \<times> oarray) res" where
  "oarray_insert m a e =
     (if max_elements a \<le> oa_idx a then Inr (0, a)
      else bindE (insert_pos m a e 0) (\<lambda>itr.
        if itr = unat (oa_idx a)
        then bindE (item_set itr e a) (\<lambda>a'. Inr (e, a'\<lparr>oa_idx := oa_idx a + 1\<rparr>))
        else bindE (item_get a itr) (\<lambda>displaced.
             bindE (item_set itr e a) (\<lambda>a1.
             bindE (shift_up itr displaced a1) (\<lambda>a2.
               Inr (e, a2\<lparr>oa_idx := oa_idx a + 1\<rparr>))))))"

text \<open>
  \<open>oarray_remove\<close> has a return type but no \<open>return\<close>; its callers get no value, so the model
  gives only the new array.
\<close>

function shift_down :: "nat \<Rightarrow> oarray \<Rightarrow> oarray res" where
  "shift_down i a =
     (if i < unat (oa_idx a)
      then bindE (item_get a (Suc i)) (\<lambda>x. bindE (item_set i x a) (\<lambda>a'. shift_down (Suc i) a'))
      else Inr a)"
  by auto
termination
  by (relation "measure (\<lambda>(i, a). unat (oa_idx a) - i)")
    (auto simp: item_set_def split: if_splits)

definition oarray_remove :: "oarray \<Rightarrow> u32 \<Rightarrow> oarray res" where
  "oarray_remove a i = bindE (shift_down (unat i) a) (\<lambda>a'. Inr (a'\<lparr>oa_idx := oa_idx a' - 1\<rparr>))"

definition oarray_get :: "oarray \<Rightarrow> u32 \<Rightarrow> u64 res" where
  "oarray_get a i = (if oa_idx a < i then Inr 0 else item_get a (unat i))"

declare insert_pos.simps [simp del] shift_up.simps [simp del] shift_down.simps [simp del]

section \<open>The elements\<close>

definition oa_elems :: "oarray \<Rightarrow> u64 list" where
  "oa_elems a = map (oa_items a) [0..<unat (oa_idx a)]"

text \<open>An array object as \<open>oarray_init\<close> makes it, whatever was inserted since.\<close>

definition oa_wf :: "oarray \<Rightarrow> bool" where
  "oa_wf a \<longleftrightarrow> 48 + 8 * unat (max_elements a) \<le> unat (max_size_bytes a) \<and> oa_idx a \<le> max_elements a"

lemma length_oa_elems [simp]: "length (oa_elems a) = unat (oa_idx a)"
  by (simp add: oa_elems_def)

lemma nth_oa_elems [simp]: "i < unat (oa_idx a) \<Longrightarrow> oa_elems a ! i = oa_items a i"
  by (simp add: oa_elems_def)

lemma in_array_wf: "oa_wf a \<Longrightarrow> i < unat (max_elements a) \<Longrightarrow> in_array a i"
  by (simp add: oa_wf_def in_array_def sizeof_oarray_def)

lemma oa_idx_le: "oa_wf a \<Longrightarrow> unat (oa_idx a) \<le> unat (max_elements a)"
  by (simp add: oa_wf_def word_le_nat_alt)

lemma item_get_wf [simp]: "oa_wf a \<Longrightarrow> i < unat (max_elements a) \<Longrightarrow> item_get a i = Inr (oa_items a i)"
  by (simp add: item_get_def in_array_wf)

lemma item_set_wf [simp]:
  "oa_wf a \<Longrightarrow> i < unat (max_elements a) \<Longrightarrow>
     item_set i v a = Inr (a\<lparr>oa_items := (oa_items a)(i := v)\<rparr>)"
  by (simp add: item_set_def in_array_wf)

lemma oa_wf_items [simp]: "oa_wf (a\<lparr>oa_items := f\<rparr>) = oa_wf a"
  by (simp add: oa_wf_def)

lemma items_update_cong: "(\<And>k. f k = g k) \<Longrightarrow> a\<lparr>oa_items := f\<rparr> = a\<lparr>oa_items := g\<rparr>"
  by (simp add: fun_eq_iff)

lemma items_update_id: "(\<And>k. f k = oa_items a k) \<Longrightarrow> a\<lparr>oa_items := f\<rparr> = a"
  by (cases a) (simp add: fun_eq_iff)

lemma oa_idx_succ: "oa_idx a < max_elements a \<Longrightarrow> unat (oa_idx a + 1) = Suc (unat (oa_idx a))"
  by (rule unat_succ)

section \<open>The loops\<close>

text \<open>The position insertion stops at: past every element that does not compare greater.\<close>

definition not_greater :: "mem \<Rightarrow> oarray \<Rightarrow> u64 \<Rightarrow> u64 \<Rightarrow> bool" where
  "not_greater m a e = (\<lambda>x. bgreater a m x e = 0)"

definition place :: "('a \<Rightarrow> bool) \<Rightarrow> 'a \<Rightarrow> 'a list \<Rightarrow> 'a list" where
  "place P e xs = takeWhile P xs @ e # dropWhile P xs"

lemma drop_oa_elems_Cons:
  "i < unat (oa_idx a) \<Longrightarrow> drop i (oa_elems a) = oa_items a i # drop (Suc i) (oa_elems a)"
  by (metis Cons_nth_drop_Suc length_oa_elems nth_oa_elems)

lemma insert_pos_eq:
  assumes "oa_wf a" "i \<le> unat (oa_idx a)"
  shows "insert_pos m a e i = Inr (i + length (takeWhile (not_greater m a e) (drop i (oa_elems a))))"
  using assms
proof (induction m a e i rule: insert_pos.induct)
  case (1 m a e i)
  show ?case
  proof (cases "i < unat (oa_idx a)")
    case True
    with 1(2) have "i < unat (max_elements a)" using oa_idx_le by fastforce
    then have get: "item_get a i = Inr (oa_items a i)" using 1(2) by simp
    show ?thesis
    proof (cases "bgreater a m (oa_items a i) e = 0")
      case gt: True
      have "insert_pos m a e (Suc i) =
          Inr (Suc i + length (takeWhile (not_greater m a e) (drop (Suc i) (oa_elems a))))"
        by (rule 1(1)) (use True gt get 1 in auto)
      then show ?thesis
        using True gt get
        by (subst insert_pos.simps) (simp add: drop_oa_elems_Cons not_greater_def)
    next
      case False
      with True get show ?thesis
        by (subst insert_pos.simps) (simp add: drop_oa_elems_Cons not_greater_def)
    qed
  next
    case False
    with 1(3) show ?thesis by (subst insert_pos.simps) simp
  qed
qed

lemma shift_up_eq:
  assumes "oa_wf a" "i \<le> unat (oa_idx a)" "oa_idx a < max_elements a"
  shows "shift_up i d a = Inr (a\<lparr>oa_items := (\<lambda>k.
           if i < k \<and> k \<le> unat (oa_idx a) then (if k = Suc i then d else oa_items a (k - 1))
           else oa_items a k)\<rparr>)"
  using assms
proof (induction "unat (oa_idx a) - i" arbitrary: i d a)
  case 0
  then have "i = unat (oa_idx a)" by simp
  then show ?case
    by (subst shift_up.simps) (simp, rule items_update_id [symmetric], auto)
next
  case (Suc n)
  then have lt: "i < unat (oa_idx a)" and "Suc i < unat (max_elements a)"
    by (auto simp: word_less_nat_alt)
  with Suc.prems have step: "shift_up i d a =
      shift_up (Suc i) (oa_items a (Suc i)) (a\<lparr>oa_items := (oa_items a)(Suc i := d)\<rparr>)"
    by (subst shift_up.simps) simp
  let ?a = "a\<lparr>oa_items := (oa_items a)(Suc i := d)\<rparr>"
  have "shift_up (Suc i) (oa_items a (Suc i)) ?a = Inr (?a\<lparr>oa_items := (\<lambda>k.
           if Suc i < k \<and> k \<le> unat (oa_idx ?a)
           then (if k = Suc (Suc i) then oa_items a (Suc i) else oa_items ?a (k - 1))
           else oa_items ?a k)\<rparr>)"
    using Suc.hyps(1) [of ?a "Suc i" "oa_items a (Suc i)"] Suc.hyps(2) Suc.prems lt by simp
  also have "\<dots> = Inr (a\<lparr>oa_items := (\<lambda>k.
           if Suc i < k \<and> k \<le> unat (oa_idx ?a)
           then (if k = Suc (Suc i) then oa_items a (Suc i) else oa_items ?a (k - 1))
           else oa_items ?a k)\<rparr>)"
    by simp
  also have "\<dots> = Inr (a\<lparr>oa_items := (\<lambda>k.
           if i < k \<and> k \<le> unat (oa_idx a) then (if k = Suc i then d else oa_items a (k - 1))
           else oa_items a k)\<rparr>)"
    by (rule arg_cong [where f = Inr], rule items_update_cong) (use lt in auto)
  finally show ?case using step by simp
qed

lemma shift_down_eq:
  assumes "oa_wf a" "i \<le> unat (oa_idx a)" "oa_idx a < max_elements a"
  shows "shift_down i a = Inr (a\<lparr>oa_items := (\<lambda>k.
           if i \<le> k \<and> k < unat (oa_idx a) then oa_items a (Suc k) else oa_items a k)\<rparr>)"
  using assms
proof (induction "unat (oa_idx a) - i" arbitrary: i a)
  case 0
  then have "i = unat (oa_idx a)" by simp
  then show ?case
    by (subst shift_down.simps) (simp, rule items_update_id [symmetric], auto)
next
  case (Suc n)
  then have lt: "i < unat (oa_idx a)" and "Suc i < unat (max_elements a)"
    by (auto simp: word_less_nat_alt)
  with Suc.prems have step: "shift_down i a =
      shift_down (Suc i) (a\<lparr>oa_items := (oa_items a)(i := oa_items a (Suc i))\<rparr>)"
    by (subst shift_down.simps) simp
  let ?a = "a\<lparr>oa_items := (oa_items a)(i := oa_items a (Suc i))\<rparr>"
  have "shift_down (Suc i) ?a = Inr (?a\<lparr>oa_items := (\<lambda>k.
           if Suc i \<le> k \<and> k < unat (oa_idx a) then oa_items ?a (Suc k) else oa_items ?a k)\<rparr>)"
    using Suc.hyps(1) [of ?a "Suc i"] Suc.hyps(2) Suc.prems lt by simp
  also have "\<dots> = Inr (a\<lparr>oa_items := (\<lambda>k.
           if i \<le> k \<and> k < unat (oa_idx a) then oa_items a (Suc k) else oa_items a k)\<rparr>)"
    using lt by (auto simp: fun_eq_iff)
  finally show ?case using step by simp
qed

section \<open>What the operations do to the elements\<close>

lemma oa_elems_grow:
  assumes "oa_idx a < max_elements a" "p \<le> unat (oa_idx a)"
    "\<And>k. k \<le> unat (oa_idx a) \<Longrightarrow>
       f k = (if k < p then oa_items a k else if k = p then e else oa_items a (k - 1))"
  shows "oa_elems (a\<lparr>oa_items := f, oa_idx := oa_idx a + 1\<rparr>) =
           take p (oa_elems a) @ e # drop p (oa_elems a)"
proof -
  have n: "unat (oa_idx a + 1) = Suc (unat (oa_idx a))" by (rule oa_idx_succ [OF assms(1)])
  show ?thesis
    by (rule nth_equalityI)
      (use assms(2) n in \<open>auto simp: oa_elems_def assms(3) nth_append nth_Cons min_def
         simp del: upt_Suc split: nat.splits
         intro!: arg_cong [where f = "oa_items a"]\<close>)
qed

lemma oarray_insert_full: "max_elements a \<le> oa_idx a \<Longrightarrow> oarray_insert m a e = Inr (0, a)"
  by (simp add: oarray_insert_def)

lemma oarray_insert_ok:
  assumes "oa_wf a" "oa_idx a < max_elements a"
  shows "\<exists>f. oarray_insert m a e = Inr (e, a\<lparr>oa_items := f, oa_idx := oa_idx a + 1\<rparr>) \<and>
     oa_elems (a\<lparr>oa_items := f, oa_idx := oa_idx a + 1\<rparr>) = place (not_greater m a e) e (oa_elems a)"
proof -
  define p where "p = length (takeWhile (not_greater m a e) (oa_elems a))"
  have pos: "insert_pos m a e 0 = Inr p"
    using insert_pos_eq [OF assms(1), of 0] by (simp add: p_def)
  have p: "p \<le> unat (oa_idx a)"
    using length_takeWhile_le [of "not_greater m a e" "oa_elems a"] by (simp add: p_def)
  have cap: "p < unat (max_elements a)" using p assms(2) by (simp add: word_less_nat_alt)
  have place: "place (not_greater m a e) e (oa_elems a) = take p (oa_elems a) @ e # drop p (oa_elems a)"
    by (simp add: place_def p_def flip: takeWhile_eq_take dropWhile_eq_drop)
  show ?thesis
  proof (cases "p = unat (oa_idx a)")
    case True
    then have "oarray_insert m a e =
        Inr (e, a\<lparr>oa_items := (oa_items a)(p := e), oa_idx := oa_idx a + 1\<rparr>)"
      using assms cap pos by (simp add: oarray_insert_def not_le [symmetric])
    moreover have "oa_elems (a\<lparr>oa_items := (oa_items a)(p := e), oa_idx := oa_idx a + 1\<rparr>) =
        take p (oa_elems a) @ e # drop p (oa_elems a)"
      by (rule oa_elems_grow) (use assms p True in auto)
    ultimately show ?thesis unfolding place by blast
  next
    case False
    let ?a1 = "a\<lparr>oa_items := (oa_items a)(p := e)\<rparr>"
    let ?f = "\<lambda>k. if p < k \<and> k \<le> unat (oa_idx a)
      then (if k = Suc p then oa_items a p else ((oa_items a)(p := e)) (k - 1))
      else ((oa_items a)(p := e)) k"
    have "shift_up p (oa_items a p) ?a1 = Inr (?a1\<lparr>oa_items := \<lambda>k.
        if p < k \<and> k \<le> unat (oa_idx ?a1) then (if k = Suc p then oa_items a p else oa_items ?a1 (k - 1))
        else oa_items ?a1 k\<rparr>)"
      by (rule shift_up_eq) (use assms p in auto)
    also have "\<dots> = Inr (?a1\<lparr>oa_items := ?f\<rparr>)"
      by (rule arg_cong [where f = Inr], rule items_update_cong) simp
    finally have "shift_up p (oa_items a p) ?a1 = Inr (?a1\<lparr>oa_items := ?f\<rparr>)" .
    then have "oarray_insert m a e = Inr (e, a\<lparr>oa_items := ?f, oa_idx := oa_idx a + 1\<rparr>)"
      using assms cap pos False by (simp add: oarray_insert_def not_le [symmetric])
    moreover have "oa_elems (a\<lparr>oa_items := ?f, oa_idx := oa_idx a + 1\<rparr>) =
        take p (oa_elems a) @ e # drop p (oa_elems a)"
      by (rule oa_elems_grow) (use assms p in auto)
    ultimately show ?thesis unfolding place by blast
  qed
qed

lemma oa_idx_pred: "0 < unat (oa_idx a) \<Longrightarrow> unat (oa_idx a - 1) = unat (oa_idx a) - 1"
proof -
  assume "0 < unat (oa_idx a)"
  then have "oa_idx a \<noteq> 0" by (auto simp: unat_eq_0)
  then show ?thesis by (rule unat_minus_one)
qed

lemma oarray_remove_ok:
  assumes "oa_wf a" "unat i < unat (oa_idx a)" "oa_idx a < max_elements a"
  shows "\<exists>a'. oarray_remove a i = Inr a' \<and> oa_wf a' \<and>
     oa_elems a' = take (unat i) (oa_elems a) @ drop (Suc (unat i)) (oa_elems a)"
proof -
  let ?f = "\<lambda>k. if unat i \<le> k \<and> k < unat (oa_idx a) then oa_items a (Suc k) else oa_items a k"
  let ?a = "a\<lparr>oa_items := ?f, oa_idx := oa_idx a - 1\<rparr>"
  have n: "unat (oa_idx a - 1) = unat (oa_idx a) - 1" using assms by (intro oa_idx_pred) simp
  have "oarray_remove a i = Inr ?a"
    using shift_down_eq [OF assms(1) _ assms(3), of "unat i"] assms(2) by (simp add: oarray_remove_def)
  moreover have "oa_elems ?a = take (unat i) (oa_elems a) @ drop (Suc (unat i)) (oa_elems a)"
    by (rule nth_equalityI)
      (use assms n in \<open>auto simp: oa_elems_def nth_append min_def simp del: upt_Suc\<close>)
  moreover have "oa_wf ?a"
    using assms n by (auto simp: oa_wf_def word_le_nat_alt)
  ultimately show ?thesis by blast
qed

lemma shift_down_over_read:
  assumes "oa_wf a" "i < unat (oa_idx a)" "\<not> in_array a (unat (oa_idx a))"
  shows "shift_down i a = Inl Out_of_bounds"
  using assms
proof (induction "unat (oa_idx a) - i" arbitrary: i a)
  case 0
  then show ?case by simp
next
  case (Suc n)
  show ?case
  proof (cases "Suc i = unat (oa_idx a)")
    case True
    with Suc.prems show ?thesis by (subst shift_down.simps) (simp add: item_get_def)
  next
    case False
    let ?a = "a\<lparr>oa_items := (oa_items a)(i := oa_items a (Suc i))\<rparr>"
    have lt: "Suc i < unat (oa_idx a)" using False Suc.prems by simp
    then have "Suc i < unat (max_elements a)" using oa_idx_le [OF Suc.prems(1)] by linarith
    then have "shift_down i a = shift_down (Suc i) ?a"
      using Suc.prems by (subst shift_down.simps) simp
    also have "\<dots> = Inl Out_of_bounds"
      using Suc.hyps(1) [of ?a "Suc i"] Suc.hyps(2) Suc.prems lt by (simp add: in_array_def)
    finally show ?thesis .
  qed
qed

lemma oarray_get_ok: "oa_wf a \<Longrightarrow> unat i < unat (oa_idx a) \<Longrightarrow> oarray_get a i = Inr (oa_elems a ! unat i)"
proof -
  assume a: "oa_wf a" "unat i < unat (oa_idx a)"
  then have "unat i < unat (max_elements a)" using oa_idx_le by fastforce
  with a show ?thesis by (auto simp: oarray_get_def word_less_nat_alt)
qed

lemma oa_wf_insert:
  "oa_wf a \<Longrightarrow> oa_idx a < max_elements a \<Longrightarrow> oa_wf (a\<lparr>oa_items := f, oa_idx := oa_idx a + 1\<rparr>)"
  using oa_idx_succ [of a] by (simp add: oa_wf_def word_le_nat_alt word_less_nat_alt)

lemma oa_wf_init:
  "48 \<le> sz \<Longrightarrow> (unat sz - 48) div 8 < 2 ^ 32 \<Longrightarrow> oa_wf (oarray_init raw sz f g h)"
  "48 \<le> sz \<Longrightarrow> (unat sz - 48) div 8 < 2 ^ 32 \<Longrightarrow>
     unat (max_elements (oarray_init raw sz f g h)) = (unat sz - 48) div 8"
proof -
  assume sz: "48 \<le> sz" "(unat sz - 48) div 8 < 2 ^ 32"
  then have d: "unat ((sz - 48) div 8) = (unat sz - 48) div 8"
    by (simp add: unat_div_distrib unat_sub)
  with sz(2) show max: "unat (max_elements (oarray_init raw sz f g h)) = (unat sz - 48) div 8"
    by (simp add: oarray_init_def sizeof_oarray_def unsigned_ucast_eq take_bit_nat_eq_self)
  have "48 \<le> unat sz" using sz(1) by (simp add: word_le_nat_alt)
  with max show "oa_wf (oarray_init raw sz f g h)"
    by (simp add: oa_wf_def oarray_init_def word_le_nat_alt)
qed

section \<open>Order by a key\<close>

lemma mset_place: "mset (place P e xs) = add_mset e (mset xs)"
proof -
  have "mset (place P e xs) = add_mset e (mset (takeWhile P xs @ dropWhile P xs))"
    by (simp only: place_def mset_append mset.simps) simp
  then show ?thesis by (simp only: takeWhile_dropWhile_id)
qed

text \<open>
  The contract of a comparator: it answers true exactly when the first argument has the
  greater key. Insertion relies on nothing else.
\<close>

locale keyed =
  fixes gt :: "'a \<Rightarrow> 'a \<Rightarrow> bool"
    and key :: "'a \<Rightarrow> 'k::linorder"
  assumes gt_iff: "gt a b \<longleftrightarrow> key b < key a"
begin

lemma before_le: "x \<in> set (takeWhile (\<lambda>y. \<not> gt y e) xs) \<Longrightarrow> key x \<le> key e"
  by (auto simp: gt_iff dest!: set_takeWhileD)

lemma after_greater:
  assumes "sorted (map key xs)" and "x \<in> set (dropWhile (\<lambda>y. \<not> gt y e) xs)"
  shows "key e < key x"
  using assms by (induction xs) (auto simp: gt_iff split: if_splits)

lemma place_sorted:
  assumes "sorted (map key xs)"
  shows "sorted (map key (place (\<lambda>y. \<not> gt y e) e xs))"
proof -
  let ?P = "\<lambda>y. \<not> gt y e"
  have "sorted (map key (takeWhile ?P xs @ dropWhile ?P xs))" using assms by simp
  then have "sorted (map key (takeWhile ?P xs))" "sorted (map key (dropWhile ?P xs))"
    unfolding map_append sorted_append by blast+
  with before_le [of _ e xs] after_greater [OF assms, of _ e] show ?thesis
    unfolding place_def by (fastforce simp: sorted_append)
qed

lemma first_fit_is_best:
  assumes "sorted (map key xs)" "i < length xs" "\<forall>j < i. \<not> P (xs ! j)" "j < length xs" "P (xs ! j)"
  shows "key (xs ! i) \<le> key (xs ! j)"
proof -
  have "i \<le> j" using assms(3,5) by (meson not_le)
  then show ?thesis using assms sorted_nth_mono [of "map key xs" i j] by simp
qed

end

section \<open>What the array promises\<close>

text \<open>
  C24. Insertion keeps the array sorted: when the comparator answers non-zero exactly on a
  greater key, inserting into a well-formed array that is sorted and not full returns the
  element, touches no memory outside the array, and gives a well-formed sorted array with
  exactly one more element; nothing already stored is lost.
\<close>
theorem oarray_insert_sorted:
  assumes "oa_wf a" and "oa_idx a < max_elements a"
    and "\<And>x y. bgreater a m x y \<noteq> 0 \<longleftrightarrow> key y < (key x :: nat)"
    and "sorted (map key (oa_elems a))"
  shows "\<exists>a'. oarray_insert m a e = Inr (e, a') \<and> oa_wf a' \<and> sorted (map key (oa_elems a')) \<and>
     mset (oa_elems a') = add_mset e (mset (oa_elems a))"
proof -
  have "keyed (\<lambda>x y. bgreater a m x y \<noteq> 0) key" using assms(3) by unfold_locales
  from keyed.place_sorted [OF this assms(4)]
  have "sorted (map key (place (not_greater m a e) e (oa_elems a)))" by (simp add: not_greater_def)
  with oarray_insert_ok [OF assms(1,2)] oa_wf_insert [OF assms(1,2)] show ?thesis
    by (metis mset_place)
qed

text \<open>
  Removal takes out exactly the element at the index and keeps the order of the others,
  and reading at an index below the count then gives the elements in that order.
\<close>
theorem oarray_remove_get:
  assumes "oa_wf a" "i < oa_idx a" "oa_idx a < max_elements a"
  shows "\<exists>a'. oarray_remove a i = Inr a' \<and> length (oa_elems a') + 1 = length (oa_elems a) \<and>
     (\<forall>j < oa_idx a'. oarray_get a' j =
        Inr (oa_elems a ! (if j < i then unat j else unat j + 1)))"
proof -
  from assms have i: "unat i < length (oa_elems a)" by (simp add: word_less_nat_alt)
  from oarray_remove_ok [OF assms(1) _ assms(3), of i] i obtain a' where
    a': "oarray_remove a i = Inr a'" "oa_wf a'"
      "oa_elems a' = take (unat i) (oa_elems a) @ drop (Suc (unat i)) (oa_elems a)" by auto
  then have len: "length (oa_elems a') + 1 = length (oa_elems a)" using i by simp
  have "oarray_get a' j = Inr (oa_elems a ! (if j < i then unat j else unat j + 1))"
    if "j < oa_idx a'" for j
  proof -
    from that have j: "unat j < length (oa_elems a')" by (simp add: word_less_nat_alt)
    then have "oarray_get a' j = Inr (oa_elems a' ! unat j)" using oarray_get_ok [OF a'(2)] by simp
    also have "oa_elems a' ! unat j = oa_elems a ! (if j < i then unat j else unat j + 1)"
      using i j len unfolding a'(3) by (auto simp: nth_append word_less_nat_alt)
    finally show ?thesis .
  qed
  with a'(1) len show ?thesis by blast
qed

text \<open>
  The bound of \<open>oarray_get\<close> is off by one: with \<open>idx > map->idx\<close> as the test, reading at the
  count of an array that has room answers the stale item there instead of the null pointer,
  and removing from a full array that fills its region reads one item past the region.
\<close>
theorem oarray_bound_off_by_one:
  assumes "oa_wf a"
  shows "(oa_idx a < max_elements a \<longrightarrow>
      oarray_get a (oa_idx a) = Inr (oa_items a (unat (oa_idx a)))) \<and>
    (i < oa_idx a \<and> oa_idx a = max_elements a \<and>
      unat (max_size_bytes a) < 48 + 8 * (unat (max_elements a) + 1) \<longrightarrow>
      oarray_remove a i = Inl Out_of_bounds)"
  using assms shift_down_over_read [OF assms, of "unat i"]
  by (auto simp: oarray_get_def oarray_remove_def word_less_nat_alt in_array_def sizeof_oarray_def)

section \<open>Witnesses\<close>

definition demo_array :: oarray where
  "demo_array = (oarray_init (\<lambda>_. 9) 80 1 2 (\<lambda>m x y. if y < x then 1 else 0))
     \<lparr>oa_idx := 3, oa_items := (\<lambda>_. 9)(0 := 4, 1 := 6, 2 := 8)\<rparr>"

lemma demo_array_wf: "oa_wf demo_array" "oa_elems demo_array = [4, 6, 8]"
  "oa_idx demo_array = 3" "max_elements demo_array = 4" "max_size_bytes demo_array = 80"
  "bgreater demo_array m x y \<noteq> 0 \<longleftrightarrow> unat y < unat x"
  by (simp_all add: demo_array_def oarray_init_def oa_wf_def sizeof_oarray_def oa_elems_def
      word_less_nat_alt upt_rec)

theorem oarray_insert_sorted_witness:
  "\<exists>a'. oarray_insert (\<lambda>_. 0) demo_array 5 = Inr (5, a') \<and>
     sorted (map unat (oa_elems a')) \<and> mset (oa_elems a') = {#4, 5, 6, 8#}"
  using oarray_insert_sorted [OF demo_array_wf(1), of "\<lambda>_. 0" unat 5] demo_array_wf
  by (fastforce simp: add_mset_commute)

theorem oarray_remove_get_witness:
  "\<exists>a'. oarray_remove demo_array 1 = Inr a' \<and> length (oa_elems a') = 2"
  using oarray_remove_get [OF demo_array_wf(1), of 1] demo_array_wf by auto

theorem oarray_bound_off_by_one_witness: "oarray_get demo_array 3 = Inr 9"
  using oarray_bound_off_by_one [OF demo_array_wf(1)]
  by (simp add: demo_array_wf) (simp add: demo_array_def)

end
