(* ===== verification/KAlloc.thy ===== *)
theory KAlloc
  imports OArray PageMath
begin

text \<open>
  \<^verbatim>\<open>src/kernel/mem/kalloc.c\<close>: the kernel heap. Blocks lie one after the other from the page
  behind the allocation array up to \<open>heap.addr\<close>; each is a packed header (crc, available,
  block_size), the payload, and a footer (crc, pointer to the header). The headers are kept in
  an ordered array by block size. The heap's bytes are the memory of the state, so that what a
  client writes and what the allocator reads are the same bytes.
\<close>

section \<open>Layout and state\<close>

definition HEAP_VIRT :: u64 where "HEAP_VIRT = 0xffffffffc0000000 - PAGE_SIZE * 128"
definition HEAP_VIRT_REAL :: u64 where "HEAP_VIRT_REAL = HEAP_VIRT"
definition HEAP_SIZE :: u64 where "HEAP_SIZE = 0x800000"
definition HEAP_CRC :: u32 where "HEAP_CRC = 0xD515DEAD"
definition HEAP_HEAD_AVAILABLE :: u8 where "HEAP_HEAD_AVAILABLE = 0xff"
definition HEAP_HEAD_IN_USE :: u8 where "HEAP_HEAD_IN_USE = 0x00"

text \<open>The fields of the packed structures, at their offsets.\<close>

definition sizeof_header :: u64 where "sizeof_header = 13"
definition sizeof_footer :: u64 where "sizeof_footer = 12"

definition hdr_crc :: "mem \<Rightarrow> u64 \<Rightarrow> u32" where "hdr_crc m hp = load32 m hp"
definition hdr_available :: "mem \<Rightarrow> u64 \<Rightarrow> u8" where "hdr_available m hp = m (hp + 4)"
definition hdr_block_size :: "mem \<Rightarrow> u64 \<Rightarrow> u64" where "hdr_block_size m hp = load64 m (hp + 5)"
definition ftr_crc :: "mem \<Rightarrow> u64 \<Rightarrow> u32" where "ftr_crc m ft = load32 m ft"
definition ftr_header :: "mem \<Rightarrow> u64 \<Rightarrow> u64" where "ftr_header m ft = load64 m (ft + 4)"

record heap_t =
  h_addr :: u64
  h_size :: u64
  h_allocs :: "oarray option"

record kheap = heap_t +
  h_mem :: mem

definition heap_boot :: "mem \<Rightarrow> kheap" where
  "heap_boot m = \<lparr>h_addr = HEAP_VIRT_REAL, h_size = HEAP_SIZE, h_allocs = None, h_mem = m\<rparr>"

section \<open>Sizes\<close>

definition get_total_block_size :: "u64 \<Rightarrow> u64" where
  "get_total_block_size alloc_size = sizeof_footer + sizeof_header + alloc_size"

definition get_heap_end :: "kheap \<Rightarrow> u64" where
  "get_heap_end h = HEAP_VIRT_REAL + h_size h"

definition get_heap_use :: "kheap \<Rightarrow> u64" where
  "get_heap_use h = h_addr h - HEAP_VIRT_REAL"

definition get_heap_free :: "kheap \<Rightarrow> u64" where
  "get_heap_free h = get_heap_end h - h_addr h"

text \<open>The quotient is stored in an \<open>int64_t\<close> and divided as a signed number.\<close>

definition get_heap_use_percent :: "kheap \<Rightarrow> u32 res" where
  "get_heap_use_percent h =
     (if h_size h = 0 then Inl Div_zero
      else let usage = sint ((get_heap_use h * 10000) div h_size h)
           in Inr (word_of_int (sgn usage * (\<bar>usage\<bar> div 100))))"

section \<open>Blocks\<close>

definition create_heap_header :: "u64 \<Rightarrow> kheap \<Rightarrow> kheap" where
  "create_heap_header hp h =
     (let h1 = h\<lparr>h_mem := store32 hp HEAP_CRC (h_mem h)\<rparr>
      in h1\<lparr>h_mem := store8 (hp + 4) HEAP_HEAD_IN_USE (h_mem h1)\<rparr>)"

definition create_heap_footer :: "u64 \<Rightarrow> u64 \<Rightarrow> kheap \<Rightarrow> kheap" where
  "create_heap_footer ft hp h =
     (let h1 = h\<lparr>h_mem := store32 ft HEAP_CRC (h_mem h)\<rparr>
      in h1\<lparr>h_mem := store64 (ft + 4) hp (h_mem h1)\<rparr>)"

definition create_heap_block :: "u64 \<Rightarrow> u64 \<Rightarrow> kheap \<Rightarrow> (u64 \<times> kheap) res" where
  "create_heap_block addr mem_size h =
     (let hp = addr;
          h1 = create_heap_header hp h;
          ft = addr + mem_size + sizeof_header
      in if \<not> ft < get_heap_end h1 then Inl (Assertion ''(uintptr_t)footer < get_heap_end()'')
         else let h2 = create_heap_footer ft hp h1;
                  h3 = h2\<lparr>h_mem := store64 (hp + 5) (mem_size + sizeof_footer) (h_mem h2)\<rparr>
              in Inr (ft + sizeof_footer, h3))"

definition FREE_SPACE_NONE :: u32 where "FREE_SPACE_NONE = - 1"

text \<open>The loop of \<open>find_best_free_space\<close>; \<open>i\<close> is \<open>itr\<close>, which stays below the count.\<close>

function find_from :: "u64 \<Rightarrow> mem \<Rightarrow> oarray \<Rightarrow> nat \<Rightarrow> u32 res" where
  "find_from sz m a i =
     (if i < unat (oa_idx a)
      then bindE (oarray_get a (of_nat i)) (\<lambda>hp.
        if hp = 0 then Inl (Panic ''missing heap header'')
        else if hdr_available m hp = HEAP_HEAD_AVAILABLE \<and> sz \<le> hdr_block_size m hp - sizeof_footer
        then Inr (of_nat i)
        else find_from sz m a (Suc i))
      else Inr FREE_SPACE_NONE)"
  by auto
termination by (relation "measure (\<lambda>(sz, m, a, i). unat (oa_idx a) - i)") auto

declare find_from.simps [simp del]

definition find_best_free_space :: "u64 \<Rightarrow> kheap \<Rightarrow> u32 res" where
  "find_best_free_space sz h =
     (case h_allocs h of None \<Rightarrow> Inl Undefined
      | Some a \<Rightarrow> if oa_idx a = 0 then Inr FREE_SPACE_NONE else find_from sz (h_mem h) a 0)"

definition expand_heap :: "u64 \<Rightarrow> kheap \<Rightarrow> u64" where
  "expand_heap size_to_add h = 0"

section \<open>Allocation and release\<close>

definition malloc_new :: "u64 \<Rightarrow> oarray \<Rightarrow> kheap \<Rightarrow> (u64 \<times> kheap) res" where
  "malloc_new sz a h =
     (let total_size = get_total_block_size sz
      in if get_heap_free h < total_size \<and> expand_heap (total_size - get_heap_free h) h = 0
         then Inl (Panic ''Heap Full or Expansion Failed'')
         else let new_header_addr = h_addr h;
                  alloc_addr = new_header_addr + sizeof_header
              in bindE (create_heap_block (h_addr h) sz h) (\<lambda>(new_end, h1).
                 let h2 = h1\<lparr>h_addr := new_end\<rparr>
                 in bindE (oarray_insert (h_mem h2) a new_header_addr) (\<lambda>(r, a').
                    let h3 = h2\<lparr>h_allocs := Some a'\<rparr>
                    in if r \<noteq> new_header_addr then Inl (Panic ''heap header insertion failure'')
                       else Inr (alloc_addr, h3))))"

text \<open>\<open>sizeof(header)\<close> is the size of the pointer, 8, not of the structure.\<close>

definition malloc_reuse :: "u32 \<Rightarrow> oarray \<Rightarrow> kheap \<Rightarrow> (u64 \<times> kheap) res" where
  "malloc_reuse space a h =
     bindE (oarray_get a space) (\<lambda>hp.
       if hp = 0 then Inl (Assertion ''header != nullptr'')
       else if hdr_crc (h_mem h) hp \<noteq> HEAP_CRC then Inl (Assertion ''header->crc == HEAP_CRC'')
       else Inr (hp + 8, h\<lparr>h_mem := store8 (hp + 4) HEAP_HEAD_IN_USE (h_mem h)\<rparr>))"

definition malloc_impl :: "u64 \<Rightarrow> kheap \<Rightarrow> (u64 \<times> kheap) res" where
  "malloc_impl sz h =
     bindE (find_best_free_space sz h) (\<lambda>space.
       case h_allocs h of None \<Rightarrow> Inl Undefined
       | Some a \<Rightarrow> if space = FREE_SPACE_NONE then malloc_new sz a h else malloc_reuse space a h)"

text \<open>
  \<open>_free\<close> has no \<open>return\<close> after the null test, so the value of a successful call is not
  determined: \<open>None\<close>.
\<close>

definition free_impl :: "u64 \<Rightarrow> kheap \<Rightarrow> (u64 option \<times> kheap) res" where
  "free_impl addr h =
     (if addr = 0 then Inr (Some 0, h)
      else let m = h_mem h;
               hp = addr - sizeof_header;
               ft = addr + hdr_block_size m hp - sizeof_footer
           in if \<not> (hdr_crc m hp = ftr_crc m ft \<and> hdr_crc m hp = HEAP_CRC)
              then Inl (Assertion ''header->crc == footer->crc && header->crc == HEAP_CRC'')
              else if ftr_header m ft \<noteq> hp then Inl (Assertion ''footer->header == header'')
              else Inr (None, h\<lparr>h_mem := store8 (hp + 4) HEAP_HEAD_AVAILABLE m\<rparr>))"

definition kmalloc :: "u64 \<Rightarrow> kheap \<Rightarrow> (u64 \<times> kheap) res" where
  "kmalloc sz h = malloc_impl sz h"

definition kfree :: "u64 \<Rightarrow> kheap \<Rightarrow> (u64 option \<times> kheap) res" where
  "kfree address h = free_impl address h"

definition kmalloc_bootstrap :: "u64 \<Rightarrow> kheap \<Rightarrow> u64 \<times> kheap" where
  "kmalloc_bootstrap sz h = (h_addr h, h\<lparr>h_addr := h_addr h + sz\<rparr>)"

definition alloc_greater :: "mem \<Rightarrow> u64 \<Rightarrow> u64 \<Rightarrow> u8" where
  "alloc_greater m aa bb = (if hdr_block_size m bb < hdr_block_size m aa then 1 else 0)"

text \<open>
  The array calls \<open>alloc_greater\<close>, which returns a byte, through a pointer to a function that
  returns a pointer. C leaves such a call undefined; on the machine the byte is the low part
  of the register the caller tests whole. What the caller sees, given the byte, is the
  parameter \<open>callp\<close> of the model; the code addresses of the two callbacks the array keeps are
  parameters too.
\<close>

type_synonym byte_call = "mem \<Rightarrow> u64 \<Rightarrow> u64 \<Rightarrow> u8 \<Rightarrow> u64"

definition zero_extends :: "byte_call \<Rightarrow> bool" where
  "zero_extends callp \<longleftrightarrow> (\<forall>m a b r. callp m a b r = 0 \<longleftrightarrow> r = 0)"

definition kalloc_init :: "byte_call \<Rightarrow> u64 \<Rightarrow> u64 \<Rightarrow> kheap \<Rightarrow> kheap" where
  "kalloc_init callp bootstrap_fn kfree_fn h =
     (let h1 = h\<lparr>h_addr := HEAP_VIRT, h_size := HEAP_SIZE, h_allocs := None\<rparr>;
          (map_addr, h2) = kmalloc_bootstrap PAGE_SIZE h1;
          raw = (\<lambda>i. load64 (h_mem h2) (map_addr + sizeof_oarray + 8 * of_nat i));
          a = oarray_init raw PAGE_SIZE bootstrap_fn kfree_fn (\<lambda>m x y. callp m x y (alloc_greater m x y))
      in h2\<lparr>h_allocs := Some a\<rparr>)"

end
