(* ===== verification/KHeap.thy ===== *)
theory KHeap
  imports KAlloc
begin

text \<open>
  What the kernel heap of \<^verbatim>\<open>kalloc.c\<close> promises: the invariant that its blocks tile the heap
  region from the page behind the allocation array to \<open>heap.addr\<close>, that every operation and
  every client write inside a payload preserves it, what \<open>kmalloc\<close> and \<open>kfree\<close> give, the
  best-fit choice, and the places where the code does not do what it means to.
\<close>

section \<open>Blocks that tile a region\<close>

definition block_len :: "mem \<Rightarrow> u64 \<Rightarrow> nat" where
  "block_len m b = 13 + unat (hdr_block_size m b)"

definition block_ok :: "mem \<Rightarrow> u64 \<Rightarrow> bool" where
  "block_ok m b \<longleftrightarrow> hdr_crc m b = HEAP_CRC \<and> 12 \<le> unat (hdr_block_size m b) \<and>
     (let ft = b + 1 + hdr_block_size m b in ftr_crc m ft = HEAP_CRC \<and> ftr_header m ft = b)"

fun chain :: "mem \<Rightarrow> nat \<Rightarrow> u64 list \<Rightarrow> nat \<Rightarrow> bool" where
  "chain m a [] e \<longleftrightarrow> a = e"
| "chain m a (b # bs) e \<longleftrightarrow> unat b = a \<and> block_ok m b \<and> chain m (a + block_len m b) bs e"

text \<open>The bytes the allocator relies on: all of the header but \<open>available\<close>, and the footer.\<close>

definition hard :: "mem \<Rightarrow> u64 \<Rightarrow> nat \<Rightarrow> bool" where
  "hard m b x \<longleftrightarrow> unat b \<le> x \<and> x < unat b + 13 \<and> x \<noteq> unat b + 4 \<or>
     unat b + block_len m b - 12 \<le> x \<and> x < unat b + block_len m b"

lemma block_len_ge: "block_ok m b \<Longrightarrow> 25 \<le> block_len m b"
  by (simp add: block_ok_def block_len_def)

lemma chain_append: "chain m a (xs @ ys) e \<longleftrightarrow> (\<exists>d. chain m a xs d \<and> chain m d ys e)"
  by (induction xs arbitrary: a) auto

lemma chain_le: "chain m a bs e \<Longrightarrow> a + 25 * length bs \<le> e"
proof (induction bs arbitrary: a)
  case (Cons b bs)
  then have "a + block_len m b + 25 * length bs \<le> e" "25 \<le> block_len m b"
    using block_len_ge by auto
  then show ?case by simp
qed simp

lemma chain_block:
  assumes "chain m a bs e" "b \<in> set bs"
  shows "block_ok m b" "a \<le> unat b" "unat b + block_len m b \<le> e"
proof -
  from assms(2) obtain xs ys where bs: "bs = xs @ b # ys" by (auto simp: in_set_conv_decomp)
  with assms(1) obtain d where 1: "chain m a xs d" "chain m d (b # ys) e"
    by (auto simp only: chain_append)
  then show "block_ok m b" "a \<le> unat b" "unat b + block_len m b \<le> e"
    using chain_le [OF 1(1)] chain_le [of m "d + block_len m b" ys e] by auto
qed

text \<open>Two blocks of a chain do not overlap.\<close>

lemma chain_disjoint:
  assumes "chain m a bs e" "b \<in> set bs" "c \<in> set bs" "b \<noteq> c"
  shows "unat b + block_len m b \<le> unat c \<or> unat c + block_len m c \<le> unat b"
  using assms
proof (induction bs arbitrary: a)
  case (Cons x xs)
  then have tail: "chain m (a + block_len m x) xs e" and x: "unat x = a" by auto
  show ?case
  proof (cases "b = x \<or> c = x")
    case True
    then show ?thesis
      using Cons.prems chain_block(2) [OF tail, of b] chain_block(2) [OF tail, of c] x by auto
  next
    case False
    then show ?thesis using Cons.IH [OF tail] Cons.prems by auto
  qed
qed simp

lemma chain_sorted: "chain m a bs e \<Longrightarrow> sorted bs \<and> distinct bs"
proof (induction bs arbitrary: a)
  case (Cons b bs)
  then have tail: "chain m (a + block_len m b) bs e" and b: "unat b = a" "25 \<le> block_len m b"
    using block_len_ge by auto
  have "b < c" if "c \<in> set bs" for c
    using chain_block(2) [OF tail that] b by (simp add: word_less_nat_alt)
  with Cons.IH [OF tail] show ?case by force
qed simp

lemma block_hard:
  assumes "block_ok m b" "unat b + block_len m b \<le> 2 ^ 64"
    and same: "\<And>x. hard m b (unat x) \<Longrightarrow> m x = m' x"
  shows "block_ok m' b" "hdr_block_size m' b = hdr_block_size m b" "hdr_crc m' b = hdr_crc m b"
proof -
  define s where "s = unat (hdr_block_size m b)"
  have s: "12 \<le> s" "unat b + 13 + s \<le> 2 ^ 64"
    using assms by (simp_all add: block_ok_def block_len_def s_def)
  have bs: "hdr_block_size m b = of_nat s" by (simp add: s_def)
  have hard: "hard m b x \<longleftrightarrow> unat b \<le> x \<and> x < unat b + 13 \<and> x \<noteq> unat b + 4 \<or>
      unat b + 1 + s \<le> x \<and> x < unat b + 13 + s" for x
    by (auto simp: hard_def block_len_def s_def)
  have b5: "unat (b + 5) = unat b + 5"
    using unat_add_of_nat [of b 5] s by simp
  have eq: "b + 1 + hdr_block_size m b = b + of_nat (1 + s)" by (simp add: bs)
  have f: "unat (b + 1 + hdr_block_size m b) = unat b + (1 + s)"
    unfolding eq by (rule unat_add_of_nat) (use s in simp)
  have eq4: "b + 1 + hdr_block_size m b + 4 = b + of_nat (5 + s)" by (simp add: bs)
  have f4: "unat (b + 1 + hdr_block_size m b + 4) = unat b + (5 + s)"
    unfolding eq4 by (rule unat_add_of_nat) (use s in simp)
  show size_eq: "hdr_block_size m' b = hdr_block_size m b"
    unfolding hdr_block_size_def load64_def
    by (rule arg_cong [OF sym [OF load_bytes_agree]]) (use b5 s same hard in auto)
  show crc: "hdr_crc m' b = hdr_crc m b"
    unfolding hdr_crc_def load32_def
    by (rule arg_cong [OF sym [OF load_bytes_agree]]) (use s same hard in auto)
  have "ftr_crc m' (b + 1 + hdr_block_size m b) = ftr_crc m (b + 1 + hdr_block_size m b)"
    unfolding ftr_crc_def load32_def
    by (rule arg_cong [OF sym [OF load_bytes_agree]]) (use f s same hard in auto)
  moreover have "ftr_header m' (b + 1 + hdr_block_size m b) = ftr_header m (b + 1 + hdr_block_size m b)"
    unfolding ftr_header_def load64_def
    by (rule arg_cong [OF sym [OF load_bytes_agree]]) (use f4 s same hard in auto)
  ultimately show "block_ok m' b"
    using assms(1) crc size_eq by (simp add: block_ok_def Let_def)
qed

lemma chain_hard:
  assumes "chain m a bs e" "e \<le> 2 ^ 64"
    and "\<And>b x. b \<in> set bs \<Longrightarrow> hard m b (unat x) \<Longrightarrow> m x = m' x"
  shows "chain m' a bs e" "b \<in> set bs \<Longrightarrow> hdr_block_size m' b = hdr_block_size m b"
proof -
  have "chain m' a bs e \<and> (\<forall>b\<in>set bs. hdr_block_size m' b = hdr_block_size m b)"
    using assms
  proof (induction bs arbitrary: a)
    case (Cons b bs)
    then have tail: "chain m (a + block_len m b) bs e" by simp
    have "block_ok m b" "unat b + block_len m b \<le> 2 ^ 64"
      using chain_block [OF Cons.prems(1), of b] Cons.prems(2) by auto
    moreover have "m x = m' x" if "hard m b (unat x)" for x
      using Cons.prems(3) [of b x] that by simp
    ultimately have "block_ok m' b" "hdr_block_size m' b = hdr_block_size m b"
      using block_hard [of m b m'] by blast+
    moreover have "chain m' (a + block_len m b) bs e \<and>
        (\<forall>b\<in>set bs. hdr_block_size m' b = hdr_block_size m b)"
      by (rule Cons.IH [OF tail Cons.prems(2)]) (use Cons.prems(3) in auto)
    ultimately show ?case using Cons.prems(1) by (simp add: block_len_def)
  qed simp
  then show "chain m' a bs e" "b \<in> set bs \<Longrightarrow> hdr_block_size m' b = hdr_block_size m b" by auto
qed

text \<open>A byte of a block that is not hard is not hard for any other block of the chain.\<close>

definition soft :: "mem \<Rightarrow> u64 \<Rightarrow> nat \<Rightarrow> bool" where
  "soft m b x \<longleftrightarrow> unat b \<le> x \<and> x < unat b + block_len m b \<and> \<not> hard m b x"

lemma chain_soft:
  assumes "chain m a bs e" "e \<le> 2 ^ 64" "c \<in> set bs"
    and "\<And>x. \<not> soft m c (unat x) \<Longrightarrow> m x = m' x"
  shows "chain m' a bs e" "b \<in> set bs \<Longrightarrow> hdr_block_size m' b = hdr_block_size m b"
proof -
  have "\<not> soft m c (unat x)" if "b \<in> set bs" "hard m b (unat x)" for b x
  proof (cases "b = c")
    case False
    have "unat b \<le> unat x" "unat x < unat b + block_len m b"
      using that(2) chain_block(1) [OF assms(1) that(1)] block_len_ge [of m b]
      by (auto simp: hard_def)
    then show ?thesis using chain_disjoint [OF assms(1) that(1) assms(3) False] by (auto simp: soft_def)
  qed (use that in \<open>auto simp: soft_def\<close>)
  then have "m x = m' x" if "b \<in> set bs" "hard m b (unat x)" for b x using that assms(4) by blast
  then show "chain m' a bs e" "b \<in> set bs \<Longrightarrow> hdr_block_size m' b = hdr_block_size m b"
    using chain_hard [OF assms(1,2)] by blast+
qed

section \<open>The invariant\<close>

definition HEAP_BASE :: nat where "HEAP_BASE = unat HEAP_VIRT + unat PAGE_SIZE"
definition HEAP_LIMIT :: nat where "HEAP_LIMIT = unat HEAP_VIRT + unat HEAP_SIZE"

definition heap_blocks :: "kheap \<Rightarrow> u64 list" where
  "heap_blocks h = (case h_allocs h of None \<Rightarrow> [] | Some a \<Rightarrow> oa_elems a)"

definition heap_inv :: "kheap \<Rightarrow> bool" where
  "heap_inv h \<longleftrightarrow> h_size h = HEAP_SIZE \<and> unat (h_addr h) \<le> HEAP_LIMIT \<and>
     (case h_allocs h of None \<Rightarrow> False
      | Some a \<Rightarrow> oa_wf a \<and> unat (max_elements a) = 262138) \<and>
     chain (h_mem h) HEAP_BASE (sort (heap_blocks h)) (unat (h_addr h))"

definition heap_sorted :: "kheap \<Rightarrow> bool" where
  "heap_sorted h \<longleftrightarrow> sorted (map (\<lambda>b. unat (hdr_block_size (h_mem h) b)) (heap_blocks h))"

lemma heap_numbers:
  "HEAP_BASE = 18446744072369471488" "HEAP_LIMIT = 18446744072375762944"
  by (simp_all add: HEAP_BASE_def HEAP_LIMIT_def HEAP_VIRT_def HEAP_SIZE_def PAGE_SIZE_def)

lemma heap_inv_allocs:
  assumes "heap_inv h"
  obtains a where "h_allocs h = Some a" "oa_wf a" "unat (max_elements a) = 262138"
    "heap_blocks h = oa_elems a" "chain (h_mem h) HEAP_BASE (sort (oa_elems a)) (unat (h_addr h))"
  using assms by (auto simp: heap_inv_def heap_blocks_def split: option.splits)

lemma heap_inv_block:
  assumes "heap_inv h" "b \<in> set (heap_blocks h)"
  shows "block_ok (h_mem h) b" "HEAP_BASE \<le> unat b"
    "unat b + block_len (h_mem h) b \<le> unat (h_addr h)" "unat (h_addr h) \<le> HEAP_LIMIT"
  using assms chain_block [of "h_mem h" HEAP_BASE "sort (heap_blocks h)" "unat (h_addr h)" b]
  by (auto simp: heap_inv_def)

lemma heap_inv_nonzero: "heap_inv h \<Longrightarrow> b \<in> set (heap_blocks h) \<Longrightarrow> b \<noteq> 0"
  using heap_inv_block(2) [of h b] by (auto simp: heap_numbers)

lemma heap_inv_base: "heap_inv h \<Longrightarrow> HEAP_BASE + 25 * length (heap_blocks h) \<le> unat (h_addr h)"
  using chain_le [of "h_mem h" HEAP_BASE "sort (heap_blocks h)" "unat (h_addr h)"]
  by (simp add: heap_inv_def)

text \<open>The heap region holds fewer blocks than the array has places.\<close>

lemma heap_array_has_room:
  assumes "heap_inv h" "h_allocs h = Some a"
  shows "oa_idx a < max_elements a"
proof -
  have "25 * length (oa_elems a) \<le> HEAP_LIMIT - HEAP_BASE" "unat (max_elements a) = 262138"
    using assms heap_inv_base [OF assms(1)]
    by (auto simp: heap_inv_def heap_blocks_def)
  then show ?thesis by (simp add: heap_numbers word_less_nat_alt)
qed

lemma heap_end_nat: "heap_inv h \<Longrightarrow> unat (get_heap_end h) = HEAP_LIMIT"
  by (simp add: heap_inv_def get_heap_end_def HEAP_LIMIT_def HEAP_VIRT_REAL_def HEAP_VIRT_def
      HEAP_SIZE_def PAGE_SIZE_def)

lemma heap_free_nat: "heap_inv h \<Longrightarrow> unat (get_heap_free h) = HEAP_LIMIT - unat (h_addr h)"
  using heap_end_nat [of h] by (simp add: get_heap_free_def heap_inv_def unat_sub word_le_nat_alt)

section \<open>The search\<close>

definition fits :: "u64 \<Rightarrow> mem \<Rightarrow> u64 \<Rightarrow> bool" where
  "fits sz m b \<longleftrightarrow> hdr_available m b = HEAP_HEAD_AVAILABLE \<and> sz \<le> hdr_block_size m b - sizeof_footer"

lemma find_from_spec:
  assumes "oa_wf a" "i \<le> unat (oa_idx a)" "\<forall>b\<in>set (oa_elems a). b \<noteq> 0" "unat (oa_idx a) < 2 ^ 31"
  shows "\<exists>r. find_from sz m a i = Inr r \<and>
    (r = FREE_SPACE_NONE \<and> (\<forall>j. i \<le> j \<and> j < unat (oa_idx a) \<longrightarrow> \<not> fits sz m (oa_elems a ! j)) \<or>
     (\<exists>k. r = of_nat k \<and> i \<le> k \<and> k < unat (oa_idx a) \<and> fits sz m (oa_elems a ! k) \<and>
       (\<forall>j. i \<le> j \<and> j < k \<longrightarrow> \<not> fits sz m (oa_elems a ! j))))"
  using assms
proof (induction "unat (oa_idx a) - i" arbitrary: i)
  case 0
  then show ?case by (subst find_from.simps) auto
next
  case (Suc n)
  then have lt: "i < unat (oa_idx a)" by simp
  then have ui: "unat (of_nat i :: u32) = i" using Suc.prems(4) by (simp add: unat_of_nat_small)
  have get: "oarray_get a (of_nat i) = Inr (oa_elems a ! i)"
    using oarray_get_ok [OF Suc.prems(1), of "of_nat i"] lt ui by simp
  have nz: "oa_elems a ! i \<noteq> 0" using Suc.prems(3) lt nth_mem [of i "oa_elems a"] by (simp del: nth_oa_elems)
  show ?case
  proof (cases "fits sz m (oa_elems a ! i)")
    case True
    then have "find_from sz m a i = Inr (of_nat i)"
      using lt get nz by (subst find_from.simps) (simp add: fits_def)
    with True lt show ?thesis by auto
  next
    case False
    then have step: "find_from sz m a i = find_from sz m a (Suc i)"
      using lt get nz by (subst find_from.simps) (auto simp: fits_def)
    have ih: "\<exists>r. find_from sz m a (Suc i) = Inr r \<and>
      (r = FREE_SPACE_NONE \<and> (\<forall>j. Suc i \<le> j \<and> j < unat (oa_idx a) \<longrightarrow> \<not> fits sz m (oa_elems a ! j)) \<or>
       (\<exists>k. r = of_nat k \<and> Suc i \<le> k \<and> k < unat (oa_idx a) \<and> fits sz m (oa_elems a ! k) \<and>
         (\<forall>j. Suc i \<le> j \<and> j < k \<longrightarrow> \<not> fits sz m (oa_elems a ! j))))"
      using Suc.hyps(1) [of "Suc i"] Suc.hyps(2) Suc.prems lt by simp
    have "Suc i \<le> j" if "i \<le> j" "fits sz m (oa_elems a ! j)" for j
      using that False by (cases "i = j") auto
    with ih show ?thesis unfolding step by (metis Suc_leD)
  qed
qed

lemma find_best_spec:
  assumes "heap_inv h"
  obtains (none) "find_best_free_space sz h = Inr FREE_SPACE_NONE"
      "\<forall>b\<in>set (heap_blocks h). \<not> fits sz (h_mem h) b"
    | (found) k where "find_best_free_space sz h = Inr (of_nat k)" "k < length (heap_blocks h)"
      "k < 262138" "fits sz (h_mem h) (heap_blocks h ! k)"
      "\<forall>j < k. \<not> fits sz (h_mem h) (heap_blocks h ! j)"
proof -
  obtain a where a: "h_allocs h = Some a" "oa_wf a" "unat (max_elements a) = 262138"
    "heap_blocks h = oa_elems a" using heap_inv_allocs [OF assms] .
  have room: "unat (oa_idx a) < 262138"
    using heap_array_has_room [OF assms a(1)] a(3) by (simp add: word_less_nat_alt)
  have "\<exists>r. find_from sz (h_mem h) a 0 = Inr r \<and>
    (r = FREE_SPACE_NONE \<and> (\<forall>j. 0 \<le> j \<and> j < unat (oa_idx a) \<longrightarrow> \<not> fits sz (h_mem h) (oa_elems a ! j)) \<or>
     (\<exists>k. r = of_nat k \<and> 0 \<le> k \<and> k < unat (oa_idx a) \<and> fits sz (h_mem h) (oa_elems a ! k) \<and>
       (\<forall>j. 0 \<le> j \<and> j < k \<longrightarrow> \<not> fits sz (h_mem h) (oa_elems a ! j))))"
    by (rule find_from_spec) (use a room heap_inv_nonzero [OF assms] in auto)
  moreover have "find_best_free_space sz h = find_from sz (h_mem h) a 0"
    using a(1) by (auto simp: find_best_free_space_def find_from.simps)
  ultimately show thesis
    using none found a(4) room by (auto simp: all_set_conv_all_nth simp del: nth_oa_elems)
qed

lemma of_nat_not_none: "k < 262138 \<Longrightarrow> (of_nat k :: u32) \<noteq> FREE_SPACE_NONE" "k < 262138 \<Longrightarrow> unat (of_nat k :: u32) = k"
proof -
  assume k: "k < 262138"
  then show u: "unat (of_nat k :: u32) = k" by (simp add: unat_of_nat_small)
  have "unat FREE_SPACE_NONE = 4294967295" by (simp add: FREE_SPACE_NONE_def unsigned_minus_1_eq_mask mask_eq_exp_minus_1)
  with u k show "(of_nat k :: u32) \<noteq> FREE_SPACE_NONE" by auto
qed

section \<open>A new block\<close>

lemma unat_offset: "unat (b :: u64) + unat k < 2 ^ 64 \<Longrightarrow> unat (b + k) = unat b + unat k"
  by (simp add: unat_add_small)

definition block_bytes :: "u64 \<Rightarrow> u64 \<Rightarrow> mem \<Rightarrow> mem" where
  "block_bytes b sz m =
     store64 (b + 5) (sz + 12) (store64 (b + sz + 13 + 4) b (store32 (b + sz + 13) HEAP_CRC
       (store8 (b + 4) HEAP_HEAD_IN_USE (store32 b HEAP_CRC m))))"

lemma create_heap_block_eq:
  "create_heap_block b sz h =
     (if b + sz + 13 < get_heap_end h
      then Inr (b + sz + 13 + 12, h\<lparr>h_mem := block_bytes b sz (h_mem h)\<rparr>)
      else Inl (Assertion ''(uintptr_t)footer < get_heap_end()''))"
  by (simp add: create_heap_block_def create_heap_header_def create_heap_footer_def Let_def
      block_bytes_def sizeof_header_def sizeof_footer_def get_heap_end_def)

lemma block_bytes_new:
  assumes "unat b + 25 + unat sz < 2 ^ 64"
  shows "block_ok (block_bytes b sz m) b" "hdr_block_size (block_bytes b sz m) b = sz + 12"
    "hdr_available (block_bytes b sz m) b = HEAP_HEAD_IN_USE"
    "block_len (block_bytes b sz m) b = 25 + unat sz"
    "unat x < unat b \<or> unat b + 25 + unat sz \<le> unat x \<Longrightarrow> block_bytes b sz m x = m x"
proof -
  let ?f = "b + sz + 13"
  have b4: "unat (b + 4) = unat b + 4" and b5: "unat (b + 5) = unat b + 5"
    using assms unat_offset [of b 4] unat_offset [of b 5] by auto
  have "unat (b + (sz + 13)) = unat b + unat (sz + 13)" "unat (sz + 13) = unat sz + 13"
    using assms unat_offset [of sz 13] unat_offset [of b "sz + 13"] by auto
  then have f: "unat ?f = unat b + unat sz + 13" by (simp add: add.assoc)
  then have f4: "unat (?f + 4) = unat b + unat sz + 17"
    using assms unat_offset [of ?f 4] by simp
  have s12: "unat (sz + 12) = unat sz + 12" using assms unat_offset [of sz 12] by auto
  have apart: "apart (b + 5) 8 b 4" "apart (?f + 4) 8 b 4" "apart ?f 4 b 4" "apart (b + 4) 1 b 4"
    "apart (b + 5) 8 ?f 4" "apart (?f + 4) 8 ?f 4" "apart (b + 5) 8 (?f + 4) 8"
    "apart (b + 5) 8 (b + 4) 1" "apart (?f + 4) 8 (b + 4) 1" "apart ?f 4 (b + 4) 1"
    by (rule apart_nat; use assms b4 b5 f f4 in simp)+
  show size_eq: "hdr_block_size (block_bytes b sz m) b = sz + 12"
    by (simp add: hdr_block_size_def block_bytes_def mem_simps)
  then show "block_len (block_bytes b sz m) b = 25 + unat sz"
    by (simp add: block_len_def s12)
  show "hdr_available (block_bytes b sz m) b = HEAP_HEAD_IN_USE"
    using apart by (simp add: hdr_available_def block_bytes_def mem_simps) (simp add: store8_def)
  have "b + 1 + (sz + 12) = ?f" by simp
  moreover have "hdr_crc (block_bytes b sz m) b = HEAP_CRC"
    using apart by (simp add: hdr_crc_def block_bytes_def mem_simps)
  moreover have "ftr_crc (block_bytes b sz m) ?f = HEAP_CRC"
    using apart by (simp add: ftr_crc_def block_bytes_def mem_simps)
  moreover have "ftr_header (block_bytes b sz m) ?f = b"
    using apart by (simp add: ftr_header_def block_bytes_def mem_simps)
  ultimately show "block_ok (block_bytes b sz m) b"
    by (simp add: block_ok_def size_eq s12 Let_def ac_simps)
  assume out: "unat x < unat b \<or> unat b + 25 + unat sz \<le> unat x"
  have "unat x < 2 ^ 64" by (rule unat_lt_64)
  then have "apart (b + 5) 8 x 1" "apart (?f + 4) 8 x 1" "apart ?f 4 x 1" "apart (b + 4) 1 x 1"
    "apart b 4 x 1"
    by (rule_tac [!] apart_nat) (use out assms b4 b5 f f4 in auto)
  then show "block_bytes b sz m x = m x"
    by (simp add: block_bytes_def mem_simps)
qed

lemma chain_extend:
  assumes "chain m a bs e" "unat b = e" "e + 25 + unat sz < 2 ^ 64"
  shows "chain (block_bytes b sz m) a (bs @ [b]) (e + 25 + unat sz)"
    "c \<in> set bs \<Longrightarrow> hdr_block_size (block_bytes b sz m) c = hdr_block_size m c"
proof -
  have out: "m x = block_bytes b sz m x" if "unat x < e" for x
    using block_bytes_new(5) [of b sz x m] assms that by simp
  have "m x = block_bytes b sz m x" if "c \<in> set bs" "hard m c (unat x)" for c x
  proof (rule out)
    have "unat c + block_len m c \<le> e" "block_ok m c" using chain_block [OF assms(1) that(1)] by auto
    then show "unat x < e" using that(2) block_len_ge [of m c] by (auto simp: hard_def)
  qed
  then have frame: "\<And>c x. c \<in> set bs \<Longrightarrow> hard m c (unat x) \<Longrightarrow> m x = block_bytes b sz m x" by blast
  have e: "e \<le> 2 ^ 64" using assms(3) by simp
  have "chain (block_bytes b sz m) a bs e" by (rule chain_hard(1) [OF assms(1) e frame])
  moreover have "chain (block_bytes b sz m) e [b] (e + 25 + unat sz)"
    using block_bytes_new(1,4) [of b sz m] assms(2,3) by simp
  ultimately show "chain (block_bytes b sz m) a (bs @ [b]) (e + 25 + unat sz)"
    unfolding chain_append by blast
  show "hdr_block_size (block_bytes b sz m) c = hdr_block_size m c" if "c \<in> set bs"
    by (rule chain_hard(2) [OF assms(1) e frame that])
qed

section \<open>Allocation\<close>

interpretation blk: keyed "\<lambda>a b. alloc_greater m a b \<noteq> 0" "\<lambda>b. unat (hdr_block_size m b)" for m
  by unfold_locales (simp add: alloc_greater_def word_less_nat_alt)

text \<open>The comparator the array calls is \<open>alloc_greater\<close>, seen through \<open>callp\<close>.\<close>

definition heap_cmp :: "byte_call \<Rightarrow> kheap \<Rightarrow> bool" where
  "heap_cmp callp h \<longleftrightarrow> (case h_allocs h of None \<Rightarrow> False
     | Some a \<Rightarrow> bgreater a = (\<lambda>m x y. callp m x y (alloc_greater m x y)))"

lemma not_greater_cmp:
  "heap_cmp callp h \<Longrightarrow> zero_extends callp \<Longrightarrow> h_allocs h = Some a \<Longrightarrow>
     not_greater m a e = (\<lambda>y. \<not> alloc_greater m y e \<noteq> 0)"
  by (auto simp: heap_cmp_def zero_extends_def not_greater_def fun_eq_iff)

lemma sort_append_greatest:
  "(\<And>x. x \<in> set xs \<Longrightarrow> x < e) \<Longrightarrow> mset ys = add_mset e (mset xs) \<Longrightarrow> sort ys = sort xs @ [e]"
  for e :: "'a::linorder"
  by (rule properties_for_sort) (auto simp: sorted_append intro: less_imp_le)

lemma total_block_size_nat: "unat sz + 25 < 2 ^ 64 \<Longrightarrow> unat (get_total_block_size sz) = unat sz + 25"
  using unat_offset [of 25 sz]
  by (simp add: get_total_block_size_def sizeof_footer_def sizeof_header_def)

lemma malloc_new_full:
  assumes "heap_inv h" "unat sz + 25 < 2 ^ 64" "HEAP_LIMIT < unat (h_addr h) + unat sz + 25"
  shows "malloc_new sz a h = Inl (Panic ''Heap Full or Expansion Failed'')"
proof -
  have "get_heap_free h < get_total_block_size sz"
    using heap_free_nat [OF assms(1)] total_block_size_nat [OF assms(2)] assms(1,3)
    by (simp add: word_less_nat_alt heap_inv_def)
  then show ?thesis by (simp add: malloc_new_def expand_heap_def)
qed

lemma malloc_new_ok:
  assumes inv: "heap_inv h" and a: "h_allocs h = Some a"
    and room: "unat (h_addr h) + unat sz + 25 \<le> HEAP_LIMIT"
  obtains f where
    "malloc_new sz a h = Inr (h_addr h + 13,
       h\<lparr>h_addr := h_addr h + sz + 13 + 12, h_mem := block_bytes (h_addr h) sz (h_mem h),
         h_allocs := Some (a\<lparr>oa_items := f, oa_idx := oa_idx a + 1\<rparr>)\<rparr>)"
    "oa_wf (a\<lparr>oa_items := f, oa_idx := oa_idx a + 1\<rparr>)"
    "oa_elems (a\<lparr>oa_items := f, oa_idx := oa_idx a + 1\<rparr>) =
       place (not_greater (block_bytes (h_addr h) sz (h_mem h)) a (h_addr h)) (h_addr h) (oa_elems a)"
    "unat (h_addr h + sz + 13 + 12) = unat (h_addr h) + 25 + unat sz"
proof -
  let ?b = "h_addr h" and ?m = "block_bytes (h_addr h) sz (h_mem h)"
  have lim: "unat ?b + unat sz + 25 < 2 ^ 64" using room by (simp add: heap_numbers)
  have "unat (?b + sz) = unat ?b + unat sz" using lim unat_offset [of ?b sz] by simp
  then have f: "unat (?b + sz + 13) = unat ?b + unat sz + 13"
    using lim unat_offset [of "?b + sz" 13] by simp
  then have e: "unat (?b + sz + 13 + 12) = unat ?b + 25 + unat sz"
    using lim unat_offset [of "?b + sz + 13" 12] by simp
  have free: "\<not> get_heap_free h < get_total_block_size sz"
    using heap_free_nat [OF inv] total_block_size_nat [of sz] lim room
    by (simp add: word_less_nat_alt)
  have block: "create_heap_block ?b sz h = Inr (?b + sz + 13 + 12, h\<lparr>h_mem := ?m\<rparr>)"
    using f room heap_end_nat [OF inv] by (simp add: create_heap_block_eq word_less_nat_alt)
  have wf: "oa_wf a" using inv a by (simp add: heap_inv_def)
  from oarray_insert_ok [OF wf heap_array_has_room [OF inv a], of ?m ?b] obtain f where
    ins: "oarray_insert ?m a ?b = Inr (?b, a\<lparr>oa_items := f, oa_idx := oa_idx a + 1\<rparr>)"
      "oa_elems (a\<lparr>oa_items := f, oa_idx := oa_idx a + 1\<rparr>) = place (not_greater ?m a ?b) ?b (oa_elems a)"
    by blast
  show thesis
    by (rule that [OF _ oa_wf_insert [OF wf heap_array_has_room [OF inv a]] ins(2) e])
      (use free block ins(1) in \<open>simp add: malloc_new_def sizeof_header_def Let_def\<close>)
qed

lemma malloc_new_inv:
  assumes inv: "heap_inv h" and a: "h_allocs h = Some a"
    and room: "unat (h_addr h) + unat sz + 25 \<le> HEAP_LIMIT"
  shows "\<exists>h'. malloc_new sz a h = Inr (h_addr h + 13, h') \<and> heap_inv h' \<and>
     h_mem h' = block_bytes (h_addr h) sz (h_mem h) \<and>
     mset (heap_blocks h') = add_mset (h_addr h) (mset (heap_blocks h)) \<and>
     (heap_cmp callp h \<longrightarrow> heap_cmp callp h') \<and>
     (heap_cmp callp h \<and> zero_extends callp \<and> heap_sorted h \<longrightarrow> heap_sorted h')"
proof -
  let ?b = "h_addr h" and ?m = "block_bytes (h_addr h) sz (h_mem h)"
  obtain f where f: "malloc_new sz a h = Inr (?b + 13,
       h\<lparr>h_addr := ?b + sz + 13 + 12, h_mem := ?m,
         h_allocs := Some (a\<lparr>oa_items := f, oa_idx := oa_idx a + 1\<rparr>)\<rparr>)"
    "oa_wf (a\<lparr>oa_items := f, oa_idx := oa_idx a + 1\<rparr>)"
    "oa_elems (a\<lparr>oa_items := f, oa_idx := oa_idx a + 1\<rparr>) = place (not_greater ?m a ?b) ?b (oa_elems a)"
    "unat (?b + sz + 13 + 12) = unat ?b + 25 + unat sz"
    using malloc_new_ok [OF assms] .
  let ?h = "h\<lparr>h_addr := ?b + sz + 13 + 12, h_mem := ?m,
         h_allocs := Some (a\<lparr>oa_items := f, oa_idx := oa_idx a + 1\<rparr>)\<rparr>"
  have blocks: "heap_blocks h = oa_elems a" "heap_blocks ?h = place (not_greater ?m a ?b) ?b (oa_elems a)"
    using a f(3) by (simp_all add: heap_blocks_def)
  have ms: "mset (heap_blocks ?h) = add_mset ?b (mset (heap_blocks h))"
    unfolding blocks by (rule mset_place)
  have chain: "chain (h_mem h) HEAP_BASE (sort (heap_blocks h)) (unat ?b)"
    using inv by (simp add: heap_inv_def)
  have lim: "unat ?b + 25 + unat sz < 2 ^ 64" using room by (simp add: heap_numbers)
  have "x < ?b" if "x \<in> set (heap_blocks h)" for x
    using heap_inv_block(1,3) [OF inv that] block_len_ge [of "h_mem h" x]
    by (simp add: word_less_nat_alt)
  from sort_append_greatest [OF this ms]
  have "chain ?m HEAP_BASE (sort (heap_blocks ?h)) (unat ?b + 25 + unat sz)"
    using chain_extend(1) [OF chain refl lim] by simp
  then have "heap_inv ?h"
    using inv a f(2,4) room by (simp add: heap_inv_def)
  moreover have "heap_sorted ?h" if cmp: "heap_cmp callp h" "zero_extends callp" and s: "heap_sorted h"
  proof -
    have sizes: "map (\<lambda>b. unat (hdr_block_size ?m b)) (oa_elems a) =
        map (\<lambda>b. unat (hdr_block_size (h_mem h) b)) (oa_elems a)"
      using chain_extend(2) [OF chain refl lim] blocks(1) by simp
    with s have "sorted (map (\<lambda>b. unat (hdr_block_size ?m b)) (oa_elems a))"
      by (simp only: heap_sorted_def blocks(1) sizes)
    from blk.place_sorted [OF this, of ?b] show ?thesis
      unfolding heap_sorted_def blocks(2) by (simp add: not_greater_cmp [OF cmp a])
  qed
  moreover have "heap_cmp callp h \<longrightarrow> heap_cmp callp ?h"
    using a by (simp add: heap_cmp_def)
  ultimately show ?thesis using f(1) ms by auto
qed

lemma available_soft: "block_ok m b \<Longrightarrow> unat x = unat b + 4 \<Longrightarrow> soft m b (unat x)"
  using block_len_ge [of m b] by (auto simp: soft_def hard_def)

lemma heap_soft_update:
  assumes inv: "heap_inv h" and b: "b \<in> set (heap_blocks h)"
    and same: "\<And>x. \<not> soft (h_mem h) b (unat x) \<Longrightarrow> h_mem h x = m' x"
  shows "heap_inv (h\<lparr>h_mem := m'\<rparr>)" "heap_sorted h \<Longrightarrow> heap_sorted (h\<lparr>h_mem := m'\<rparr>)"
    "c \<in> set (heap_blocks h) \<Longrightarrow> hdr_block_size m' c = hdr_block_size (h_mem h) c"
proof -
  have chain: "chain (h_mem h) HEAP_BASE (sort (heap_blocks h)) (unat (h_addr h))"
    "unat (h_addr h) \<le> 2 ^ 64"
    using inv less_imp_le [OF unat_lt_64 [of "h_addr h"]] by (auto simp: heap_inv_def)
  have b': "b \<in> set (sort (heap_blocks h))" using b by simp
  have blocks: "heap_blocks (h\<lparr>h_mem := m'\<rparr>) = heap_blocks h" by (simp add: heap_blocks_def)
  from chain_soft(1) [OF chain b' same] inv show "heap_inv (h\<lparr>h_mem := m'\<rparr>)"
    by (simp add: heap_inv_def blocks)
  show sizes: "hdr_block_size m' c = hdr_block_size (h_mem h) c" if "c \<in> set (heap_blocks h)" for c
    using chain_soft(2) [OF chain b' same, of c] that by simp
  have keys: "map (\<lambda>b. unat (hdr_block_size m' b)) (heap_blocks h) =
      map (\<lambda>b. unat (hdr_block_size (h_mem h) b)) (heap_blocks h)"
    using sizes by simp
  then show "heap_sorted (h\<lparr>h_mem := m'\<rparr>)" if "heap_sorted h"
    using that by (simp add: heap_sorted_def blocks keys del: map_eq_conv)
qed

lemma heap_set_available:
  assumes inv: "heap_inv h" and b: "b \<in> set (heap_blocks h)"
  shows "heap_inv (h\<lparr>h_mem := store8 (b + 4) v (h_mem h)\<rparr>)"
    "heap_sorted h \<Longrightarrow> heap_sorted (h\<lparr>h_mem := store8 (b + 4) v (h_mem h)\<rparr>)"
    "c \<in> set (heap_blocks h) \<Longrightarrow>
       hdr_block_size (store8 (b + 4) v (h_mem h)) c = hdr_block_size (h_mem h) c"
proof -
  note ok = heap_inv_block(1) [OF inv b]
  have "unat (b + 4) = unat b + 4"
    using heap_inv_block [OF inv b] block_len_ge [OF ok] unat_offset [of b 4]
    by (simp add: heap_numbers)
  then have "h_mem h x = store8 (b + 4) v (h_mem h) x" if "\<not> soft (h_mem h) b (unat x)" for x
    using available_soft [OF ok, of x] that by (auto simp: store8_def)
  from heap_soft_update [OF inv b this] show
    "heap_inv (h\<lparr>h_mem := store8 (b + 4) v (h_mem h)\<rparr>)"
    "heap_sorted h \<Longrightarrow> heap_sorted (h\<lparr>h_mem := store8 (b + 4) v (h_mem h)\<rparr>)"
    "c \<in> set (heap_blocks h) \<Longrightarrow>
       hdr_block_size (store8 (b + 4) v (h_mem h)) c = hdr_block_size (h_mem h) c" by auto
qed

text \<open>The bytes a client owns: between the header and the footer.\<close>

definition in_payload :: "mem \<Rightarrow> u64 \<Rightarrow> u64 \<Rightarrow> bool" where
  "in_payload m b x \<longleftrightarrow> unat b + 13 \<le> unat x \<and> unat x < unat b + block_len m b - 12"

lemma heap_client_write:
  assumes inv: "heap_inv h" and b: "b \<in> set (heap_blocks h)"
    and same: "\<And>x. \<not> in_payload (h_mem h) b x \<Longrightarrow> h_mem h x = m' x"
  shows "heap_inv (h\<lparr>h_mem := m'\<rparr>)" "heap_sorted h \<Longrightarrow> heap_sorted (h\<lparr>h_mem := m'\<rparr>)"
proof -
  have "soft (h_mem h) b (unat x)" if "in_payload (h_mem h) b x" for x
    using that by (auto simp: soft_def hard_def in_payload_def)
  then have "h_mem h x = m' x" if "\<not> soft (h_mem h) b (unat x)" for x using that same by blast
  from heap_soft_update [OF inv b this] show
    "heap_inv (h\<lparr>h_mem := m'\<rparr>)" "heap_sorted h \<Longrightarrow> heap_sorted (h\<lparr>h_mem := m'\<rparr>)" by auto
qed

lemma malloc_reuse_ok:
  assumes inv: "heap_inv h" and a: "h_allocs h = Some a" and k: "k < length (heap_blocks h)" "k < 262138"
  shows "malloc_reuse (of_nat k) a h =
    Inr (heap_blocks h ! k + 8, h\<lparr>h_mem := store8 (heap_blocks h ! k + 4) HEAP_HEAD_IN_USE (h_mem h)\<rparr>)"
proof -
  let ?b = "heap_blocks h ! k"
  have mem: "?b \<in> set (heap_blocks h)" using k(1) by simp
  have "oarray_get a (of_nat k) = Inr ?b"
    using oarray_get_ok [of a "of_nat k"] of_nat_not_none(2) [OF k(2)] k(1) inv a
    by (simp add: heap_inv_def heap_blocks_def)
  moreover have "hdr_crc (h_mem h) ?b = HEAP_CRC"
    using heap_inv_block(1) [OF inv mem] by (simp add: block_ok_def)
  ultimately show ?thesis using heap_inv_nonzero [OF inv mem] by (simp add: malloc_reuse_def)
qed

lemma kfree_block:
  assumes inv: "heap_inv h" and b: "b \<in> set (heap_blocks h)"
  shows "kfree (b + 13) h = Inr (None, h\<lparr>h_mem := store8 (b + 4) HEAP_HEAD_AVAILABLE (h_mem h)\<rparr>)"
proof -
  have "unat (b + 13) = unat b + 13"
    using heap_inv_block [OF inv b] block_len_ge [of "h_mem h" b] unat_offset [of b 13]
    by (simp add: heap_numbers)
  then have "b + 13 \<noteq> 0" by (metis add_is_0 unat_0 zero_neq_numeral)
  moreover have "b + 13 + hdr_block_size (h_mem h) b - 12 = b + 1 + hdr_block_size (h_mem h) b" by simp
  ultimately show ?thesis
    using heap_inv_block(1) [OF inv b]
    by (simp add: kfree_def free_impl_def Let_def sizeof_header_def sizeof_footer_def block_ok_def
        ac_simps)
qed

lemma fits_after_free:
  assumes "heap_inv h" "b \<in> set (heap_blocks h)" "sz \<le> hdr_block_size (h_mem h) b - 12"
  shows "fits sz (store8 (b + 4) HEAP_HEAD_AVAILABLE (h_mem h)) b"
  using heap_set_available(3) [OF assms(1,2,2)] assms(3)
  by (simp add: fits_def hdr_available_def sizeof_footer_def) (simp add: store8_def)

text \<open>The three outcomes of \<open>kmalloc\<close> for a size whose total does not wrap.\<close>

lemma kmalloc_cases:
  assumes inv: "heap_inv h" and sz: "unat sz + 25 < 2 ^ 64"
  obtains (reuse) k where "k < length (heap_blocks h)" "fits sz (h_mem h) (heap_blocks h ! k)"
      "\<forall>j < k. \<not> fits sz (h_mem h) (heap_blocks h ! j)"
      "kmalloc sz h = Inr (heap_blocks h ! k + 8,
         h\<lparr>h_mem := store8 (heap_blocks h ! k + 4) HEAP_HEAD_IN_USE (h_mem h)\<rparr>)"
    | (new) a where "\<forall>b\<in>set (heap_blocks h). \<not> fits sz (h_mem h) b" "h_allocs h = Some a"
      "unat (h_addr h) + unat sz + 25 \<le> HEAP_LIMIT" "kmalloc sz h = malloc_new sz a h"
    | (full) "\<forall>b\<in>set (heap_blocks h). \<not> fits sz (h_mem h) b"
      "HEAP_LIMIT < unat (h_addr h) + unat sz + 25"
      "kmalloc sz h = Inl (Panic ''Heap Full or Expansion Failed'')"
proof -
  obtain a where a: "h_allocs h = Some a" using heap_inv_allocs [OF inv] by blast
  from inv show thesis
  proof (cases rule: find_best_spec [of h sz])
    case none
    then have eq: "kmalloc sz h = malloc_new sz a h" by (simp add: kmalloc_def malloc_impl_def a)
    show thesis
    proof (cases "unat (h_addr h) + unat sz + 25 \<le> HEAP_LIMIT")
      case True
      with none a eq show thesis by (intro new)
    next
      case False
      then have lt: "HEAP_LIMIT < unat (h_addr h) + unat sz + 25" by simp
      show thesis
        by (rule full [OF none(2) lt]) (simp only: eq malloc_new_full [OF inv sz lt])
    qed
  next
    case (found k)
    then have "kmalloc sz h = malloc_reuse (of_nat k) a h"
      using of_nat_not_none(1) by (simp add: kmalloc_def malloc_impl_def a)
    with malloc_reuse_ok [OF inv a found(2,3)] found(2,4,5) show thesis by (intro reuse) simp_all
  qed
qed

section \<open>What the heap promises\<close>

text \<open>
  C7. A block \<open>kmalloc\<close> makes is fresh: from a heap that satisfies the invariant, when no free
  block fits and the region has room, \<open>kmalloc\<close> succeeds, keeps the invariant, and the returned
  payload lies inside the heap region, overlaps no existing block, and no byte below the new
  block or above it has changed, so no client data is touched.
\<close>
theorem kmalloc_fresh:
  assumes "heap_inv h" and "\<forall>b\<in>set (heap_blocks h). \<not> fits sz (h_mem h) b"
    and "unat (h_addr h) + unat sz + 25 \<le> HEAP_LIMIT"
  shows "\<exists>p h'. kmalloc sz h = Inr (p, h') \<and> heap_inv h' \<and>
     HEAP_BASE \<le> unat p \<and> unat p + unat sz < HEAP_LIMIT \<and>
     (\<forall>b\<in>set (heap_blocks h). unat b + block_len (h_mem h) b \<le> unat p) \<and>
     mset (heap_blocks h') = add_mset (p - 13) (mset (heap_blocks h)) \<and>
     (\<forall>x. unat x + 13 < unat p \<or> unat p + unat sz + 12 \<le> unat x \<longrightarrow> h_mem h' x = h_mem h x)"
proof -
  have lim: "unat sz + 25 < 2 ^ 64" and lim': "unat (h_addr h) + 25 + unat sz < 2 ^ 64"
    using assms(3) by (simp_all add: heap_numbers)
  from assms(1) lim obtain a where a: "h_allocs h = Some a" "kmalloc sz h = malloc_new sz a h"
    by (cases rule: kmalloc_cases) (use assms(2,3) in auto)
  from malloc_new_inv [OF assms(1) a(1) assms(3)] obtain h' where
    h': "malloc_new sz a h = Inr (h_addr h + 13, h')" "heap_inv h'"
      "h_mem h' = block_bytes (h_addr h) sz (h_mem h)"
      "mset (heap_blocks h') = add_mset (h_addr h) (mset (heap_blocks h))" by blast
  have p: "unat (h_addr h + 13) = unat (h_addr h) + 13" using lim' unat_offset [of "h_addr h" 13] by simp
  have "\<forall>b\<in>set (heap_blocks h). unat b + block_len (h_mem h) b \<le> unat (h_addr h + 13)"
    using heap_inv_block(3) [OF assms(1)] p by fastforce
  moreover have "\<forall>x. unat x + 13 < unat (h_addr h + 13) \<or> unat (h_addr h + 13) + unat sz + 12 \<le> unat x \<longrightarrow>
      h_mem h' x = h_mem h x"
    unfolding h'(3) p using block_bytes_new(5) [OF lim'] by simp
  ultimately show ?thesis
    using h' a(2) heap_inv_base [OF assms(1)] p assms(3)
    by (intro exI [of _ "h_addr h + 13"] exI [of _ h']) simp
qed

text \<open>
  C9. \<open>kfree\<close> undoes \<open>kmalloc\<close>: freeing the pointer of a new block passes every check, keeps
  the invariant, and changes only the \<open>available\<close> byte of that block, whose space is then
  what the next request of at most that size finds.
\<close>
theorem kmalloc_kfree:
  assumes "heap_inv h" and "\<forall>b\<in>set (heap_blocks h). \<not> fits sz (h_mem h) b"
    and "kmalloc sz h = Inr (p, h1)" and "unat sz + 25 < 2 ^ 64"
  shows "\<exists>h2. kfree p h1 = Inr (None, h2) \<and> heap_inv h2 \<and>
     heap_blocks h2 = heap_blocks h1 \<and> (\<forall>x. x \<noteq> p - 9 \<longrightarrow> h_mem h2 x = h_mem h1 x) \<and>
     (\<forall>sz' \<le> sz. fits sz' (h_mem h2) (p - 13))"
proof -
  from assms(1,4) obtain a where a: "h_allocs h = Some a" "kmalloc sz h = malloc_new sz a h"
    and room: "unat (h_addr h) + unat sz + 25 \<le> HEAP_LIMIT"
    by (cases rule: kmalloc_cases) (use assms(2,3) in auto)
  from malloc_new_inv [OF assms(1) a(1) room] assms(3) have
    h1: "p = h_addr h + 13" "heap_inv h1" "h_mem h1 = block_bytes (h_addr h) sz (h_mem h)"
      "mset (heap_blocks h1) = add_mset (h_addr h) (mset (heap_blocks h))" by (auto simp: a(2))
  let ?b = "h_addr h"
  let ?h2 = "h1\<lparr>h_mem := store8 (?b + 4) HEAP_HEAD_AVAILABLE (h_mem h1)\<rparr>"
  have "?b \<in># mset (heap_blocks h1)" unfolding h1(4) by simp
  then have b: "?b \<in> set (heap_blocks h1)" by simp
  have lim: "unat ?b + 25 + unat sz < 2 ^ 64" using room by (simp add: heap_numbers)
  have "hdr_block_size (h_mem h1) ?b - 12 = sz" using block_bytes_new(2) [OF lim] by (simp add: h1(3))
  then have "\<forall>sz' \<le> sz. fits sz' (h_mem ?h2) ?b"
    using fits_after_free [OF h1(2) b] by simp
  moreover have "heap_blocks ?h2 = heap_blocks h1" by (simp add: heap_blocks_def)
  ultimately show ?thesis
    using kfree_block [OF h1(2) b] heap_set_available(1) [OF h1(2) b]
    by (intro exI [of _ ?h2]) (simp add: h1(1) store8_def)
qed

section \<open>All reachable heaps\<close>

text \<open>
  What the kernel may do after \<open>kalloc_init\<close>: request a size whose total does not wrap, free
  the payload of a block, and write inside the payload of a block.
\<close>

inductive heap_reach :: "byte_call \<Rightarrow> kheap \<Rightarrow> bool" for callp where
  start: "heap_reach callp (kalloc_init callp f g (heap_boot m))"
| malloc: "heap_reach callp h \<Longrightarrow> unat sz + 25 < 2 ^ 64 \<Longrightarrow> kmalloc sz h = Inr (p, h') \<Longrightarrow>
     heap_reach callp h'"
| free: "heap_reach callp h \<Longrightarrow> b \<in> set (heap_blocks h) \<Longrightarrow> kfree (b + 13) h = Inr (r, h') \<Longrightarrow>
     heap_reach callp h'"
| client: "heap_reach callp h \<Longrightarrow> b \<in> set (heap_blocks h) \<Longrightarrow>
     \<forall>x. \<not> in_payload (h_mem h) b x \<longrightarrow> h_mem h x = m' x \<Longrightarrow> heap_reach callp (h\<lparr>h_mem := m'\<rparr>)"

lemma kalloc_init_inv:
  "heap_inv (kalloc_init callp f g h)" "heap_cmp callp (kalloc_init callp f g h)"
  "heap_sorted (kalloc_init callp f g h)"
proof -
  have "unat PAGE_SIZE = 2097152" by simp
  then have "oa_wf (oarray_init raw PAGE_SIZE f g c)"
    "unat (max_elements (oarray_init raw PAGE_SIZE f g c)) = 262138" for raw c
    using oa_wf_init [of PAGE_SIZE raw f g c] by (simp_all add: PAGE_SIZE_def)
  moreover have "oa_elems (oarray_init raw PAGE_SIZE f g c) = []" for raw c
    by (simp add: oa_elems_def oarray_init_def)
  moreover have "unat (HEAP_VIRT + PAGE_SIZE) = HEAP_BASE"
    by (simp add: HEAP_VIRT_def HEAP_BASE_def PAGE_SIZE_def)
  moreover have "HEAP_BASE \<le> HEAP_LIMIT" by (simp add: heap_numbers)
  ultimately show "heap_inv (kalloc_init callp f g h)" "heap_sorted (kalloc_init callp f g h)"
    by (simp_all add: heap_inv_def heap_sorted_def kalloc_init_def kmalloc_bootstrap_def Let_def
        heap_blocks_def)
  show "heap_cmp callp (kalloc_init callp f g h)"
    by (simp add: heap_cmp_def kalloc_init_def kmalloc_bootstrap_def Let_def oarray_init_def)
qed

lemma heap_cmp_mem: "heap_cmp callp (h\<lparr>h_mem := m\<rparr>) = heap_cmp callp h"
  by (simp add: heap_cmp_def)

lemma heap_reach_inv:
  "heap_reach callp h \<Longrightarrow> heap_inv h \<and> heap_cmp callp h \<and> (zero_extends callp \<longrightarrow> heap_sorted h)"
proof (induction rule: heap_reach.induct)
  case (start f g m)
  show ?case using kalloc_init_inv by blast
next
  case (malloc h sz p h')
  then have inv: "heap_inv h" by simp
  from inv malloc.hyps(2) show ?case
  proof (cases rule: kmalloc_cases)
    case (reuse k)
    then have "heap_blocks h ! k \<in> set (heap_blocks h)" by simp
    from heap_set_available [OF inv this, where v = HEAP_HEAD_IN_USE] reuse(4) malloc show ?thesis
      by (auto simp: heap_cmp_mem)
  next
    case (new a)
    from malloc_new_inv [OF inv new(2,3), of callp] new(4) malloc show ?thesis by auto
  qed (use malloc in simp)
next
  case (free h b r h')
  then have inv: "heap_inv h" by simp
  from heap_set_available [OF inv free.hyps(2), where v = HEAP_HEAD_AVAILABLE]
    kfree_block [OF inv free.hyps(2)] free show ?case by (auto simp: heap_cmp_mem)
next
  case (client h b m')
  then show ?case using heap_client_write [of h b m'] by (auto simp: heap_cmp_mem)
qed


text \<open>
  Best fit: if the comparator's byte reaches the caller extended by zeros, a request that
  some free block satisfies takes the smallest of the free blocks that satisfy it, in every
  reachable heap.
\<close>
lemma kmalloc_best_fit:
  assumes "heap_reach callp h" and "zero_extends callp" and "unat sz + 25 < 2 ^ 64"
    and "c \<in> set (heap_blocks h)" and "fits sz (h_mem h) c"
  shows "\<exists>b\<in>set (heap_blocks h). fits sz (h_mem h) b \<and>
     (\<forall>d\<in>set (heap_blocks h). fits sz (h_mem h) d \<longrightarrow>
        unat (hdr_block_size (h_mem h) b) \<le> unat (hdr_block_size (h_mem h) d)) \<and>
     kmalloc sz h = Inr (b + 8, h\<lparr>h_mem := store8 (b + 4) HEAP_HEAD_IN_USE (h_mem h)\<rparr>)"
proof -
  have inv: "heap_inv h" and s: "heap_sorted h"
    using heap_reach_inv [OF assms(1)] assms(2) by auto
  from inv assms(3) obtain k where k: "k < length (heap_blocks h)"
    "fits sz (h_mem h) (heap_blocks h ! k)" "\<forall>j < k. \<not> fits sz (h_mem h) (heap_blocks h ! j)"
    "kmalloc sz h = Inr (heap_blocks h ! k + 8,
       h\<lparr>h_mem := store8 (heap_blocks h ! k + 4) HEAP_HEAD_IN_USE (h_mem h)\<rparr>)"
    by (cases rule: kmalloc_cases) (use assms(4,5) in auto)
  have "unat (hdr_block_size (h_mem h) (heap_blocks h ! k)) \<le> unat (hdr_block_size (h_mem h) d)"
    if d: "d \<in> set (heap_blocks h)" "fits sz (h_mem h) d" for d
  proof -
    obtain j where j: "j < length (heap_blocks h)" "d = heap_blocks h ! j"
      using d(1) by (metis in_set_conv_nth)
    show ?thesis
      using blk.first_fit_is_best [OF s [unfolded heap_sorted_def] k(1), of "fits sz (h_mem h)" j]
        k(3) d j by simp
  qed
  with k show ?thesis by (intro bexI [of _ "heap_blocks h ! k"]) auto
qed

section \<open>A reused block\<close>

lemma chain_predecessor:
  assumes "chain m a bs e" "b \<in> set bs" "unat b \<noteq> a"
  shows "\<exists>c\<in>set bs. unat c + block_len m c = unat b"
  using assms
proof (induction bs arbitrary: a)
  case (Cons x xs)
  then have tail: "chain m (a + block_len m x) xs e" and x: "unat x = a" by auto
  show ?case
  proof (cases "unat b = a + block_len m x")
    case True
    with x show ?thesis by auto
  next
    case False
    then show ?thesis using Cons.IH [OF tail] Cons.prems x by auto
  qed
qed simp

lemma kfree_eq:
  assumes "addr \<noteq> 0" "hdr_crc (h_mem h) (addr - 13) \<noteq> HEAP_CRC"
  shows "kfree addr h = Inl (Assertion ''header->crc == footer->crc && header->crc == HEAP_CRC'')"
  using assms by (auto simp: kfree_def free_impl_def sizeof_header_def Let_def)

text \<open>Eight bytes into a block, the allocator would read its predecessor's footer as a header.\<close>

lemma kfree_reused:
  assumes inv: "heap_inv h" and b: "b \<in> set (heap_blocks h)" "unat b \<noteq> HEAP_BASE"
  shows "kfree (b + 8) h = Inl (Assertion ''header->crc == footer->crc && header->crc == HEAP_CRC'')"
proof (rule kfree_eq)
  have "chain (h_mem h) HEAP_BASE (sort (heap_blocks h)) (unat (h_addr h))"
    using inv by (simp add: heap_inv_def)
  from chain_predecessor [OF this, of b] b obtain c where
    c: "c \<in> set (heap_blocks h)" "unat c + block_len (h_mem h) c = unat b" by auto
  note ok = heap_inv_block [OF inv c(1)] and bok = heap_inv_block [OF inv b(1)]
  have bs: "unat b = unat c + (13 + unat (hdr_block_size (h_mem h) c))"
    using c(2) by (simp add: block_len_def)
  have "b = of_nat (unat c + (13 + unat (hdr_block_size (h_mem h) c)))"
    unfolding bs [symmetric] by simp
  then have "b = c + 13 + hdr_block_size (h_mem h) c" by simp
  then have "b - 8 = c + 1 + hdr_block_size (h_mem h) c + 4" by simp
  then have ptr: "load64 (h_mem h) (b - 8) = c"
    using ok(1) by (simp add: block_ok_def ftr_header_def Let_def)
  have "b + 8 - 13 = b - 8 + of_nat 3" by simp
  then have "hdr_crc (h_mem h) (b + 8 - 13) = ucast (drop_bit 24 c)"
    using load32_in_load64 [of 3 "h_mem h" "b - 8"] by (simp only: hdr_crc_def ptr) simp
  moreover have "unat (ucast (drop_bit 24 c) :: u32) = 0xFFFFFFB0"
  proof -
    have lo: "HEAP_BASE \<le> unat c" "unat c < HEAP_LIMIT"
      using ok block_len_ge [OF ok(1)] by auto
    have "unat (drop_bit 24 c) = unat c div 16777216"
      by (simp add: drop_bit_eq_div unat_div_distrib)
    also have "\<dots> = 0xFFFFFFFFB0" using lo unfolding heap_numbers by linarith
    finally show ?thesis
      by (simp add: unsigned_ucast_eq take_bit_nat_def)
  qed
  ultimately have "unat (hdr_crc (h_mem h) (b + 8 - 13)) = 0xFFFFFFB0" by simp
  then show "hdr_crc (h_mem h) (b + 8 - 13) \<noteq> HEAP_CRC" by (auto simp: HEAP_CRC_def)
  have "unat (b + 8) = unat b + 8"
    using bok block_len_ge [OF bok(1)] unat_offset [of b 8] by (simp add: heap_numbers)
  then show "b + 8 \<noteq> 0" by (metis add_is_0 unat_0 zero_neq_numeral)
qed


section \<open>Sizes that wrap\<close>

text \<open>
  The total size is computed in 64 bits: a request within 25 bytes of \<open>2^64\<close> wraps to a total
  below 25 bytes, so instead of the heap-full panic it succeeds, and the heap grows by less than
  a header and a footer for a payload of almost \<open>2^64\<close> bytes.
\<close>
theorem kmalloc_size_wraps:
  assumes "heap_inv h" and "2 ^ 64 \<le> unat sz + 25" and "\<forall>b\<in>set (heap_blocks h). \<not> fits sz (h_mem h) b"
    and "unat (h_addr h) + 25 < HEAP_LIMIT"
  shows "\<exists>h'. kmalloc sz h = Inr (h_addr h + 13, h') \<and> h_addr h' = h_addr h + sz + 25 \<and>
     unat (h_addr h') < unat (h_addr h) + 25"
proof -
  let ?b = "h_addr h" and ?m = "block_bytes (h_addr h) sz (h_mem h)"
  obtain a where a: "h_allocs h = Some a" "oa_wf a" using heap_inv_allocs [OF assms(1)] by blast
  from assms(1) have none: "find_best_free_space sz h = Inr FREE_SPACE_NONE"
    by (cases rule: find_best_spec [of h sz]) (use assms(3) in auto)
  have base: "HEAP_BASE \<le> unat ?b" using heap_inv_base [OF assms(1)] by simp
  define k where "k = unat (sz + 25)"
  have "unat sz < 2 ^ 64" by (rule unat_lt_64)
  then have k: "k + 2 ^ 64 = unat sz + 25" "k < 25"
    using assms(2) by (simp_all add: k_def unat_plus_if')
  have sz: "sz + 25 = of_nat k" by (simp add: k_def)
  have e: "?b + sz + 25 = ?b + of_nat k" by (simp add: add.assoc sz)
  have ue: "unat (?b + of_nat k) = unat ?b + k"
    by (rule unat_add_of_nat) (use assms(4) k heap_numbers in simp)
  have eq: "?b + sz + 13 = ?b + of_nat k - 12" by (simp add: algebra_simps flip: sz)
  have "unat (?b + sz + 13) = unat ?b + k - 12"
    unfolding eq using ue base by (simp add: unat_sub word_le_nat_alt heap_numbers)
  then have ft: "?b + sz + 13 < get_heap_end h"
    using heap_end_nat [OF assms(1)] assms(4) k by (simp add: word_less_nat_alt del: add.assoc)
  have "get_total_block_size sz = of_nat k"
    by (simp add: get_total_block_size_def sizeof_footer_def sizeof_header_def add.commute flip: sz)
  moreover have "unat (of_nat k :: u64) = k" using k by (simp add: unat_of_nat_small)
  ultimately have free: "\<not> get_heap_free h < get_total_block_size sz"
    using heap_free_nat [OF assms(1)] assms(4) k by (simp add: word_less_nat_alt)
  from oarray_insert_ok [OF a(2) heap_array_has_room [OF assms(1) a(1)], of ?m ?b] obtain f where
    "oarray_insert ?m a ?b = Inr (?b, a\<lparr>oa_items := f, oa_idx := oa_idx a + 1\<rparr>)" by blast
  then have "kmalloc sz h = Inr (?b + 13, h\<lparr>h_mem := ?m, h_addr := ?b + sz + 13 + 12,
      h_allocs := Some (a\<lparr>oa_items := f, oa_idx := oa_idx a + 1\<rparr>)\<rparr>)"
    using none a free ft
    by (simp add: kmalloc_def malloc_impl_def malloc_new_def create_heap_block_eq sizeof_header_def Let_def)
  moreover have "?b + sz + 13 + 12 = ?b + sz + 25" by simp
  ultimately show ?thesis using e ue k by simp
qed

section \<open>Witnesses\<close>

definition demo_call :: byte_call where "demo_call = (\<lambda>m a b r. if r = 0 then 0 else 1)"

definition demo_heap :: kheap where "demo_heap = kalloc_init demo_call 1 2 (heap_boot (\<lambda>_. 0))"

lemma demo_call_zero_extends: "zero_extends demo_call"
  by (simp add: zero_extends_def demo_call_def)

lemma demo_heap_facts:
  "heap_reach demo_call demo_heap" "heap_inv demo_heap" "heap_blocks demo_heap = []"
  "unat (h_addr demo_heap) = HEAP_BASE"
  using heap_reach.start [of demo_call 1 2 "\<lambda>_. 0"] kalloc_init_inv(1) [of demo_call 1 2]
  by (simp_all add: demo_heap_def heap_blocks_def kalloc_init_def kmalloc_bootstrap_def Let_def
      oa_elems_def oarray_init_def heap_numbers HEAP_VIRT_def PAGE_SIZE_def)

text \<open>A heap with one block of 512 bytes, freed.\<close>

lemma demo_freed:
  obtains h where "heap_reach demo_call h" "heap_inv h" "heap_blocks h = [h_addr demo_heap]"
    "fits 256 (h_mem h) (h_addr demo_heap)"
proof -
  let ?b = "h_addr demo_heap"
  have sz: "unat (512 :: u64) + 25 < 2 ^ 64" by simp
  obtain a where a: "h_allocs demo_heap = Some a" "kmalloc 512 demo_heap = malloc_new 512 a demo_heap"
    using demo_heap_facts(2) sz
    by (cases rule: kmalloc_cases) (use demo_heap_facts(3,4) in \<open>auto simp: heap_numbers\<close>)
  have "unat ?b + unat (512 :: u64) + 25 \<le> HEAP_LIMIT" using demo_heap_facts(4) by (simp add: heap_numbers)
  from malloc_new_inv [OF demo_heap_facts(2) a(1) this] obtain h1 where
    h1: "malloc_new 512 a demo_heap = Inr (?b + 13, h1)" "heap_inv h1"
      "h_mem h1 = block_bytes ?b 512 (h_mem demo_heap)" "mset (heap_blocks h1) = {#?b#}"
    using demo_heap_facts(3) by auto
  have blocks: "heap_blocks h1 = [?b]" using h1(4) by (metis mset_single_iff_right)
  then have b: "?b \<in> set (heap_blocks h1)" by simp
  let ?h2 = "h1\<lparr>h_mem := store8 (?b + 4) HEAP_HEAD_AVAILABLE (h_mem h1)\<rparr>"
  have "heap_reach demo_call h1"
    by (rule heap_reach.malloc [OF demo_heap_facts(1) sz]) (use a(2) h1(1) in simp)
  then have "heap_reach demo_call ?h2" by (rule heap_reach.free [OF _ b kfree_block [OF h1(2) b]])
  moreover have "hdr_block_size (h_mem h1) ?b = 524"
    unfolding h1(3) by (subst block_bytes_new(2)) (simp_all add: demo_heap_facts(4) heap_numbers)
  then have "fits 256 (h_mem ?h2) ?b" using fits_after_free [OF h1(2) b, of 256] by simp
  ultimately show thesis
    using that [of ?h2] heap_set_available(1) [OF h1(2) b] blocks by (simp add: heap_blocks_def)
qed

theorem kmalloc_fresh_witness:
  "\<exists>p h'. kmalloc 512 demo_heap = Inr (p, h') \<and> heap_inv h' \<and> HEAP_BASE \<le> unat p"
  using kmalloc_fresh [OF demo_heap_facts(2), of 512] demo_heap_facts(3,4)
  by (auto simp: heap_numbers)

theorem kmalloc_kfree_witness:
  "\<exists>p h1 h2. kmalloc 512 demo_heap = Inr (p, h1) \<and> kfree p h1 = Inr (None, h2) \<and>
     fits 512 (h_mem h2) (p - 13)"
proof -
  have sz: "unat (512 :: u64) + 25 < 2 ^ 64" by simp
  obtain p h1 where k: "kmalloc 512 demo_heap = Inr (p, h1)"
    using demo_heap_facts(2) sz
  proof (cases rule: kmalloc_cases)
    case (new a)
    from malloc_new_inv [OF demo_heap_facts(2) new(2,3)] new(4) that show ?thesis by auto
  qed (use demo_heap_facts(3,4) in \<open>auto simp: heap_numbers\<close>)
  show ?thesis
    using kmalloc_kfree [OF demo_heap_facts(2) _ k sz] demo_heap_facts(3) k by auto
qed



theorem kmalloc_size_wraps_witness:
  "\<exists>h'. kmalloc (- 1) demo_heap = Inr (h_addr demo_heap + 13, h') \<and> h_addr h' = h_addr demo_heap + 24"
proof -
  have "unat (- 1 :: u64) + 25 = 2 ^ 64 + 24"
    by (simp add: unsigned_minus_1_eq_mask mask_eq_exp_minus_1)
  then have "2 ^ 64 \<le> unat (- 1 :: u64) + 25" by simp
  from kmalloc_size_wraps [OF demo_heap_facts(2) this] show ?thesis
    using demo_heap_facts(3,4) by (auto simp: heap_numbers)
qed

end
