(* ===== verification/HeapSpec.thy ===== *)
theory HeapSpec
  imports KHeap
begin

text \<open>
  What the kernel heap of \<^verbatim>\<open>kalloc.c\<close> is for its clients: a map from blocks to their size and whether
  they are free, and the top of the used region. Its steps are the abstract specification the
  allocator refines.
\<close>

section \<open>The specification\<close>

type_synonym heap_view = "(u64 \<rightharpoonup> nat \<times> bool) \<times> nat"

datatype heap_op = Malloc nat | Free u64

datatype heap_out = Reused u64 | Made u64 | Full | Freed

text \<open>The smallest free block that fits is reused; without one a block is made at the top, if there is room.\<close>

inductive heap_step :: "heap_view \<Rightarrow> heap_op \<Rightarrow> heap_out \<Rightarrow> heap_view \<Rightarrow> bool" where
  reuse: "V b = Some (n, True) \<Longrightarrow> sz \<le> n \<Longrightarrow> \<forall>c k. V c = Some (k, True) \<and> sz \<le> k \<longrightarrow> n \<le> k \<Longrightarrow>
    heap_step (V, t) (Malloc sz) (Reused b) (V(b \<mapsto> (n, False)), t)"
| make: "\<forall>c k. V c = Some (k, True) \<longrightarrow> k < sz \<Longrightarrow> t + sz + 25 \<le> HEAP_LIMIT \<Longrightarrow> V b = None \<Longrightarrow> unat b = t \<Longrightarrow>
    heap_step (V, t) (Malloc sz) (Made b) (V(b \<mapsto> (sz, False)), t + sz + 25)"
| full: "\<forall>c k. V c = Some (k, True) \<longrightarrow> k < sz \<Longrightarrow> HEAP_LIMIT < t + sz + 25 \<Longrightarrow>
    heap_step (V, t) (Malloc sz) Full (V, t)"
| free: "V b = Some (n, u) \<Longrightarrow> heap_step (V, t) (Free b) Freed (V(b \<mapsto> (n, True)), t)"

inductive_cases heap_step_fullE: "heap_step (V, t) (Malloc sz) Full w"
inductive_cases heap_step_madeE: "heap_step (V, t) (Malloc sz) (Made b) w"

section \<open>The view of a heap\<close>

definition blocks_view :: "kheap \<Rightarrow> u64 \<rightharpoonup> nat \<times> bool" where
  "blocks_view h b = (if b \<in> set (heap_blocks h)
     then Some (unat (hdr_block_size (h_mem h) b) - 12, hdr_available (h_mem h) b = HEAP_HEAD_AVAILABLE) else None)"

definition heap_view :: "kheap \<Rightarrow> heap_view" where "heap_view h = (blocks_view h, unat (h_addr h))"

lemma fits_view:
  assumes "heap_inv h" "b \<in> set (heap_blocks h)"
  shows "fits sz (h_mem h) b \<longleftrightarrow> (\<exists>n. blocks_view h b = Some (n, True) \<and> unat sz \<le> n)"
proof -
  have "12 \<le> unat (hdr_block_size (h_mem h) b)" using heap_inv_block(1) [OF assms] by (simp add: block_ok_def)
  then have "unat (hdr_block_size (h_mem h) b - 12) = unat (hdr_block_size (h_mem h) b) - 12"
    by (subst unat_sub) (simp_all add: word_le_nat_alt)
  then show ?thesis using assms(2)
    by (auto simp: fits_def blocks_view_def sizeof_footer_def word_le_nat_alt)
qed

lemma no_fit_view:
  assumes "heap_inv h"
  shows "(\<forall>b\<in>set (heap_blocks h). \<not> fits sz (h_mem h) b) \<longleftrightarrow> (\<forall>c k. blocks_view h c = Some (k, True) \<longrightarrow> k < unat sz)"
proof -
  have "blocks_view h c = Some (k, True) \<Longrightarrow> c \<in> set (heap_blocks h)" for c k by (simp add: blocks_view_def split: if_splits)
  then show ?thesis using fits_view [OF assms] by (meson not_le)
qed

lemma available_view:
  assumes inv: "heap_inv h" and b: "b \<in> set (heap_blocks h)"
  shows "blocks_view (h\<lparr>h_mem := store8 (b + 4) v (h_mem h)\<rparr>) =
    (blocks_view h)(b \<mapsto> (unat (hdr_block_size (h_mem h) b) - 12, v = HEAP_HEAD_AVAILABLE))"
proof
  fix c
  let ?m = "store8 (b + 4) v (h_mem h)"
  have "hdr_available ?m c = (if c = b then v else hdr_available (h_mem h) c)" by (simp add: hdr_available_def store8_def)
  moreover have "c \<in> set (heap_blocks h) \<Longrightarrow> hdr_block_size ?m c = hdr_block_size (h_mem h) c"
    using heap_set_available(3) [OF inv b] .
  moreover have "heap_blocks (h\<lparr>h_mem := ?m\<rparr>) = heap_blocks h" by (simp add: heap_blocks_def)
  ultimately show "blocks_view (h\<lparr>h_mem := ?m\<rparr>) c =
      ((blocks_view h)(b \<mapsto> (unat (hdr_block_size (h_mem h) b) - 12, v = HEAP_HEAD_AVAILABLE))) c"
    using b by (cases "c = b") (simp_all add: blocks_view_def)
qed

lemma below_top:
  assumes "heap_inv h" "c \<in> set (heap_blocks h)"
  shows "unat c + 25 \<le> unat (h_addr h)" "unat (h_addr h) < 2 ^ 64" "unat (c + 4) = unat c + 4"
proof -
  show a: "unat c + 25 \<le> unat (h_addr h)" using heap_inv_block(1,3) [OF assms] block_len_ge [of "h_mem h" c] by linarith
  show t: "unat (h_addr h) < 2 ^ 64" by (rule unat_lt_64)
  show "unat (c + 4) = unat c + 4" using a t unat_offset [of c 4] by simp
qed

lemma new_view:
  assumes inv: "heap_inv h" and room: "unat (h_addr h) + unat sz + 25 \<le> HEAP_LIMIT"
    and mem: "h_mem h' = block_bytes (h_addr h) sz (h_mem h)"
    and bl: "mset (heap_blocks h') = add_mset (h_addr h) (mset (heap_blocks h))"
  shows "blocks_view h' = (blocks_view h)(h_addr h \<mapsto> (unat sz, False))"
proof
  fix c
  let ?b = "h_addr h"
  have lim: "unat ?b + 25 + unat sz < 2 ^ 64" using room by (simp add: heap_numbers)
  have chain: "chain (h_mem h) HEAP_BASE (sort (heap_blocks h)) (unat ?b)" using inv by (simp add: heap_inv_def)
  have set: "set (heap_blocks h') = insert ?b (set (heap_blocks h))" using arg_cong [OF bl, of set_mset] by simp
  show "blocks_view h' c = ((blocks_view h)(?b \<mapsto> (unat sz, False))) c"
  proof (cases "c = ?b")
    case True
    have "unat (sz + 12) = unat sz + 12" using lim unat_offset [of sz 12] by simp
    then show ?thesis using True block_bytes_new(2,3) [OF lim]
      by (simp add: blocks_view_def set mem HEAP_HEAD_IN_USE_def HEAP_HEAD_AVAILABLE_def)
  next
    case False
    have "hdr_block_size (h_mem h') c = hdr_block_size (h_mem h) c" "hdr_available (h_mem h') c = hdr_available (h_mem h) c"
      if c: "c \<in> set (heap_blocks h)"
    proof -
      show "hdr_block_size (h_mem h') c = hdr_block_size (h_mem h) c"
        unfolding mem by (rule chain_extend(2) [OF chain refl lim]) (use c in simp)
      have "unat (c + 4) < unat ?b" using below_top [OF inv c] by linarith
      then show "hdr_available (h_mem h') c = hdr_available (h_mem h) c"
        unfolding mem hdr_available_def by (intro block_bytes_new(5) [OF lim]) blast
    qed
    then show ?thesis using False by (simp add: blocks_view_def set)
  qed
qed

lemma client_view:
  assumes inv: "heap_inv h" and b: "b \<in> set (heap_blocks h)" and same: "\<forall>x. \<not> in_payload (h_mem h) b x \<longrightarrow> m' x = h_mem h x"
  shows "heap_view (h\<lparr>h_mem := m'\<rparr>) = heap_view h"
proof -
  have "hdr_block_size m' c = hdr_block_size (h_mem h) c" "hdr_available m' c = hdr_available (h_mem h) c"
    if c: "c \<in> set (heap_blocks h)" for c
  proof -
    have "soft (h_mem h) b (unat x)" if "in_payload (h_mem h) b x" for x
      using that by (auto simp: soft_def hard_def in_payload_def)
    then have "h_mem h x = m' x" if "\<not> soft (h_mem h) b (unat x)" for x using that same by metis
    from heap_soft_update(3) [OF inv b this c] show "hdr_block_size m' c = hdr_block_size (h_mem h) c" .
    have chain: "chain (h_mem h) HEAP_BASE (sort (heap_blocks h)) (unat (h_addr h))" using inv by (simp add: heap_inv_def)
    have "\<not> in_payload (h_mem h) b (c + 4)"
    proof (cases "c = b")
      case True
      then show ?thesis using below_top(3) [OF inv b] by (simp add: in_payload_def)
    next
      case False
      then show ?thesis
        using chain_disjoint [OF chain, of b c] b c below_top(3) [OF inv c] heap_inv_block(1) [OF inv c]
          block_len_ge [of "h_mem h" c] by (auto simp: in_payload_def)
    qed
    then show "hdr_available m' c = hdr_available (h_mem h) c" using same by (simp add: hdr_available_def)
  qed
  moreover have "heap_blocks (h\<lparr>h_mem := m'\<rparr>) = heap_blocks h" by (simp add: heap_blocks_def)
  ultimately have "blocks_view (h\<lparr>h_mem := m'\<rparr>) c = blocks_view h c" for c by (simp add: blocks_view_def)
  then have "blocks_view (h\<lparr>h_mem := m'\<rparr>) = blocks_view h" by (rule ext)
  then show ?thesis by (simp add: heap_view_def)
qed

section \<open>Refinement\<close>

lemma kmalloc_step:
  assumes "heap_reach callp h" "zero_extends callp" "unat sz + 25 < 2 ^ 64"
  shows "case kmalloc sz h of
      Inl e \<Rightarrow> e = Panic ''Heap Full or Expansion Failed'' \<and> heap_step (heap_view h) (Malloc (unat sz)) Full (heap_view h)
    | Inr (p, h') \<Rightarrow> heap_step (heap_view h) (Malloc (unat sz)) (Reused (p - 8)) (heap_view h') \<or>
        heap_step (heap_view h) (Malloc (unat sz)) (Made (p - 13)) (heap_view h')"
proof -
  have inv: "heap_inv h" using heap_reach_inv [OF assms(1)] by simp
  show ?thesis
  proof (cases "\<exists>c\<in>set (heap_blocks h). fits sz (h_mem h) c")
    case True
    then obtain c where c: "c \<in> set (heap_blocks h)" "fits sz (h_mem h) c" by blast
    from kmalloc_best_fit [OF assms c] obtain b where b: "b \<in> set (heap_blocks h)" "fits sz (h_mem h) b"
      "\<forall>d\<in>set (heap_blocks h). fits sz (h_mem h) d \<longrightarrow> unat (hdr_block_size (h_mem h) b) \<le> unat (hdr_block_size (h_mem h) d)"
      "kmalloc sz h = Inr (b + 8, h\<lparr>h_mem := store8 (b + 4) HEAP_HEAD_IN_USE (h_mem h)\<rparr>)" by blast
    let ?n = "unat (hdr_block_size (h_mem h) b) - 12"
    have n: "blocks_view h b = Some (?n, True)" "unat sz \<le> ?n"
      using b(1,2) fits_view [OF inv b(1), of sz] by (auto simp: blocks_view_def)
    have least: "\<forall>d k. blocks_view h d = Some (k, True) \<and> unat sz \<le> k \<longrightarrow> ?n \<le> k"
    proof (intro allI impI)
      fix d k assume d: "blocks_view h d = Some (k, True) \<and> unat sz \<le> k"
      then have m: "d \<in> set (heap_blocks h)" "k = unat (hdr_block_size (h_mem h) d) - 12"
        by (auto simp: blocks_view_def split: if_splits)
      then have "fits sz (h_mem h) d" using d fits_view [OF inv m(1)] by blast
      then have "unat (hdr_block_size (h_mem h) b) \<le> unat (hdr_block_size (h_mem h) d)" using b(3) m(1) by blast
      then show "?n \<le> k" using m(2) by simp
    qed
    have "heap_view (h\<lparr>h_mem := store8 (b + 4) HEAP_HEAD_IN_USE (h_mem h)\<rparr>) = ((blocks_view h)(b \<mapsto> (?n, False)), unat (h_addr h))"
      unfolding heap_view_def available_view [OF inv b(1)] by (simp add: HEAP_HEAD_IN_USE_def HEAP_HEAD_AVAILABLE_def)
    then show ?thesis using heap_step.reuse [OF n least] b(4) by (simp add: heap_view_def)
  next
    case False
    then have no: "\<forall>c k. blocks_view h c = Some (k, True) \<longrightarrow> k < unat sz" using no_fit_view [OF inv] by blast
    from inv assms(3) show ?thesis
    proof (cases rule: kmalloc_cases)
      case (new a)
      from malloc_new_ok [OF inv new(2,3)] obtain f where f: "malloc_new sz a h = Inr (h_addr h + 13,
           h\<lparr>h_addr := h_addr h + sz + 13 + 12, h_mem := block_bytes (h_addr h) sz (h_mem h),
             h_allocs := Some (a\<lparr>oa_items := f, oa_idx := oa_idx a + 1\<rparr>)\<rparr>)" (is "_ = Inr (_, ?h)")
        "unat (h_addr h + sz + 13 + 12) = unat (h_addr h) + 25 + unat sz" by blast
      from malloc_new_inv [OF inv new(2,3)] f(1) have bl: "mset (heap_blocks ?h) = add_mset (h_addr h) (mset (heap_blocks h))"
        by (auto simp only: sum.inject prod.inject)
      have top: "unat (h_addr ?h) = unat (h_addr h) + unat sz + 25" using f(2) by simp
      have fresh: "blocks_view h (h_addr h) = None" using below_top(1) [OF inv, of "h_addr h"] by (auto simp: blocks_view_def)
      have view: "blocks_view ?h = (blocks_view h)(h_addr h \<mapsto> (unat sz, False))"
        by (rule new_view [OF inv new(3) _ bl]) simp
      have "heap_step (heap_view h) (Malloc (unat sz)) (Made (h_addr h)) (heap_view ?h)"
        unfolding heap_view_def view top by (rule heap_step.make [OF no new(3) fresh refl])
      moreover have "kmalloc sz h = Inr (h_addr h + 13, ?h)" using new(4) f(1) by (rule trans)
      moreover have "h_addr h + 13 - 13 = h_addr h" by simp
      ultimately show ?thesis by (simp only: sum.case prod.case simp_thms)
    next
      case full
      then show ?thesis using heap_step.full [OF no] by (simp add: heap_view_def)
    next
      case (reuse k)
      then show ?thesis using False by (meson nth_mem)
    qed
  qed
qed


section \<open>Witness\<close>


end
