(* ===== verification/MemOps.thy ===== *)
theory MemOps
  imports Prelude
begin

text \<open>
  \<^verbatim>\<open>src/kstdlib/memory.c\<close>: \<open>memcpy\<close> and \<open>memset\<close> as the byte loops they are, and what they do
  to the memory.
\<close>

fun memcpy_loop :: "u64 \<Rightarrow> u64 \<Rightarrow> nat \<Rightarrow> mem \<Rightarrow> mem" where
  "memcpy_loop d s 0 m = m"
| "memcpy_loop d s (Suc n) m = memcpy_loop (d + 1) (s + 1) n (store8 d (m s) m)"

definition memcpy :: "u64 \<Rightarrow> u64 \<Rightarrow> u64 \<Rightarrow> mem \<Rightarrow> u64 \<times> mem" where
  "memcpy dest src n m = (dest, memcpy_loop dest src (unat n) m)"

fun memset_loop :: "u64 \<Rightarrow> u8 \<Rightarrow> nat \<Rightarrow> mem \<Rightarrow> mem" where
  "memset_loop d v 0 m = m"
| "memset_loop d v (Suc n) m = memset_loop (d + 1) v n (store8 d v m)"

definition memset :: "u64 \<Rightarrow> u8 \<Rightarrow> u64 \<Rightarrow> mem \<Rightarrow> u64 \<times> mem" where
  "memset dest v n m = (dest, memset_loop dest v (unat n) m)"

text \<open>The distance from the second byte on.\<close>

lemma unat_step:
  fixes x d :: u64
  assumes "x \<noteq> d"
  shows "unat (x - (d + 1)) + 1 = unat (x - d)"
proof -
  have "x - d \<noteq> 0" using assms by simp
  then have "unat (x - d - 1) = unat (x - d) - 1" "unat (x - d) \<noteq> 0"
    by (simp_all add: unat_minus_one unat_eq_0)
  then show ?thesis by (simp add: diff_diff_eq)
qed

lemma unat_step_self: "n < 2 ^ 64 \<Longrightarrow> n \<le> unat (d - (d + 1) :: u64)"
  by (simp add: unsigned_minus_1_eq_mask mask_eq_exp_minus_1)

lemma memset_loop_eq:
  "n < 2 ^ 64 \<Longrightarrow> memset_loop d v n m = (\<lambda>x. if unat (x - d) < n then v else m x)"
proof (induction n arbitrary: d m)
  case (Suc n)
  have ih: "memset_loop (d + 1) v n (store8 d v m) =
      (\<lambda>x. if unat (x - (d + 1)) < n then v else store8 d v m x)"
    by (rule Suc.IH) (use Suc.prems in simp)
  have "(if unat (x - (d + 1)) < n then v else store8 d v m x) =
      (if unat (x - d) < Suc n then v else m x)" for x
    using unat_step [of x d] unat_step_self [of n d] Suc.prems
    by (cases "x = d") (auto simp: store8_def)
  then show ?case unfolding memset_loop.simps ih by (rule ext)
qed simp

lemma memset_eq: "memset d v n m = (d, \<lambda>x. if unat (x - d) < unat n then v else m x)"
  using memset_loop_eq [OF unat_lt_64 [of n]] by (simp add: memset_def)

text \<open>
  The copy runs upwards, so it is right when no source byte is overwritten before it is read:
  the destination does not start inside the source behind its first byte.
\<close>

lemma memcpy_loop_eq:
  assumes "n < 2 ^ 64" and "d = s \<or> n \<le> unat (d - s)"
  shows "memcpy_loop d s n m = (\<lambda>x. if unat (x - d) < n then m (x - d + s) else m x)"
  using assms
proof (induction n arbitrary: d s m)
  case (Suc n)
  have ih: "memcpy_loop (d + 1) (s + 1) n (store8 d (m s) m) =
      (\<lambda>x. if unat (x - (d + 1)) < n then store8 d (m s) m (x - (d + 1) + (s + 1)) else store8 d (m s) m x)"
    by (rule Suc.IH) (use Suc.prems in auto)
  have src: "x - (d + 1) + (s + 1) = x - d + s" for x by simp
  have "(if unat (x - (d + 1)) < n then store8 d (m s) m (x - d + s) else store8 d (m s) m x) =
      (if unat (x - d) < Suc n then m (x - d + s) else m x)" for x
  proof (cases "x = d")
    case True
    then show ?thesis using unat_step_self [of n d] Suc.prems(1) by (simp add: store8_def)
  next
    case False
    have "x - d + s \<noteq> d \<or> d = s" if "unat (x - (d + 1)) < n"
    proof (rule ccontr)
      assume "\<not> (x - d + s \<noteq> d \<or> d = s)"
      then have "x - d = d - s" "d \<noteq> s" by (auto simp: algebra_simps)
      with that False Suc.prems unat_step [of x d] show False by simp
    qed
    with False show ?thesis using unat_step [of x d] by (auto simp: store8_def)
  qed
  then show ?case unfolding memcpy_loop.simps ih src by (rule ext)
qed simp

text \<open>
  \<open>memcpy\<close> copies: when the destination is the source or does not start inside it, the
  destination holds the bytes the source had, every other byte is unchanged, and the
  destination address is returned. The regions may overlap with the destination lower.
\<close>
theorem memcpy_copies:
  assumes "dest = src \<or> unat n \<le> unat (dest - src)"
  shows "fst (memcpy dest src n m) = dest \<and>
     load_bytes (snd (memcpy dest src n m)) dest (unat n) = load_bytes m src (unat n) \<and>
     (\<forall>x. unat n \<le> unat (x - dest) \<longrightarrow> snd (memcpy dest src n m) x = m x)"
proof -
  have eq: "snd (memcpy dest src n m) =
      (\<lambda>x. if unat (x - dest) < unat n then m (x - dest + src) else m x)"
    using memcpy_loop_eq [OF unat_lt_64 assms] by (simp add: memcpy_def)
  have "load_bytes (snd (memcpy dest src n m)) dest (unat n) = load_bytes m src (unat n)"
  proof (rule nth_equalityI)
    fix i assume "i < length (load_bytes (snd (memcpy dest src n m)) dest (unat n))"
    then have i: "i < unat n" by simp
    then have "unat (of_nat i :: u64) = i" using unat_lt_64 [of n] by (intro unat_of_nat_small) simp
    with i show "load_bytes (snd (memcpy dest src n m)) dest (unat n) ! i = load_bytes m src (unat n) ! i"
      by (simp add: eq add.commute)
  qed simp
  moreover have "\<forall>x. unat n \<le> unat (x - dest) \<longrightarrow> snd (memcpy dest src n m) x = m x"
    by (simp add: eq)
  ultimately show ?thesis by (simp add: memcpy_def)
qed

theorem memcpy_copies_witness:
  "load_bytes (snd (memcpy 16 18 4 (\<lambda>a. ucast a))) 16 4 = [18, 19, 20, 21]"
proof -
  have "unat (4 :: u64) \<le> unat (16 - 18 :: u64)" by simp
  with memcpy_copies [of 16 18 4 "\<lambda>a. ucast a"] show ?thesis
    by (simp add: load_bytes_def upt_rec)
qed

end
