(* ===== verification/KBoot.thy ===== *)
theory KBoot
  imports Prelude
begin

text \<open>
  \<^verbatim>\<open>src/include/kernel/kernel.h\<close>: where the kernel's window on physical memory starts, and the
  boot information the components share.
\<close>

definition KERNEL_VADDR :: u64 where "KERNEL_VADDR = 0xffffffff80000000"
definition KERNEL_VADDR_SIZE :: u64 where "KERNEL_VADDR_SIZE = 0x40000000"

record kernel_boot_t =
  dbg_use_serial :: u8
  dbg_use_vm :: u8
  dbg_level :: u8
  kmb_first_tag :: u64
  kmb_mmap :: u64
  kmb_mmap_size :: u64
  fb_ptr :: u64
  fb_addr :: u64
  fb_w :: u64
  fb_h :: u64
  fb_pitch :: u64
  fb_bpp :: u64
  is_legacy_bios :: bool

lemma unat_KERNEL_VADDR [simp]: "unat KERNEL_VADDR = 18446744071562067968"
  by (simp add: KERNEL_VADDR_def)

end
