(* ===== verification/VirtMem.thy ===== *)
theory VirtMem
  imports PhysMem MemOps KBoot
begin

text \<open>
  \<^verbatim>\<open>src/kernel/mem/virtmem.c\<close>: the page tables. Tables live in physical memory and are reached
  through the kernel's window at \<open>KERNEL_VADDR\<close>; new ones come out of blocks of one page that
  \<open>phys_malloc\<close> gives. The theory holds the operations on byte memory and the table walk of
  the processor they have to agree with; what they promise is in the theory \<open>VirtMap\<close>.
\<close>

section \<open>State\<close>

text \<open>\<open>v_cur\<close> is the static variable of \<open>new_page_table\<close>.\<close>

record vmm =
  v_phys :: physmem
  v_mem :: mem
  v_cur :: u64

text \<open>A block \<open>pt_alloc_t\<close>: 511 tables of 4096 bytes, then \<open>idx\<close>, \<open>prev\<close> and \<open>next\<close>.\<close>

definition pta_dir :: "u64 \<Rightarrow> u64 \<Rightarrow> u64" where "pta_dir p i = p + 4096 * i"
definition pta_idx :: "u64 \<Rightarrow> u64" where "pta_idx p = p + 4096 * 511"
definition pta_prev :: "u64 \<Rightarrow> u64" where "pta_prev p = p + 4096 * 511 + 8"
definition pta_next :: "u64 \<Rightarrow> u64" where "pta_next p = p + 4096 * 511 + 16"

section \<open>Table allocation\<close>

text \<open>The second loop of \<open>alloc_pt_block\<close>, over the 512 tables of the block.\<close>

fun clear_dirs :: "nat list \<Rightarrow> u64 \<Rightarrow> mem \<Rightarrow> mem" where
  "clear_dirs [] p m = m"
| "clear_dirs (i # is) p m = clear_dirs is p (snd (memset (pta_dir p (of_nat i)) 0 4096 m))"

definition alloc_pt_block :: "vmm \<Rightarrow> (u64 \<times> vmm) res" where
  "alloc_pt_block s =
     bindE (phys_malloc PAGE_SIZE (v_phys s)) (\<lambda>(page, ph).
       if page = 0 then Inl (Assertion ''page'')
       else let m1 = snd (memset (KERNEL_VADDR + page) 0 PAGE_SIZE (v_mem s));
                m2 = clear_dirs [0..<512] (KERNEL_VADDR + page) m1
            in Inr (page, s\<lparr>v_phys := ph, v_mem := m2\<rparr>))"

text \<open>
  \<open>new_page_table\<close>: the argument of the debug line increments \<open>idx\<close> once, the returned
  expression a second time.
\<close>

definition take_dir :: "vmm \<Rightarrow> u64 \<times> vmm" where
  "take_dir s =
     (let i = load64 (v_mem s) (pta_idx (v_cur s))
      in (pta_dir (v_cur s) i, s\<lparr>v_mem := store64 (pta_idx (v_cur s)) (i + 1) (v_mem s)\<rparr>))"

definition first_block :: "vmm \<Rightarrow> vmm res" where
  "first_block s =
     (if v_cur s = 0
      then bindE (alloc_pt_block s) (\<lambda>(page, s1). Inr (s1\<lparr>v_cur := page + KERNEL_VADDR\<rparr>))
      else Inr s)"

definition next_block :: "vmm \<Rightarrow> vmm res" where
  "next_block s =
     (if 511 \<le> load64 (v_mem s) (pta_idx (v_cur s))
      then let prev = v_cur s
           in bindE (alloc_pt_block s) (\<lambda>(page, s1).
              let cur = page + KERNEL_VADDR;
                  m1 = store64 (pta_next prev) cur (v_mem s1);
                  m2 = store64 (pta_prev cur) prev m1
              in Inr (s1\<lparr>v_cur := cur, v_mem := m2\<rparr>))
      else Inr s)"

definition new_page_table :: "vmm \<Rightarrow> (u64 \<times> vmm) res" where
  "new_page_table s =
     bindE (first_block s) (\<lambda>s1. bindE (next_block s1) (\<lambda>s2.
       let (_, s3) = take_dir s2 in Inr (take_dir s3)))"

definition pt_addr :: "u64 \<Rightarrow> u64" where
  "pt_addr e = drop_bit 3 (e AND 0xFFFFFFFFFFFFFF00)"

section \<open>Mapping\<close>

definition virt_get_next_map_level :: "u64 \<Rightarrow> u64 \<Rightarrow> u32 \<Rightarrow> vmm \<Rightarrow> (u64 \<times> vmm) res" where
  "virt_get_next_map_level pd index flags s =
     (if pd = 0 then Inl (Panic ''virt_get_next_map_level'')
      else let e = load64 (v_mem s) (pd + 8 * index)
           in if e AND 1 \<noteq> 0 then Inr ((e AND NOT 0x1ff) + KERNEL_VADDR, s)
              else bindE (new_page_table s) (\<lambda>(npt, s1).
                let new_entry = (npt - KERNEL_VADDR) OR ucast flags
                in Inr (npt, s1\<lparr>v_mem := store64 (pd + 8 * index) new_entry (v_mem s1)\<rparr>)))"

definition page_index :: "nat \<Rightarrow> u64 \<Rightarrow> u64" where
  "page_index sh v = drop_bit sh v AND PAGEINDEXMASK"

definition TABLE_FLAGS :: u32 where "TABLE_FLAGS = ucast (PAGE_PRESENT_FLAG OR PAGE_WRITE_FLAG)"

text \<open>The flush and the page invalidation at the end act on the processor's buffer only (theory Tlb).\<close>

definition virt_map_page :: "u64 \<Rightarrow> u64 \<Rightarrow> u64 \<Rightarrow> u32 \<Rightarrow> vmm \<Rightarrow> (u64 \<times> vmm) res" where
  "virt_map_page pt phys virt flags s =
     (let virt = page_align virt;
          phys = page_align phys;
          i4 = page_index 39 virt;
          i3 = page_index 30 virt;
          i2 = page_index 21 virt
      in bindE (virt_get_next_map_level pt i4 TABLE_FLAGS s) (\<lambda>(p3, s1).
         bindE (virt_get_next_map_level p3 i3 TABLE_FLAGS s1) (\<lambda>(p2, s2).
         Inr (virt, s2\<lparr>v_mem := store64 (p2 + 8 * i2) (phys OR ucast flags) (v_mem s2)\<rparr>))))"

definition virt_unmap_page :: "u64 \<Rightarrow> u64 \<Rightarrow> vmm \<Rightarrow> vmm res" where
  "virt_unmap_page pt virt s = bindE (virt_map_page pt 0 virt 0 s) (\<lambda>(_, s'). Inr s')"

definition virt_current_pd :: "u64 \<Rightarrow> u64" where
  "virt_current_pd cr3 = cr3 + KERNEL_VADDR"

text \<open>\<open>virtmem_init\<close> maps four pages of the framebuffer where they are.\<close>

fun map_fb_pages :: "nat list \<Rightarrow> u64 \<Rightarrow> u64 \<Rightarrow> vmm \<Rightarrow> vmm res" where
  "map_fb_pages [] pt fb s = Inr s"
| "map_fb_pages (i # is) pt fb s =
     bindE (virt_map_page pt (fb + of_nat i * PAGE_SIZE) (fb + of_nat i * PAGE_SIZE)
              (ucast (PAGE_SIZE_2MB OR PAGE_PRESENT_FLAG OR PAGE_WRITE_FLAG)) s)
       (\<lambda>(_, s'). map_fb_pages is pt fb s')"

definition virtmem_init :: "u64 \<Rightarrow> kernel_boot_t \<Rightarrow> vmm \<Rightarrow> (kernel_boot_t \<times> vmm) res" where
  "virtmem_init cr3 kb s =
     bindE (phys_malloc (PAGE_SIZE * 64) (v_phys s)) (\<lambda>(_, ph).
       let s1 = s\<lparr>v_phys := ph\<rparr>;
           pt = cr3 + KERNEL_VADDR;
           fb_size = fb_h kb * fb_pitch kb
       in if \<not> fb_size < PAGE_SIZE * 4 then Inl (Assertion ''fb_size < (PAGE_SIZE * 4)'')
          else bindE (map_fb_pages [0..<4] pt (fb_addr kb) s1) (\<lambda>s2.
               Inr (kb\<lparr>fb_ptr := fb_addr kb\<rparr>, s2)))"

section \<open>The processor's walk\<close>

text \<open>
  The four-level walk the processor makes from \<open>cr3\<close>, as Intel's manual describes it: bit 0 of
  an entry is present, bit 7 a large page at the third and second level, bits 12 to 51 the
  address. Physical memory is read where the kernel's window has it.
\<close>

definition pte :: "mem \<Rightarrow> u64 \<Rightarrow> u64 \<Rightarrow> u64" where
  "pte m t i = load64 m (KERNEL_VADDR + t + 8 * i)"

definition hw_addr :: "nat \<Rightarrow> u64 \<Rightarrow> u64" where
  "hw_addr k e = e AND mask 52 AND NOT (mask k)"

definition mmu_walk :: "mem \<Rightarrow> u64 \<Rightarrow> u64 \<Rightarrow> u64 option" where
  "mmu_walk m cr3 v =
     (let e4 = pte m (hw_addr 12 cr3) (page_index 39 v)
      in if \<not> bit e4 0 then None
         else let e3 = pte m (hw_addr 12 e4) (page_index 30 v)
              in if \<not> bit e3 0 then None
                 else if bit e3 7 then Some (hw_addr 30 e3 OR v AND mask 30)
                 else let e2 = pte m (hw_addr 12 e3) (page_index 21 v)
                      in if \<not> bit e2 0 then None
                         else if bit e2 7 then Some (hw_addr 21 e2 OR v AND mask 21)
                         else let e1 = pte m (hw_addr 12 e2) (page_index 12 v)
                              in if \<not> bit e1 0 then None else Some (hw_addr 12 e1 OR v AND mask 12))"

end
