(* ===== verification/VirtMap.thy ===== *)
theory VirtMap
  imports VirtMem
begin

text \<open>
  What the page table code of \<^verbatim>\<open>virtmem.c\<close> promises: the tables reachable from the root form a
  tree, new tables come out of the current block fresh and empty, and so mapping a page makes
  the processor's walk translate that page and no other page changes.
\<close>

section \<open>Entries and tables\<close>

definition table_ok :: "u64 \<Rightarrow> bool" where
  "table_ok t \<longleftrightarrow> 4096 dvd unat t \<and> unat t + 4096 \<le> 2 ^ 30"

definition next_table :: "u64 \<Rightarrow> u64" where
  "next_table e = e AND NOT 0x1ff"

lemma page_index_lt: "page_index sh v < 512"
proof -
  have "page_index sh v = take_bit 9 (drop_bit sh v)"
    by (simp add: page_index_def PAGEINDEXMASK_def take_bit_eq_mask mask_eq_exp_minus_1)
  then have "unat (page_index sh v) = take_bit 9 (unat (drop_bit sh v))"
    by (simp add: unsigned_take_bit_eq)
  also have "\<dots> < 2 ^ 9" by (rule take_bit_nat_less_exp)
  finally show ?thesis by (simp add: word_less_nat_alt)
qed

lemma pte_addr:
  assumes "table_ok t" "i < 512"
  shows "unat (KERNEL_VADDR + t + 8 * i) = 18446744071562067968 + unat t + 8 * unat i"
proof -
  have t: "unat t + 4096 \<le> 1073741824" using assms by (simp add: table_ok_def)
  have i: "unat i < 512" using assms by (simp add: word_less_nat_alt)
  have 8: "unat (8 * i) = 8 * unat i" using i by (simp add: unat_word_ariths)
  have "unat (KERNEL_VADDR + t) = 18446744071562067968 + unat t"
    using t by (simp add: unat_add_small)
  then show ?thesis using t i 8 by (simp add: unat_add_small)
qed

lemma pte_apart:
  assumes "table_ok t" "table_ok t'" "i < 512" "j < 512" "t \<noteq> t' \<or> i \<noteq> j"
  shows "apart (KERNEL_VADDR + t + 8 * i) 8 (KERNEL_VADDR + t' + 8 * j) 8"
proof (rule apart_nat)
  have i: "unat i < 512" "unat j < 512" using assms by (simp_all add: word_less_nat_alt)
  obtain a b where ab: "unat t = 4096 * a" "unat t' = 4096 * b"
    using assms(1,2) by (auto simp: table_ok_def dvd_def)
  have ne: "a \<noteq> b \<or> unat i \<noteq> unat j"
    using assms(5) ab by (auto simp: word_unat_eq_iff)
  have "4096 * a + 8 * unat i + 8 \<le> 4096 * b + 8 * unat j \<or>
      4096 * b + 8 * unat j + 8 \<le> 4096 * a + 8 * unat i"
  proof -
    consider "a < b" | "b < a" | "a = b" "unat i < unat j" | "a = b" "unat j < unat i"
      using ne by linarith
    then show ?thesis
    proof cases
      case 1
      then have "4096 * a + 4096 \<le> 4096 * b" by simp
      with i show ?thesis by linarith
    next
      case 2
      then have "4096 * b + 4096 \<le> 4096 * a" by simp
      with i show ?thesis by linarith
    qed simp_all
  qed
  then show "unat (KERNEL_VADDR + t + 8 * i) + 8 \<le> unat (KERNEL_VADDR + t' + 8 * j) \<or>
      unat (KERNEL_VADDR + t' + 8 * j) + 8 \<le> unat (KERNEL_VADDR + t + 8 * i)"
    using pte_addr [OF assms(1,3)] pte_addr [OF assms(2,4)] ab by linarith
  show "unat (KERNEL_VADDR + t + 8 * i) + 8 \<le> 2 ^ 64" "unat (KERNEL_VADDR + t' + 8 * j) + 8 \<le> 2 ^ 64"
    using pte_addr [OF assms(1,3)] pte_addr [OF assms(2,4)] assms(1,2) i by (simp_all add: table_ok_def)
qed simp_all

lemma pte_store:
  assumes "table_ok t" "table_ok t'" "i < 512" "j < 512"
  shows "pte (store64 (KERNEL_VADDR + t + 8 * i) v m) t' j = (if t' = t \<and> j = i then v else pte m t' j)"
  using pte_apart [OF assms] by (auto simp: pte_def mem_simps)

lemma pte_agree:
  assumes "table_ok t" "i < 512"
    and "\<And>x. unat KERNEL_VADDR + unat t \<le> unat x \<Longrightarrow> unat x < unat KERNEL_VADDR + unat t + 4096 \<Longrightarrow> m x = m' x"
  shows "pte m t i = pte m' t i"
proof -
  have i: "unat i < 512" using assms by (simp add: word_less_nat_alt)
  have "load_bytes m (KERNEL_VADDR + t + 8 * i) 8 = load_bytes m' (KERNEL_VADDR + t + 8 * i) 8"
    by (rule load_bytes_agree) (use pte_addr [OF assms(1,2)] assms i in \<open>auto simp: table_ok_def\<close>)
  then show ?thesis by (simp add: pte_def load64_def)
qed

text \<open>An entry made of a table's address and the two flags the code sets.\<close>

lemma table_bit: "table_ok t \<Longrightarrow> bit t n \<Longrightarrow> 12 \<le> n \<and> n < 30"
proof -
  assume t: "table_ok t" and b: "bit t n"
  have "unat (take_bit 12 t) = unat t mod 4096" by (simp only: unsigned_take_bit_eq) (simp add: take_bit_eq_mod)
  also have "\<dots> = 0" using t by (simp add: table_ok_def)
  finally have "take_bit 12 t = 0" by (simp add: unat_eq_0)
  then have lo: "\<not> bit (take_bit 12 t) n" by simp
  have "unat t < 2 ^ 30" using t by (simp add: table_ok_def)
  then have "unat (take_bit 30 t) = unat t" by (simp add: unsigned_take_bit_eq take_bit_nat_eq_self)
  then have "take_bit 30 t = t" by (simp only: word_unat_eq_iff)
  then have hi: "bit (take_bit 30 t) n" using b by simp
  from lo hi b show ?thesis by (auto simp: bit_take_bit_iff)
qed

lemma bit_511: "bit (0x1ff :: u64) n \<longleftrightarrow> n < 9"
proof -
  have "(0x1ff :: u64) = mask 9" by (simp add: mask_eq_exp_minus_1)
  then have "bit (0x1ff :: u64) n = bit (mask 9 :: u64) n" by (rule arg_cong)
  also have "\<dots> = (n < 9)" by (simp only: bit_mask_iff) auto
  finally show ?thesis .
qed

lemma bit_next_table: "bit (next_table e) n \<longleftrightarrow> bit e n \<and> 9 \<le> n"
  unfolding next_table_def bit_and_iff bit_not_iff bit_511
  using bit_imp_le_length [of e n] by auto

lemma hw_addr_table: "table_ok (next_table e) \<Longrightarrow> hw_addr 12 e = next_table e"
proof -
  assume t: "table_ok (next_table e)"
  show ?thesis
  proof (rule bit_word_eqI)
    fix n
    show "bit (hw_addr 12 e) n \<longleftrightarrow> bit (next_table e) n"
      using table_bit [OF t, of n] bit_next_table [of e n] by (auto simp: hw_addr_def bit_simps)
  qed
qed

lemma hw_addr_root: "table_ok r \<Longrightarrow> hw_addr 12 r = r"
proof (rule bit_word_eqI)
  fix n assume "table_ok r"
  then show "bit (hw_addr 12 r) n \<longleftrightarrow> bit r n"
    using table_bit [of r n] bit_imp_le_length [of r n] by (auto simp: hw_addr_def bit_simps)
qed

definition table_entry :: "u64 \<Rightarrow> u64" where
  "table_entry t = t OR ucast TABLE_FLAGS"

lemma table_entry_facts:
  assumes "table_ok t"
  shows "next_table (table_entry t) = t" "bit (table_entry t) 0" "\<not> bit (table_entry t) 7"
proof -
  have f: "(ucast TABLE_FLAGS :: u64) = mask 2"
    by (simp add: TABLE_FLAGS_def PAGE_PRESENT_FLAG_def PAGE_WRITE_FLAG_def mask_eq_exp_minus_1)
  have b: "bit (table_entry t) n \<longleftrightarrow> bit t n \<or> n < 2" for n
    by (auto simp: table_entry_def f bit_simps)
  show "bit (table_entry t) 0" "\<not> bit (table_entry t) 7"
    using b table_bit [OF assms, of 7] by auto
  show "next_table (table_entry t) = t"
    by (rule bit_word_eqI) (use table_bit [OF assms] in \<open>fastforce simp: bit_next_table b\<close>)
qed

section \<open>The tree of tables\<close>

text \<open>
  The tables a root reaches, as a function \<open>P\<close> from a table and an index to the entry: the
  third-level tables \<open>A3\<close> and the second-level tables \<open>A2\<close> each have one entry that points to
  them, and second-level entries map large pages.
\<close>

type_synonym tables = "u64 \<Rightarrow> u64 \<Rightarrow> u64"

definition tree :: "tables \<Rightarrow> u64 \<Rightarrow> u64 set \<Rightarrow> u64 set \<Rightarrow> bool" where
  "tree P r A3 A2 \<longleftrightarrow>
     (\<forall>t\<in>insert r (A3 \<union> A2). table_ok t) \<and> r \<notin> A3 \<and> r \<notin> A2 \<and> A3 \<inter> A2 = {} \<and>
     (\<forall>i<512. bit (P r i) 0 \<longrightarrow> next_table (P r i) \<in> A3) \<and>
     (\<forall>t\<in>A3. \<forall>i<512. bit (P t i) 0 \<longrightarrow> \<not> bit (P t i) 7 \<and> next_table (P t i) \<in> A2) \<and>
     (\<forall>t\<in>A2. \<forall>i<512. bit (P t i) 0 \<longrightarrow> bit (P t i) 7) \<and>
     (\<forall>i<512. \<forall>j<512. bit (P r i) 0 \<and> bit (P r j) 0 \<and>
        next_table (P r i) = next_table (P r j) \<longrightarrow> i = j) \<and>
     (\<forall>t\<in>A3. \<forall>u\<in>A3. \<forall>i<512. \<forall>j<512. bit (P t i) 0 \<and> bit (P u j) 0 \<and>
        next_table (P t i) = next_table (P u j) \<longrightarrow> t = u \<and> i = j)"

lemma treeI:
  assumes "\<And>t. t \<in> insert r (A3 \<union> A2) \<Longrightarrow> table_ok t" "r \<notin> A3" "r \<notin> A2" "A3 \<inter> A2 = {}"
    "\<And>i. i < 512 \<Longrightarrow> bit (P r i) 0 \<Longrightarrow> next_table (P r i) \<in> A3"
    "\<And>t i. t \<in> A3 \<Longrightarrow> i < 512 \<Longrightarrow> bit (P t i) 0 \<Longrightarrow> \<not> bit (P t i) 7 \<and> next_table (P t i) \<in> A2"
    "\<And>t i. t \<in> A2 \<Longrightarrow> i < 512 \<Longrightarrow> bit (P t i) 0 \<Longrightarrow> bit (P t i) 7"
    "\<And>i j. i < 512 \<Longrightarrow> j < 512 \<Longrightarrow> bit (P r i) 0 \<Longrightarrow> bit (P r j) 0 \<Longrightarrow>
       next_table (P r i) = next_table (P r j) \<Longrightarrow> i = j"
    "\<And>t u i j. t \<in> A3 \<Longrightarrow> u \<in> A3 \<Longrightarrow> i < 512 \<Longrightarrow> j < 512 \<Longrightarrow> bit (P t i) 0 \<Longrightarrow> bit (P u j) 0 \<Longrightarrow>
       next_table (P t i) = next_table (P u j) \<Longrightarrow> t = u \<and> i = j"
  shows "tree P r A3 A2"
  unfolding tree_def
proof (intro conjI)
  show "\<forall>t\<in>insert r (A3 \<union> A2). table_ok t" using assms(1) by (rule ballI)
  show "\<forall>i<512. bit (P r i) 0 \<longrightarrow> next_table (P r i) \<in> A3" using assms(5) by simp
  show "\<forall>t\<in>A3. \<forall>i<512. bit (P t i) 0 \<longrightarrow> \<not> bit (P t i) 7 \<and> next_table (P t i) \<in> A2"
    using assms(6) by simp
  show "\<forall>t\<in>A2. \<forall>i<512. bit (P t i) 0 \<longrightarrow> bit (P t i) 7" using assms(7) by simp
  show "\<forall>i<512. \<forall>j<512. bit (P r i) 0 \<and> bit (P r j) 0 \<and>
        next_table (P r i) = next_table (P r j) \<longrightarrow> i = j"
    by (intro allI impI, elim conjE) (rule assms(8))
  show "\<forall>t\<in>A3. \<forall>u\<in>A3. \<forall>i<512. \<forall>j<512. bit (P t i) 0 \<and> bit (P u j) 0 \<and>
        next_table (P t i) = next_table (P u j) \<longrightarrow> t = u \<and> i = j"
    by (intro allI ballI impI, elim conjE) (rule assms(9))
qed (rule assms(2-4))+

lemma treeD:
  assumes "tree P r A3 A2"
  shows "t \<in> insert r (A3 \<union> A2) \<Longrightarrow> table_ok t" "r \<notin> A3" "r \<notin> A2" "A3 \<inter> A2 = {}"
    "i < 512 \<Longrightarrow> bit (P r i) 0 \<Longrightarrow> next_table (P r i) \<in> A3"
    "t \<in> A3 \<Longrightarrow> i < 512 \<Longrightarrow> bit (P t i) 0 \<Longrightarrow> \<not> bit (P t i) 7 \<and> next_table (P t i) \<in> A2"
    "t \<in> A2 \<Longrightarrow> i < 512 \<Longrightarrow> bit (P t i) 0 \<Longrightarrow> bit (P t i) 7"
    "i < 512 \<Longrightarrow> j < 512 \<Longrightarrow> bit (P r i) 0 \<Longrightarrow> bit (P r j) 0 \<Longrightarrow>
       next_table (P r i) = next_table (P r j) \<Longrightarrow> i = j"
    "t \<in> A3 \<Longrightarrow> u \<in> A3 \<Longrightarrow> i < 512 \<Longrightarrow> j < 512 \<Longrightarrow> bit (P t i) 0 \<Longrightarrow> bit (P u j) 0 \<Longrightarrow>
       next_table (P t i) = next_table (P u j) \<Longrightarrow> t = u \<and> i = j"
proof -
  note c = assms [unfolded tree_def]
  show "t \<in> insert r (A3 \<union> A2) \<Longrightarrow> table_ok t" using c by (elim conjE) (erule bspec)
  show "r \<notin> A3" "r \<notin> A2" "A3 \<inter> A2 = {}" using c by - (elim conjE, assumption)+
  show "i < 512 \<Longrightarrow> bit (P r i) 0 \<Longrightarrow> next_table (P r i) \<in> A3" using c by simp
  show "t \<in> A3 \<Longrightarrow> i < 512 \<Longrightarrow> bit (P t i) 0 \<Longrightarrow> \<not> bit (P t i) 7 \<and> next_table (P t i) \<in> A2"
    using c by simp
  show "t \<in> A2 \<Longrightarrow> i < 512 \<Longrightarrow> bit (P t i) 0 \<Longrightarrow> bit (P t i) 7" using c by simp
  show "i < 512 \<Longrightarrow> j < 512 \<Longrightarrow> bit (P r i) 0 \<Longrightarrow> bit (P r j) 0 \<Longrightarrow>
       next_table (P r i) = next_table (P r j) \<Longrightarrow> i = j" using c by simp
  show "t \<in> A3 \<Longrightarrow> u \<in> A3 \<Longrightarrow> i < 512 \<Longrightarrow> j < 512 \<Longrightarrow> bit (P t i) 0 \<Longrightarrow> bit (P u j) 0 \<Longrightarrow>
       next_table (P t i) = next_table (P u j) \<Longrightarrow> t = u \<and> i = j" using c by simp
qed

text \<open>\<open>P'\<close> differs from \<open>P\<close> on the tables \<open>U\<close> in one entry.\<close>

definition entry_set :: "u64 set \<Rightarrow> u64 \<Rightarrow> u64 \<Rightarrow> u64 \<Rightarrow> tables \<Rightarrow> tables \<Rightarrow> bool" where
  "entry_set U t i e P P' \<longleftrightarrow>
     (\<forall>u\<in>U. \<forall>j<512. P' u j = (if u = t \<and> j = i then e else P u j))"

definition empty_table :: "tables \<Rightarrow> u64 \<Rightarrow> bool" where
  "empty_table P t \<longleftrightarrow> (\<forall>j<512. P t j = 0)"

text \<open>The second-level entry of an address, if its tables are there.\<close>

definition lookup :: "tables \<Rightarrow> u64 \<Rightarrow> u64 \<Rightarrow> u64 option" where
  "lookup P r v =
     (let e4 = P r (page_index 39 v); e3 = P (next_table e4) (page_index 30 v);
          e2 = P (next_table e3) (page_index 21 v)
      in if bit e4 0 \<and> bit e3 0 \<and> bit e2 0 then Some e2 else None)"

definition same_page :: "u64 \<Rightarrow> u64 \<Rightarrow> bool" where
  "same_page v w \<longleftrightarrow> page_index 39 v = page_index 39 w \<and> page_index 30 v = page_index 30 w \<and>
     page_index 21 v = page_index 21 w"

lemma mmu_walk_lookup:
  assumes "tree (pte m) r A3 A2"
  shows "mmu_walk m r v = map_option (\<lambda>e. hw_addr 21 e OR v AND mask 21) (lookup (pte m) r v)"
proof -
  let ?P = "pte m"
  let ?e4 = "?P r (page_index 39 v)"
  have r: "hw_addr 12 r = r" using assms by (auto simp: tree_def intro: hw_addr_root)
  show ?thesis
  proof (cases "bit ?e4 0")
    case True
    then have t3: "next_table ?e4 \<in> A3" using assms page_index_lt by (simp add: tree_def)
    then have "table_ok (next_table ?e4)" using assms by (auto simp: tree_def)
    then have h3: "hw_addr 12 ?e4 = next_table ?e4" by (rule hw_addr_table)
    let ?e3 = "?P (next_table ?e4) (page_index 30 v)"
    show ?thesis
    proof (cases "bit ?e3 0")
      case p3: True
      then have t2: "next_table ?e3 \<in> A2" "\<not> bit ?e3 7"
        using assms page_index_lt t3 by (auto simp: tree_def)
      then have "table_ok (next_table ?e3)" using assms by (auto simp: tree_def)
      then have h2: "hw_addr 12 ?e3 = next_table ?e3" by (rule hw_addr_table)
      let ?e2 = "?P (next_table ?e3) (page_index 21 v)"
      have "bit ?e2 0 \<longrightarrow> bit ?e2 7" using assms page_index_lt t2 by (auto simp: tree_def)
      then show ?thesis
        using True p3 t2(2) by (simp add: mmu_walk_def lookup_def Let_def r h3 h2)
    next
      case False
      with True show ?thesis by (simp add: mmu_walk_def lookup_def Let_def r h3)
    qed
  next
    case False
    then show ?thesis by (simp add: mmu_walk_def lookup_def Let_def r)
  qed
qed

lemma lookup_tables:
  assumes "tree P r A3 A2"
  shows "bit (P r (page_index 39 v)) 0 \<Longrightarrow> next_table (P r (page_index 39 v)) \<in> A3"
    "t \<in> A3 \<Longrightarrow> bit (P t (page_index 30 v)) 0 \<Longrightarrow> next_table (P t (page_index 30 v)) \<in> A2"
  using treeD(5,6) [OF assms] page_index_lt by blast+

text \<open>A new, empty third-level table.\<close>

lemma tree_add3:
  assumes tree: "tree P r A3 A2" and i: "i < 512" "\<not> bit (P r i) 0"
    and p: "table_ok p" "p \<notin> insert r (A3 \<union> A2)" "empty_table P' p"
    and set: "entry_set (insert r (A3 \<union> A2)) r i (table_entry p) P P'"
  shows "tree P' r (insert p A3) A2" "lookup P' r v = lookup P r v"
proof -
  note e = table_entry_facts [OF p(1)]
  have r: "\<And>j. j < 512 \<Longrightarrow> P' r j = (if j = i then table_entry p else P r j)"
    and o: "\<And>t j. t \<in> A3 \<union> A2 \<Longrightarrow> j < 512 \<Longrightarrow> P' t j = P t j"
    using set treeD(2-4) [OF tree] by (auto simp: entry_set_def)
  have ne: "next_table (P r j) \<noteq> p" if "j < 512" "bit (P r j) 0" for j
    using treeD(5,6) [OF tree] that p(2) by auto
  have z: "\<And>j. j < 512 \<Longrightarrow> P' p j = 0" using p(3) by (simp add: empty_table_def)
  show "tree P' r (insert p A3) A2"
  proof (rule treeI)
    fix a b :: u64 assume h: "a < 512" "b < 512" "bit (P' r a) 0" "bit (P' r b) 0"
      "next_table (P' r a) = next_table (P' r b)"
    then show "a = b"
      using r [OF h(1)] r [OF h(2)] e(1) ne [of a] ne [of b] treeD(8) [OF tree, of a b]
      by (cases "a = i"; cases "b = i") simp_all
  next
    fix t j assume h: "t \<in> insert p A3" "j < 512" "bit (P' t j) 0"
    then show "\<not> bit (P' t j) 7 \<and> next_table (P' t j) \<in> A2"
      using z [OF h(2)] o [of t j] treeD(6) [OF tree, of t j] by (cases "t = p") auto
  next
    fix t j assume "t \<in> A2" "j < 512" "bit (P' t j) 0"
    then show "bit (P' t j) 7" using o [of t j] treeD(7) [OF tree, of t j] by simp
  next
    fix j assume "j < 512" "bit (P' r j) 0"
    then show "next_table (P' r j) \<in> insert p A3"
      using r [of j] e treeD(5) [OF tree, of j] by (cases "j = i") auto
  next
    fix t u j k assume h: "t \<in> insert p A3" "u \<in> insert p A3" "j < 512" "k < 512" "bit (P' t j) 0"
      "bit (P' u k) 0" "next_table (P' t j) = next_table (P' u k)"
    then have "t \<in> A3" "u \<in> A3" using z by auto
    then show "t = u \<and> j = k" using h o [of t j] o [of u k] treeD(9) [OF tree, of t u j k] by simp
  qed (use p treeD(1-4) [OF tree] in auto)
  show "lookup P' r v = lookup P r v"
  proof (cases "page_index 39 v = i")
    case True
    then show ?thesis
      using r i e z page_index_lt by (simp add: lookup_def Let_def)
  next
    case False
    then show ?thesis
      using r o lookup_tables [OF tree] page_index_lt by (auto simp: lookup_def Let_def)
  qed
qed

text \<open>A new, empty second-level table.\<close>

lemma tree_add2:
  assumes tree: "tree P r A3 A2" and t: "t \<in> A3" "i < 512" "\<not> bit (P t i) 0"
    and p: "table_ok p" "p \<notin> insert r (A3 \<union> A2)" "empty_table P' p"
    and set: "entry_set (insert r (A3 \<union> A2)) t i (table_entry p) P P'"
  shows "tree P' r A3 (insert p A2)" "lookup P' r v = lookup P r v"
proof -
  note e = table_entry_facts [OF p(1)]
  have t3: "\<And>u j. u \<in> A3 \<Longrightarrow> j < 512 \<Longrightarrow> P' u j = (if u = t \<and> j = i then table_entry p else P u j)"
    and o: "\<And>u j. u \<in> insert r A2 \<Longrightarrow> j < 512 \<Longrightarrow> P' u j = P u j"
    using set treeD(2-4) [OF tree] t(1) by (auto simp: entry_set_def)
  have ne: "next_table (P u j) \<noteq> p" if "u \<in> A3" "j < 512" "bit (P u j) 0" for u j
    using treeD(5,6) [OF tree] that p(2) by auto
  have z: "\<And>j. j < 512 \<Longrightarrow> P' p j = 0" using p(3) by (simp add: empty_table_def)
  show "tree P' r A3 (insert p A2)"
  proof (rule treeI)
    fix a b x y assume h: "a \<in> A3" "b \<in> A3" "x < 512" "y < 512" "bit (P' a x) 0" "bit (P' b y) 0"
      "next_table (P' a x) = next_table (P' b y)"
    have new: "c = t \<and> k = i \<longleftrightarrow> next_table (P' c k) = p"
      if "c \<in> A3" "k < 512" "bit (P' c k) 0" for c k
      using t3 [OF that(1,2)] e(1) ne [OF that(1,2)] that(3) by (cases "c = t \<and> k = i") simp_all
    show "a = b \<and> x = y"
    proof (cases "a = t \<and> x = i")
      case True
      then show ?thesis using new [OF h(1,3,5)] new [OF h(2,4,6)] h(7) by simp
    next
      case False
      then have "\<not> (b = t \<and> y = i)" using new [OF h(1,3,5)] new [OF h(2,4,6)] h(7) by simp
      then have "P' b y = P b y" using t3 [OF h(2,4)] by argo
      moreover have "P' a x = P a x" using False t3 [OF h(1,3)] by argo
      ultimately show ?thesis using h(5-7) treeD(9) [OF tree h(1,2,3,4)] by simp
    qed
  next
    fix u j assume h: "u \<in> A3" "j < 512" "bit (P' u j) 0"
    then show "\<not> bit (P' u j) 7 \<and> next_table (P' u j) \<in> insert p A2"
      using t3 [OF h(1,2)] e treeD(6) [OF tree, of u j] by (cases "u = t \<and> j = i") auto
  next
    fix u j assume h: "u \<in> insert p A2" "j < 512" "bit (P' u j) 0"
    then show "bit (P' u j) 7"
      using z [OF h(2)] o [of u j] treeD(7) [OF tree, of u j] by (cases "u = p") auto
  next
    fix j assume "j < 512" "bit (P' r j) 0"
    then show "next_table (P' r j) \<in> A3" using o [of r j] treeD(5) [OF tree, of j] by simp
  next
    fix j k assume "j < 512" "k < 512" "bit (P' r j) 0" "bit (P' r k) 0"
      "next_table (P' r j) = next_table (P' r k)"
    then show "j = k" using o [of r j] o [of r k] treeD(8) [OF tree, of j k] by simp
  qed (use p treeD(1-4) [OF tree] in auto)
  show "lookup P' r v = lookup P r v"
  proof (cases "bit (P r (page_index 39 v)) 0")
    case False
    then show ?thesis using o page_index_lt by (simp add: lookup_def Let_def)
  next
    case True
    let ?u = "next_table (P r (page_index 39 v))"
    have u: "?u \<in> A3" using lookup_tables(1) [OF tree True] .
    show ?thesis
    proof (cases "?u = t \<and> page_index 30 v = i")
      case True
      then show ?thesis
        using t3 t o e z page_index_lt by (auto simp: lookup_def Let_def)
    next
      case False
      then have "P' ?u (page_index 30 v) = P ?u (page_index 30 v)" using t3 u page_index_lt by auto
      then show ?thesis
        using o lookup_tables(2) [OF tree u] page_index_lt by (auto simp: lookup_def Let_def)
    qed
  qed
qed

text \<open>A second-level entry is set; it is the entry of one page only.\<close>

lemma tree_set2:
  assumes tree: "tree P r A3 A2" and w: "bit (P r (page_index 39 w)) 0"
      "t = next_table (P r (page_index 39 w))" "bit (P t (page_index 30 w)) 0"
    and e: "bit e 0 \<longrightarrow> bit e 7"
    and set: "entry_set (insert r (A3 \<union> A2)) (next_table (P t (page_index 30 w))) (page_index 21 w) e P P'"
  shows "tree P' r A3 A2"
    "lookup P' r v = (if same_page v w then (if bit e 0 then Some e else None) else lookup P r v)"
proof -
  let ?i = "page_index 21 w" and ?s = "next_table (P t (page_index 30 w))"
  have t: "t \<in> A3" using lookup_tables(1) [OF tree w(1)] w(2) by simp
  have s: "?s \<in> A2" using lookup_tables(2) [OF tree t w(3)] .
  have t2: "\<And>u j. u \<in> A2 \<Longrightarrow> j < 512 \<Longrightarrow> P' u j = (if u = ?s \<and> j = ?i then e else P u j)"
    and o: "\<And>u j. u \<in> insert r A3 \<Longrightarrow> j < 512 \<Longrightarrow> P' u j = P u j"
    using set treeD(2-4) [OF tree] s by (auto simp: entry_set_def)
  show "tree P' r A3 A2"
  proof (rule treeI)
    fix u j assume h: "u \<in> A2" "j < 512" "bit (P' u j) 0"
    then show "bit (P' u j) 7"
      using t2 [OF h(1,2)] e treeD(7) [OF tree, of u j] by (cases "u = ?s \<and> j = ?i") auto
  next
    fix u j assume "u \<in> A3" "j < 512" "bit (P' u j) 0"
    then show "\<not> bit (P' u j) 7 \<and> next_table (P' u j) \<in> A2"
      using o [of u j] treeD(6) [OF tree, of u j] by simp
  next
    fix j assume "j < 512" "bit (P' r j) 0"
    then show "next_table (P' r j) \<in> A3" using o [of r j] treeD(5) [OF tree, of j] by simp
  next
    fix j k assume "j < 512" "k < 512" "bit (P' r j) 0" "bit (P' r k) 0"
      "next_table (P' r j) = next_table (P' r k)"
    then show "j = k" using o [of r j] o [of r k] treeD(8) [OF tree, of j k] by simp
  next
    fix a b x y assume h: "a \<in> A3" "b \<in> A3" "x < 512" "y < 512" "bit (P' a x) 0" "bit (P' b y) 0"
      "next_table (P' a x) = next_table (P' b y)"
    then show "a = b \<and> x = y" using o [of a x] o [of b y] treeD(9) [OF tree, of a b x y] by simp
  qed (use treeD(1-4) [OF tree] in auto)
  show "lookup P' r v = (if same_page v w then (if bit e 0 then Some e else None) else lookup P r v)"
  proof (cases "bit (P r (page_index 39 v)) 0")
    case False
    then have "\<not> same_page v w" using w(1) by (auto simp: same_page_def)
    with False show ?thesis using o page_index_lt by (simp add: lookup_def Let_def)
  next
    case p4: True
    let ?u = "next_table (P r (page_index 39 v))"
    have u: "?u \<in> A3" using lookup_tables(1) [OF tree p4] .
    show ?thesis
    proof (cases "bit (P ?u (page_index 30 v)) 0")
      case False
      then have "\<not> same_page v w" using w by (auto simp: same_page_def)
      with False show ?thesis using o u page_index_lt by (simp add: lookup_def Let_def)
    next
      case p3: True
      let ?x = "next_table (P ?u (page_index 30 v))"
      have x: "?x \<in> A2" using lookup_tables(2) [OF tree u p3] .
      have "?x = ?s \<longleftrightarrow> page_index 39 v = page_index 39 w \<and> page_index 30 v = page_index 30 w"
        using treeD(9) [OF tree u t page_index_lt page_index_lt p3 w(3)]
          treeD(8) [OF tree page_index_lt page_index_lt p4 w(1)] w(2) by auto
      then have "?x = ?s \<and> page_index 21 v = ?i \<longleftrightarrow> same_page v w" by (auto simp: same_page_def)
      then show ?thesis
        using t2 [OF x, of "page_index 21 v"] o u p4 p3 page_index_lt
        by (auto simp: lookup_def Let_def)
    qed
  qed
qed

section \<open>The pool of tables\<close>

text \<open>One page from the physical allocator.\<close>

lemma phys_malloc_page:
  assumes "pmm_wf ph" "phys_malloc PAGE_SIZE ph = Inr (a, ph')" "a \<noteq> 0"
  shows "pmm_wf ph'" "unat a = page_of a * 2097152" "\<not> page_used (pmm ph) (page_of a)"
    "page_used (pmm ph') q \<longleftrightarrow> page_used (pmm ph) q \<or> q = page_of a"
proof -
  have n: "alloc_num_pages PAGE_SIZE = 1" by (simp add: alloc_num_pages_def PAGE_SIZE_def)
  obtain ws' where r: "ph' = ph\<lparr>pmm := ws'\<rparr>" "a = of_nat (page_of a) * PAGE_SIZE"
      "page_of a + alloc_num_pages PAGE_SIZE \<le> unat (mm_end ph) * 64"
      "free_or_full (pmm ph) (page_of a) (page_of a + alloc_num_pages PAGE_SIZE)"
      "marks (pmm ph) (page_of a) (alloc_num_pages PAGE_SIZE) ws'"
    by (rule phys_malloc_result [OF assms])
  have "page_of a < 32768" using r(3) n by (intro pmm_wf_bound [OF assms(1)]) simp
  then have "unat (of_nat (page_of a) * PAGE_SIZE) = page_of a * 2097152"
    by (simp add: unat_word_ariths unat_of_nat)
  then show "unat a = page_of a * 2097152" using r(2) by simp
  show "pmm_wf ph'" by (rule phys_malloc_wf [OF assms(1,2)])
  show "\<not> page_used (pmm ph) (page_of a)" using r(4) by (simp add: free_or_full_def n)
  show "page_used (pmm ph') q \<longleftrightarrow> page_used (pmm ph) q \<or> q = page_of a"
    using r(1,5) n by (auto simp: marks_def)
qed

text \<open>The physical page of the current block, its tail seen as a table, and its counter.\<close>

definition cur_page :: "vmm \<Rightarrow> u64" where "cur_page s = v_cur s - KERNEL_VADDR"
definition tail_table :: "u64 \<Rightarrow> u64" where "tail_table pg = pg + 4096 * 511"
definition dir_table :: "u64 \<Rightarrow> nat \<Rightarrow> u64" where "dir_table pg j = pg + 4096 * of_nat j"
definition pool_count :: "vmm \<Rightarrow> nat" where
  "pool_count s = unat (pte (v_mem s) (tail_table (cur_page s)) 0)"

definition page_in_window :: "u64 \<Rightarrow> bool" where
  "page_in_window pg \<longleftrightarrow> 2097152 dvd unat pg \<and> unat pg + 2097152 \<le> 2 ^ 30"

text \<open>
  The tables \<open>U\<close> that are in use lie in used physical pages. The current block, if there is
  one, is in a used page of the window; its tail is not in use as a table, nor is any table
  past the counter, and those are empty.
\<close>

definition block_inv :: "u64 set \<Rightarrow> vmm \<Rightarrow> bool" where
  "block_inv U s \<longleftrightarrow> page_in_window (cur_page s) \<and>
     page_used (pmm (v_phys s)) (page_of (cur_page s)) \<and> tail_table (cur_page s) \<notin> U \<and>
     (\<forall>j. pool_count s < j \<and> j < 511 \<longrightarrow>
        dir_table (cur_page s) j \<notin> U \<and> empty_table (pte (v_mem s)) (dir_table (cur_page s) j))"

definition pool_inv :: "u64 set \<Rightarrow> vmm \<Rightarrow> bool" where
  "pool_inv U s \<longleftrightarrow> pmm_wf (v_phys s) \<and>
     (\<forall>t\<in>U. table_ok t \<and> page_used (pmm (v_phys s)) (page_of t)) \<and>
     (v_cur s \<noteq> 0 \<longrightarrow> block_inv U s)"

text \<open>
  How many tables can be taken before the counter reaches the end of the block, every take
  moving it by two; a block that does not exist yet counts if the next physical page is one the
  window shows.
\<close>

definition tables_left :: "vmm \<Rightarrow> nat" where
  "tables_left s =
     (if v_cur s \<noteq> 0 then (510 - pool_count s) div 2
      else case phys_malloc PAGE_SIZE (v_phys s) of
             Inr (a, _) \<Rightarrow> if a \<noteq> 0 \<and> page_in_window a then 255 else 0
           | Inl _ \<Rightarrow> 0)"

lemma dir_table_facts:
  assumes "page_in_window pg" "j < 512"
  shows "table_ok (dir_table pg j)" "unat (dir_table pg j) = unat pg + 4096 * j"
    "page_of (dir_table pg j) = page_of pg"
proof -
  have pg: "2097152 dvd unat pg" "unat pg + 2097152 \<le> 1073741824"
    using assms by (simp_all add: page_in_window_def)
  have "4096 * (of_nat j :: u64) = of_nat (4096 * j)" by simp
  moreover have "unat (of_nat (4096 * j) :: u64) = 4096 * j"
    using assms by (intro unat_of_nat_small) simp
  ultimately have "unat (4096 * (of_nat j :: u64)) = 4096 * j" by simp
  then show u: "unat (dir_table pg j) = unat pg + 4096 * j"
    using pg assms by (simp add: dir_table_def unat_add_small)
  obtain k where k: "unat pg = 2097152 * k" using pg by (auto simp: dvd_def)
  then have "unat (dir_table pg j) = 4096 * (512 * k + j)" using u by simp
  then show "table_ok (dir_table pg j)" using u pg assms by (simp add: table_ok_def)
  have "4096 * j < 2097152" using assms by simp
  then have "(2097152 * k + 4096 * j) div 2097152 = k" by (metis div_less div_mult_self4 add.right_neutral
      mult.commute zero_neq_numeral add.commute)
  then show "page_of (dir_table pg j) = page_of pg"
    using k u by (simp add: page_of_def)
qed

lemma tail_is_dir: "tail_table pg = dir_table pg 511"
  by (simp add: tail_table_def dir_table_def)

lemma dir_table_inj:
  assumes "page_in_window pg" "i < 512" "j < 512"
  shows "dir_table pg i = dir_table pg j \<longleftrightarrow> i = j"
proof
  assume "dir_table pg i = dir_table pg j"
  then have "unat (dir_table pg i) = unat (dir_table pg j)" by (rule arg_cong)
  then show "i = j" unfolding dir_table_facts(2) [OF assms(1,2)] dir_table_facts(2) [OF assms(1,3)] by simp
qed simp

lemma pta_addr:
  assumes "v_cur s = KERNEL_VADDR + pg"
  shows "cur_page s = pg" "pta_idx (v_cur s) = KERNEL_VADDR + tail_table pg + 8 * 0"
    "pta_dir (v_cur s) (of_nat j) = KERNEL_VADDR + dir_table pg j"
  using assms by (simp_all add: cur_page_def pta_idx_def pta_dir_def tail_table_def dir_table_def)

text \<open>Taking two tables from a block, of which the second is used.\<close>

lemma take_two:
  assumes inv: "pool_inv U s" and cur: "v_cur s \<noteq> 0" and k: "pool_count s < 510"
  defines "p \<equiv> dir_table (cur_page s) (pool_count s + 1)"
  shows "\<exists>s'. new_page_table s = Inr (KERNEL_VADDR + p, s') \<and> pool_inv (insert p U) s' \<and>
     table_ok p \<and> p \<notin> U \<and> empty_table (pte (v_mem s')) p \<and>
     (\<forall>t\<in>U. \<forall>i<512. pte (v_mem s') t i = pte (v_mem s) t i) \<and>
     v_cur s' \<noteq> 0 \<and> pool_count s' = pool_count s + 2"
proof -
  let ?pg = "cur_page s" and ?k = "pool_count s" and ?m = "v_mem s"
  let ?t = "tail_table ?pg"
  have b: "page_in_window ?pg" "page_used (pmm (v_phys s)) (page_of ?pg)" "?t \<notin> U"
    "\<And>j. ?k < j \<Longrightarrow> j < 511 \<Longrightarrow> dir_table ?pg j \<notin> U \<and> empty_table (pte ?m) (dir_table ?pg j)"
    using inv cur by (auto simp: pool_inv_def block_inv_def)
  have cur_eq: "v_cur s = KERNEL_VADDR + ?pg" by (simp add: cur_page_def)
  note addr = pta_addr(2,3) [OF cur_eq]
  have tail: "table_ok ?t" using dir_table_facts(1) [OF b(1), of 511] by (simp add: tail_is_dir)
  have U: "\<And>t. t \<in> U \<Longrightarrow> table_ok t" using inv by (auto simp: pool_inv_def)
  have cnt: "load64 ?m (pta_idx (v_cur s)) = of_nat ?k"
    unfolding addr pool_count_def pte_def by simp
  let ?m1 = "store64 (KERNEL_VADDR + ?t + 8 * 0) (of_nat ?k + 1) ?m"
  let ?m2 = "store64 (KERNEL_VADDR + ?t + 8 * 0) (of_nat ?k + 1 + 1) ?m1"
  have "unat (of_nat ?k :: u64) = ?k" using k by (intro unat_of_nat_small) simp
  then have lt: "\<not> 511 \<le> (of_nat ?k :: u64)" using k by (simp add: word_le_nat_alt)
  have first: "first_block s = Inr s" using cur by (simp add: first_block_def)
  have nxt: "next_block s = Inr s" using lt by (simp add: next_block_def cnt)
  have "(of_nat ?k + 1 :: u64) = of_nat (?k + 1)" by simp
  then have dir: "pta_dir (v_cur s) (of_nat ?k + 1) = KERNEL_VADDR + p"
    unfolding p_def by (simp only: addr)
  let ?s' = "s\<lparr>v_mem := ?m2\<rparr>"
  have new: "new_page_table s = Inr (KERNEL_VADDR + p, ?s')"
    using cnt [unfolded addr] dir
    by (simp add: new_page_table_def first nxt take_dir_def Let_def addr load_store_same)
  have pt: "pte ?m2 t i = (if t = ?t \<and> i = 0 then of_nat ?k + 1 + 1 else pte ?m t i)"
    if "table_ok t" "i < 512" for t i
    using pte_store [OF tail that(1) _ that(2), of 0] by simp
  have cnt': "pool_count ?s' = ?k + 2"
  proof -
    have "pool_count ?s' = unat (of_nat ?k + 1 + 1 :: u64)"
      using pt [OF tail, of 0] by (simp add: pool_count_def cur_page_def)
    moreover have "(of_nat ?k + 1 + 1 :: u64) = of_nat (?k + 2)" by simp
    moreover have "unat (of_nat (?k + 2) :: u64) = ?k + 2" using k by (intro unat_of_nat_small) simp
    ultimately show ?thesis by (simp only:)
  qed
  have dirs: "table_ok (dir_table ?pg j)" "dir_table ?pg j \<noteq> ?t" "dir_table ?pg j = p \<longleftrightarrow> j = ?k + 1"
    if "j < 511" for j
    using dir_table_facts(1) [OF b(1), of j] dir_table_inj [OF b(1), of j] that k
    by (simp_all add: tail_is_dir p_def)
  have same: "pte ?m2 t i = pte ?m t i" if "t \<in> U" "i < 512" for t i
    using pt [OF U [OF that(1)] that(2)] b(3) that(1) by auto
  have emp: "empty_table (pte ?m2) (dir_table ?pg j)" if "?k < j" "j < 511" for j
    using b(4) [OF that] pt [OF dirs(1) [OF that(2)]] dirs(2) [OF that(2)]
    by (simp add: empty_table_def)
  have p: "table_ok p" "p \<notin> U" "empty_table (pte ?m2) p" "p \<noteq> ?t" "page_of p = page_of ?pg"
    using dirs [of "?k + 1"] b(4) [of "?k + 1"] emp [of "?k + 1"] dir_table_facts(3) [OF b(1), of "?k + 1"] k
    by (simp_all add: p_def)
  have "block_inv (insert p U) ?s'"
    unfolding block_inv_def cnt'
    using b dirs emp p(4) by (auto simp: cur_page_def)
  then have "pool_inv (insert p U) ?s'"
    using inv cur p(1,5) b(2) by (auto simp: pool_inv_def)
  with new p same cnt' cur show ?thesis by (intro exI [of _ ?s']) simp
qed

text \<open>A new block: the page is cleared and nothing else changes.\<close>

definition clear_page :: "u64 \<Rightarrow> mem \<Rightarrow> mem" where
  "clear_page b m = (\<lambda>x. if unat (x - b) < 2097152 then 0 else m x)"

lemma dir_inside:
  assumes "unat (x - pta_dir b (of_nat i)) < 4096" "i < 512"
  shows "unat (x - b) < 2097152"
proof -
  have "unat (of_nat (4096 * i) :: u64) = 4096 * i" using assms by (intro unat_of_nat_small) simp
  then have c: "unat (4096 * of_nat i :: u64) = 4096 * i" by simp
  have e: "x - b = (x - pta_dir b (of_nat i)) + 4096 * of_nat i" by (simp add: pta_dir_def)
  have "unat (x - b) = unat (x - pta_dir b (of_nat i)) + 4096 * i"
    unfolding e using assms c by (subst unat_add_small) simp_all
  with assms show ?thesis by simp
qed

lemma clear_dirs_clear_page:
  "\<forall>i\<in>set is. i < 512 \<Longrightarrow> clear_dirs is b (clear_page b m) = clear_page b m"
proof (induction "is")
  case (Cons i "is")
  then have "i < 512" by simp
  have "(if unat (x - pta_dir b (of_nat i)) < unat (4096 :: u64) then 0 else clear_page b m x) =
      clear_page b m x" for x
    using dir_inside [OF _ \<open>i < 512\<close>, of x b] by (simp add: clear_page_def)
  then have "snd (memset (pta_dir b (of_nat i)) 0 4096 (clear_page b m)) = clear_page b m"
    unfolding memset_eq by simp
  then show ?case using Cons by simp
qed simp

lemma alloc_pt_block_ok:
  "phys_malloc PAGE_SIZE (v_phys s) = Inr (a, ph) \<Longrightarrow> a \<noteq> 0 \<Longrightarrow>
     alloc_pt_block s = Inr (a, s\<lparr>v_phys := ph, v_mem := clear_page (KERNEL_VADDR + a) (v_mem s)\<rparr>)"
proof -
  assume a: "phys_malloc PAGE_SIZE (v_phys s) = Inr (a, ph)" "a \<noteq> 0"
  have "snd (memset (KERNEL_VADDR + a) 0 PAGE_SIZE (v_mem s)) = clear_page (KERNEL_VADDR + a) (v_mem s)"
    unfolding memset_eq by (simp add: clear_page_def)
  moreover have "clear_dirs [0..<512] (KERNEL_VADDR + a) (clear_page (KERNEL_VADDR + a) (v_mem s)) =
      clear_page (KERNEL_VADDR + a) (v_mem s)"
    by (rule clear_dirs_clear_page) simp
  ultimately show ?thesis using a by (simp add: alloc_pt_block_def Let_def)
qed

lemma clear_page_pte:
  assumes "page_in_window a" "table_ok t" "i < 512"
  shows "page_of t = page_of a \<Longrightarrow> pte (clear_page (KERNEL_VADDR + a) m) t i = 0"
    "page_of t \<noteq> page_of a \<Longrightarrow> pte (clear_page (KERNEL_VADDR + a) m) t i = pte m t i"
proof -
  obtain k where a: "unat a = 2097152 * k" "unat a + 2097152 \<le> 1073741824"
    using assms by (auto simp: page_in_window_def dvd_def)
  obtain j where t: "unat t = 4096 * j" "unat t + 4096 \<le> 1073741824"
    using assms by (auto simp: table_ok_def dvd_def)
  have ka: "unat (KERNEL_VADDR + a) = 18446744071562067968 + unat a"
    using a by (simp add: unat_add_small)
  have pa: "page_of a = k" and pt: "page_of t = j div 512"
    using a t by (simp_all add: page_of_def)
  have dist: "unat (x - (KERNEL_VADDR + a)) < 2097152 \<longleftrightarrow>
      18446744071562067968 + unat a \<le> unat x \<and> unat x < 18446744071562067968 + unat a + 2097152" for x
  proof (cases "18446744071562067968 + unat a \<le> unat x")
    case True
    then have "unat (x - (KERNEL_VADDR + a)) = unat x - (18446744071562067968 + unat a)"
      using ka by (simp add: unat_sub word_le_nat_alt)
    with True show ?thesis by linarith
  next
    case False
    then have "unat (x - (KERNEL_VADDR + a)) = unat x + 2 ^ 64 - (18446744071562067968 + unat a)"
      using ka unat_sub_if' [of x "KERNEL_VADDR + a"] by simp
    with False a(2) show ?thesis by simp
  qed
  {
    assume eq: "page_of t = page_of a"
    have j: "k * 512 \<le> j" "j + 1 \<le> k * 512 + 512" using eq pa pt by auto
    have "clear_page (KERNEL_VADDR + a) m x = 0"
      if "unat KERNEL_VADDR + unat t \<le> unat x" "unat x < unat KERNEL_VADDR + unat t + 4096" for x
    proof -
      have "18446744071562067968 + unat a \<le> unat x" "unat x < 18446744071562067968 + unat a + 2097152"
        using that j a(1) t(1) unfolding unat_KERNEL_VADDR by linarith+
      then show ?thesis using dist [of x] by (simp add: clear_page_def)
    qed
    then have "pte (clear_page (KERNEL_VADDR + a) m) t i = pte (\<lambda>_. 0) t i"
      by (rule pte_agree [OF assms(2,3)])
    also have "\<dots> = 0"
      by (rule bit_word_eqI) (simp add: pte_def load64_def bit_of_le)
    finally show "pte (clear_page (KERNEL_VADDR + a) m) t i = 0" .
  next
    assume ne: "page_of t \<noteq> page_of a"
    have j: "j + 1 \<le> k * 512 \<or> k * 512 + 512 \<le> j" using ne pa pt by linarith
    have "clear_page (KERNEL_VADDR + a) m x = m x"
      if "unat KERNEL_VADDR + unat t \<le> unat x" "unat x < unat KERNEL_VADDR + unat t + 4096" for x
    proof -
      have "\<not> (18446744071562067968 + unat a \<le> unat x \<and> unat x < 18446744071562067968 + unat a + 2097152)"
        using that j a(1) t(1) unfolding unat_KERNEL_VADDR by linarith
      then have "\<not> unat (x - (KERNEL_VADDR + a)) < 2097152" using dist [of x] by blast
      then show ?thesis by (simp add: clear_page_def)
    qed
    then show "pte (clear_page (KERNEL_VADDR + a) m) t i = pte m t i"
      by (rule pte_agree [OF assms(2,3)])
  }
qed

lemma new_block:
  assumes inv: "pool_inv U s" and cur: "v_cur s = 0" and left: "0 < tables_left s"
  shows "\<exists>s1. first_block s = Inr s1 \<and> pool_inv U s1 \<and> v_cur s1 \<noteq> 0 \<and> pool_count s1 = 0 \<and>
     tables_left s = 255 \<and> (\<forall>t\<in>U. \<forall>i<512. pte (v_mem s1) t i = pte (v_mem s) t i)"
proof -
  obtain a ph where a: "phys_malloc PAGE_SIZE (v_phys s) = Inr (a, ph)" "a \<noteq> 0" "page_in_window a"
    and left': "tables_left s = 255"
    using left cur by (auto simp: tables_left_def split: sum.splits if_splits)
  have wf: "pmm_wf (v_phys s)" using inv by (simp add: pool_inv_def)
  note pg = phys_malloc_page [OF wf a(1,2)]
  let ?m = "clear_page (KERNEL_VADDR + a) (v_mem s)"
  let ?s = "s\<lparr>v_phys := ph, v_mem := ?m, v_cur := a + KERNEL_VADDR\<rparr>"
  have fb: "first_block s = Inr ?s" using cur alloc_pt_block_ok [OF a(1,2)] by (simp add: first_block_def)
  have ka: "unat (KERNEL_VADDR + a) = 18446744071562067968 + unat a"
    using a(3) by (simp add: page_in_window_def unat_add_small)
  then have nz: "a + KERNEL_VADDR \<noteq> 0" by (auto simp: add.commute unat_eq_0 [symmetric])
  have cp: "cur_page ?s = a" by (simp add: cur_page_def)
  have U: "table_ok t" "page_of t \<noteq> page_of a" if "t \<in> U" for t
    using inv that pg(3) by (auto simp: pool_inv_def)
  have same: "pte ?m t i = pte (v_mem s) t i" if "t \<in> U" "i < 512" for t i
    using clear_page_pte(2) [OF a(3) U(1) that(2) U(2)] that(1) by simp
  have emp: "empty_table (pte ?m) (dir_table a j)" if "j < 512" for j
    using clear_page_pte(1) [OF a(3) dir_table_facts(1) [OF a(3) that] _ dir_table_facts(3) [OF a(3) that]]
    by (simp add: empty_table_def)
  have out: "dir_table a j \<notin> U" if "j < 512" for j
    using U(2) dir_table_facts(3) [OF a(3) that] by auto
  have "pool_count ?s = 0"
    using emp [of 511] by (simp add: pool_count_def cp tail_is_dir empty_table_def)
  moreover have "block_inv U ?s"
    using a(3) pg(4) out emp by (simp add: block_inv_def cp tail_is_dir)
  then have "pool_inv U ?s" using pg U inv by (auto simp: pool_inv_def)
  ultimately show ?thesis using fb nz left' same by (intro exI [of _ ?s]) simp
qed

text \<open>The contract of the pool: a fresh, empty table, and every table in use as it was.\<close>

lemma new_page_table_ok:
  assumes inv: "pool_inv U s" and left: "0 < tables_left s"
  shows "\<exists>p s'. new_page_table s = Inr (KERNEL_VADDR + p, s') \<and> pool_inv (insert p U) s' \<and>
     table_ok p \<and> p \<notin> U \<and> empty_table (pte (v_mem s')) p \<and>
     (\<forall>t\<in>U. \<forall>i<512. pte (v_mem s') t i = pte (v_mem s) t i) \<and>
     tables_left s' + 1 = tables_left s"
proof (cases "v_cur s = 0")
  case False
  then have k: "pool_count s < 510" using left by (simp add: tables_left_def)
  from take_two [OF inv False k] obtain s' where
    s': "new_page_table s = Inr (KERNEL_VADDR + dir_table (cur_page s) (pool_count s + 1), s')"
      "v_cur s' \<noteq> 0" "pool_count s' = pool_count s + 2" and
    rest: "pool_inv (insert (dir_table (cur_page s) (pool_count s + 1)) U) s'"
      "table_ok (dir_table (cur_page s) (pool_count s + 1))" "dir_table (cur_page s) (pool_count s + 1) \<notin> U"
      "empty_table (pte (v_mem s')) (dir_table (cur_page s) (pool_count s + 1))"
      "\<forall>t\<in>U. \<forall>i<512. pte (v_mem s') t i = pte (v_mem s) t i" by blast
  have "tables_left s' + 1 = tables_left s" using False s'(2,3) left by (simp add: tables_left_def)
  with s'(1) rest show ?thesis by blast
next
  case True
  from new_block [OF inv True left] obtain s1 where
    s1: "first_block s = Inr s1" "pool_inv U s1" "v_cur s1 \<noteq> 0" "pool_count s1 = 0" "tables_left s = 255"
      "\<forall>t\<in>U. \<forall>i<512. pte (v_mem s1) t i = pte (v_mem s) t i" by blast
  from take_two [OF s1(2,3)] s1(4) obtain s' where
    s': "new_page_table s1 = Inr (KERNEL_VADDR + dir_table (cur_page s1) 1, s')"
      "v_cur s' \<noteq> 0" "pool_count s' = 2" and
    rest: "pool_inv (insert (dir_table (cur_page s1) 1) U) s'"
      "table_ok (dir_table (cur_page s1) 1)" "dir_table (cur_page s1) 1 \<notin> U"
      "empty_table (pte (v_mem s')) (dir_table (cur_page s1) 1)"
      "\<forall>t\<in>U. \<forall>i<512. pte (v_mem s') t i = pte (v_mem s1) t i" by auto
  have "new_page_table s = new_page_table s1"
    using s1(1,3) by (simp add: new_page_table_def first_block_def)
  moreover have "tables_left s' + 1 = tables_left s" using s'(2,3) s1(5) by (simp add: tables_left_def)
  ultimately show ?thesis using s'(1) rest s1(6) by (metis (no_types, lifting))
qed

section \<open>One level of the map\<close>

definition vm_inv :: "u64 \<Rightarrow> u64 set \<Rightarrow> u64 set \<Rightarrow> vmm \<Rightarrow> bool" where
  "vm_inv r A3 A2 s \<longleftrightarrow> tree (pte (v_mem s)) r A3 A2 \<and> pool_inv (insert r (A3 \<union> A2)) s"

text \<open>Writing an entry of a table in use does not disturb the pool.\<close>

lemma pool_store:
  fixes e :: u64
  assumes inv: "pool_inv U s" and t: "t \<in> U" "i < 512"
  defines "s' \<equiv> s\<lparr>v_mem := store64 (KERNEL_VADDR + t + 8 * i) e (v_mem s)\<rparr>"
  shows "pool_inv U s'" "tables_left s' = tables_left s"
    "entry_set U t i e (pte (v_mem s)) (pte (v_mem s'))"
    "u \<notin> U \<Longrightarrow> table_ok u \<Longrightarrow> empty_table (pte (v_mem s)) u \<Longrightarrow> empty_table (pte (v_mem s')) u"
proof -
  have U: "\<And>t. t \<in> U \<Longrightarrow> table_ok t" using inv by (auto simp: pool_inv_def)
  have pt: "pte (v_mem s') u j = (if u = t \<and> j = i then e else pte (v_mem s) u j)"
    if "table_ok u" "j < 512" for u j
    using pte_store [OF U [OF t(1)] that(1) t(2) that(2)] by (simp add: s'_def)
  have other: "pte (v_mem s') u j = pte (v_mem s) u j" if "u \<notin> U" "table_ok u" "j < 512" for u j
    using pt [OF that(2,3)] that(1) t(1) by auto
  show "entry_set U t i e (pte (v_mem s)) (pte (v_mem s'))"
    using pt U by (simp add: entry_set_def)
  show emp: "u \<notin> U \<Longrightarrow> table_ok u \<Longrightarrow> empty_table (pte (v_mem s)) u \<Longrightarrow> empty_table (pte (v_mem s')) u" for u
    using other by (simp add: empty_table_def)
  have cp: "cur_page s' = cur_page s" "v_cur s' = v_cur s" "v_phys s' = v_phys s"
    by (simp_all add: s'_def cur_page_def)
  have blk: "block_inv U s' \<and> pool_count s' = pool_count s" if "block_inv U s"
  proof -
    have b: "page_in_window (cur_page s)" "tail_table (cur_page s) \<notin> U"
      using that by (auto simp: block_inv_def)
    have "table_ok (tail_table (cur_page s))"
      using dir_table_facts(1) [OF b(1), of 511] by (simp add: tail_is_dir)
    then have cnt: "pool_count s' = pool_count s"
      using other [OF b(2)] by (simp add: pool_count_def cp)
    then show ?thesis
      using that emp dir_table_facts(1) [OF b(1)] unfolding block_inv_def cp cnt by auto
  qed
  then show "pool_inv U s'" using inv by (simp add: pool_inv_def cp)
  show "tables_left s' = tables_left s"
    using blk inv by (auto simp: tables_left_def cp pool_inv_def)
qed

lemma level_present:
  assumes "bit (pte (v_mem s) t i) 0" "table_ok t"
  shows "virt_get_next_map_level (KERNEL_VADDR + t) i fl s =
     Inr (KERNEL_VADDR + next_table (pte (v_mem s) t i), s)"
proof -
  have "unat (KERNEL_VADDR + t) \<noteq> 0" using pte_addr [OF assms(2), of 0] by simp
  then have "KERNEL_VADDR + t \<noteq> 0" by (simp add: unat_eq_0)
  moreover have "pte (v_mem s) t i AND 1 \<noteq> 0"
    using assms(1) by (simp add: and_one_eq bit_0 odd_iff_mod_2_eq_one)
  ultimately show ?thesis
    by (simp add: virt_get_next_map_level_def next_table_def pte_def Let_def add.commute)
qed

lemma level_new:
  assumes inv: "pool_inv U s" and t: "t \<in> U" "i < 512" "\<not> bit (pte (v_mem s) t i) 0"
    and left: "0 < tables_left s"
  shows "\<exists>p s'. virt_get_next_map_level (KERNEL_VADDR + t) i TABLE_FLAGS s = Inr (KERNEL_VADDR + p, s') \<and>
     pool_inv (insert p U) s' \<and> table_ok p \<and> p \<notin> U \<and> empty_table (pte (v_mem s')) p \<and>
     entry_set U t i (table_entry p) (pte (v_mem s)) (pte (v_mem s')) \<and>
     tables_left s' + 1 = tables_left s"
proof -
  have ok: "table_ok t" using inv t by (auto simp: pool_inv_def)
  have "unat (KERNEL_VADDR + t) \<noteq> 0" using pte_addr [OF ok, of 0] by simp
  then have nz: "KERNEL_VADDR + t \<noteq> 0" by (simp add: unat_eq_0)
  have np: "pte (v_mem s) t i AND 1 = 0" using t(3) by (simp add: and_one_eq bit_0 odd_iff_mod_2_eq_one)
  obtain p s1 where new: "new_page_table s = Inr (KERNEL_VADDR + p, s1)" and
    n: "pool_inv (insert p U) s1" "table_ok p" "p \<notin> U" "empty_table (pte (v_mem s1)) p"
      "\<forall>t\<in>U. \<forall>i<512. pte (v_mem s1) t i = pte (v_mem s) t i" "tables_left s1 + 1 = tables_left s"
    using new_page_table_ok [OF inv left] by blast
  let ?s' = "s1\<lparr>v_mem := store64 (KERNEL_VADDR + t + 8 * i) (table_entry p) (v_mem s1)\<rparr>"
  have lv: "virt_get_next_map_level (KERNEL_VADDR + t) i TABLE_FLAGS s = Inr (KERNEL_VADDR + p, ?s')"
    using nz np new by (simp add: virt_get_next_map_level_def pte_def table_entry_def Let_def)
  have tU: "t \<in> insert p U" using t by simp
  note st = pool_store [OF n(1) tU t(2), of "table_entry p"]
  have set: "entry_set U t i (table_entry p) (pte (v_mem s)) (pte (v_mem ?s'))"
    using st(3) n(5) by (auto simp: entry_set_def)
  have emp: "empty_table (pte (v_mem ?s')) p"
    using st(3) n(3,4) t(1) by (auto simp: entry_set_def empty_table_def)
  show ?thesis using lv st(1,2) n set emp by (intro exI [of _ p] exI [of _ ?s']) simp
qed

lemma level4_ok:
  assumes inv: "vm_inv r A3 A2 s" and i: "i < 512" and left: "0 < tables_left s"
  shows "\<exists>A t s'. virt_get_next_map_level (KERNEL_VADDR + r) i TABLE_FLAGS s = Inr (KERNEL_VADDR + t, s') \<and>
     vm_inv r A A2 s' \<and> bit (pte (v_mem s') r i) 0 \<and> next_table (pte (v_mem s') r i) = t \<and>
     (\<forall>v. lookup (pte (v_mem s')) r v = lookup (pte (v_mem s)) r v) \<and>
     tables_left s \<le> tables_left s' + 1"
proof (cases "bit (pte (v_mem s) r i) 0")
  case True
  have "table_ok r" using inv treeD(1) by (auto simp: vm_inv_def)
  from level_present [OF True this] inv True show ?thesis by fastforce
next
  case False
  have tree: "tree (pte (v_mem s)) r A3 A2" and pool: "pool_inv (insert r (A3 \<union> A2)) s"
    using inv by (auto simp: vm_inv_def)
  obtain p s' where lv: "virt_get_next_map_level (KERNEL_VADDR + r) i TABLE_FLAGS s = Inr (KERNEL_VADDR + p, s')"
    and n: "pool_inv (insert p (insert r (A3 \<union> A2))) s'" "table_ok p" "p \<notin> insert r (A3 \<union> A2)"
      "empty_table (pte (v_mem s')) p"
      "entry_set (insert r (A3 \<union> A2)) r i (table_entry p) (pte (v_mem s)) (pte (v_mem s'))"
      "tables_left s' + 1 = tables_left s"
    using level_new [OF pool insertI1 i False left] by blast
  have e: "pte (v_mem s') r i = table_entry p" using n(5) i by (simp add: entry_set_def)
  have "insert p (insert r (A3 \<union> A2)) = insert r (insert p A3 \<union> A2)" by blast
  then have "vm_inv r (insert p A3) A2 s'"
    using tree_add3(1) [OF tree i False n(2-5)] n(1) by (simp add: vm_inv_def)
  then show ?thesis
    using lv e table_entry_facts [OF n(2)] tree_add3(2) [OF tree i False n(2-5)] n(6)
    by (intro exI [of _ "insert p A3"] exI [of _ p] exI [of _ s']) simp
qed

lemma level3_ok:
  assumes inv: "vm_inv r A3 A2 s" and t: "t \<in> A3" and i: "i < 512" and left: "0 < tables_left s"
  shows "\<exists>A u s'. virt_get_next_map_level (KERNEL_VADDR + t) i TABLE_FLAGS s = Inr (KERNEL_VADDR + u, s') \<and>
     vm_inv r A3 A s' \<and> (\<forall>j<512. pte (v_mem s') r j = pte (v_mem s) r j) \<and>
     bit (pte (v_mem s') t i) 0 \<and> next_table (pte (v_mem s') t i) = u \<and>
     (\<forall>v. lookup (pte (v_mem s')) r v = lookup (pte (v_mem s)) r v) \<and>
     tables_left s \<le> tables_left s' + 1"
proof (cases "bit (pte (v_mem s) t i) 0")
  case True
  have "table_ok t" using inv t treeD(1) by (auto simp: vm_inv_def)
  from level_present [OF True this] inv True show ?thesis by fastforce
next
  case False
  have tree: "tree (pte (v_mem s)) r A3 A2" and pool: "pool_inv (insert r (A3 \<union> A2)) s"
    using inv by (auto simp: vm_inv_def)
  have tU: "t \<in> insert r (A3 \<union> A2)" using t by simp
  obtain p s' where lv: "virt_get_next_map_level (KERNEL_VADDR + t) i TABLE_FLAGS s = Inr (KERNEL_VADDR + p, s')"
    and n: "pool_inv (insert p (insert r (A3 \<union> A2))) s'" "table_ok p" "p \<notin> insert r (A3 \<union> A2)"
      "empty_table (pte (v_mem s')) p"
      "entry_set (insert r (A3 \<union> A2)) t i (table_entry p) (pte (v_mem s)) (pte (v_mem s'))"
      "tables_left s' + 1 = tables_left s"
    using level_new [OF pool tU i False left] by blast
  have e: "pte (v_mem s') t i = table_entry p" using n(5) i tU unfolding entry_set_def by metis
  have "r \<noteq> t" using treeD(2) [OF tree] t by auto
  then have root: "\<forall>j<512. pte (v_mem s') r j = pte (v_mem s) r j" using n(5) by (simp add: entry_set_def)
  have "insert p (insert r (A3 \<union> A2)) = insert r (A3 \<union> insert p A2)" by blast
  then have "vm_inv r A3 (insert p A2) s'"
    using tree_add2(1) [OF tree t i False n(2-5)] n(1) by (simp add: vm_inv_def)
  then show ?thesis
    using lv e table_entry_facts [OF n(2)] tree_add2(2) [OF tree t i False n(2-5)] n(6) root
    by (intro exI [of _ "insert p A2"] exI [of _ p] exI [of _ s']) simp
qed

section \<open>Mapping a page\<close>

lemma page_index_align: "21 \<le> sh \<Longrightarrow> page_index sh (page_align v) = page_index sh v"
  by (rule bit_word_eqI) (auto simp: page_index_def page_align_def BITMASK_21_ALIGN_mask bit_simps
      dest: bit_imp_le_length)

lemma virt_map_page_ok:
  assumes inv: "vm_inv r A3 A2 s" and left: "2 \<le> tables_left s"
    and e: "e = page_align phys OR ucast flags" "bit e 0 \<longrightarrow> bit e 7"
  shows "\<exists>A B s'. virt_map_page (KERNEL_VADDR + r) phys virt flags s = Inr (page_align virt, s') \<and>
     vm_inv r A B s' \<and> tables_left s \<le> tables_left s' + 2 \<and>
     (\<forall>v. lookup (pte (v_mem s')) r v =
        (if same_page v virt then (if bit e 0 then Some e else None) else lookup (pte (v_mem s)) r v))"
proof -
  let ?i4 = "page_index 39 virt" and ?i3 = "page_index 30 virt" and ?i2 = "page_index 21 virt"
  obtain A t s1 where l4: "virt_get_next_map_level (KERNEL_VADDR + r) ?i4 TABLE_FLAGS s = Inr (KERNEL_VADDR + t, s1)"
    and n4: "vm_inv r A A2 s1" "bit (pte (v_mem s1) r ?i4) 0" "next_table (pte (v_mem s1) r ?i4) = t"
      "\<forall>v. lookup (pte (v_mem s1)) r v = lookup (pte (v_mem s)) r v" "tables_left s \<le> tables_left s1 + 1"
    using level4_ok [OF inv page_index_lt [of 39 virt]] left by auto
  have t: "t \<in> A" using n4(1-3) treeD(5) page_index_lt by (auto simp: vm_inv_def)
  obtain B u s2 where l3: "virt_get_next_map_level (KERNEL_VADDR + t) ?i3 TABLE_FLAGS s1 = Inr (KERNEL_VADDR + u, s2)"
    and n3: "vm_inv r A B s2" "\<forall>j<512. pte (v_mem s2) r j = pte (v_mem s1) r j"
      "bit (pte (v_mem s2) t ?i3) 0" "next_table (pte (v_mem s2) t ?i3) = u"
      "\<forall>v. lookup (pte (v_mem s2)) r v = lookup (pte (v_mem s1)) r v" "tables_left s1 \<le> tables_left s2 + 1"
    using level3_ok [OF n4(1) t page_index_lt [of 30 virt]] left n4(5) by auto
  have tree: "tree (pte (v_mem s2)) r A B" and pool: "pool_inv (insert r (A \<union> B)) s2"
    using n3(1) by (auto simp: vm_inv_def)
  have u: "u \<in> B" using treeD(6) [OF tree t page_index_lt n3(3)] n3(4) by simp
  then have uU: "u \<in> insert r (A \<union> B)" by simp
  let ?s' = "s2\<lparr>v_mem := store64 (KERNEL_VADDR + u + 8 * ?i2) e (v_mem s2)\<rparr>"
  note st = pool_store [OF pool uU page_index_lt [of 21 virt], of e]
  have p4: "bit (pte (v_mem s2) r ?i4) 0" "t = next_table (pte (v_mem s2) r ?i4)"
    using n4(2,3) n3(2) page_index_lt by auto
  have "entry_set (insert r (A \<union> B)) (next_table (pte (v_mem s2) t ?i3)) ?i2 e (pte (v_mem s2)) (pte (v_mem ?s'))"
    using st(3) n3(4) by simp
  note set2 = tree_set2 [OF tree p4 n3(3) e(2) this]
  have "vm_inv r A B ?s'" using set2(1) st(1) by (simp add: vm_inv_def)
  moreover have "virt_map_page (KERNEL_VADDR + r) phys virt flags s = Inr (page_align virt, ?s')"
    by (simp add: virt_map_page_def Let_def page_index_align l4 l3 e(1))
  moreover have "tables_left s \<le> tables_left ?s' + 2" using st(2) n4(5) n3(6) by simp
  moreover have "\<forall>v. lookup (pte (v_mem ?s')) r v =
      (if same_page v virt then (if bit e 0 then Some e else None) else lookup (pte (v_mem s)) r v)"
    using set2(2) n3(5) n4(4) by simp
  ultimately show ?thesis by blast
qed

end
