(* ===== verification/VirtProps.thy ===== *)
theory VirtProps
  imports VirtMap
begin

text \<open>
  The properties of the page table code: what \<open>virt_map_page\<close>, \<open>virt_unmap_page\<close> and
  \<open>virtmem_init\<close> make the processor's walk do, and the table the pool should never hand out.
\<close>

section \<open>Entries of large pages\<close>

lemma same_page_refl [simp]: "same_page v v"
  by (simp add: same_page_def)

lemma bit_page_align: "bit (page_align a) n \<longleftrightarrow> bit a n \<and> 21 \<le> n"
  using bit_imp_le_length [of a n] by (auto simp: page_align_def BITMASK_21_ALIGN_mask bit_simps)

definition leaf_flags :: "u32 \<Rightarrow> bool" where
  "leaf_flags flags \<longleftrightarrow> flags AND 0x81 = 0x81 \<and> flags < 0x200000"

lemma bit_below:
  fixes w :: "'a::len word"
  assumes "unat w < 2 ^ k" "bit w n"
  shows "n < k"
proof -
  have "take_bit k (unat w) = unat w" using assms(1) by (rule take_bit_nat_eq_self)
  then have "unat (take_bit k w) = unat w" by (simp only: unsigned_take_bit_eq)
  then have "take_bit k w = w" by (simp only: word_unat_eq_iff)
  then have "bit (take_bit k w) n" using assms(2) by (simp only:)
  then show ?thesis by (simp only: bit_take_bit_iff)
qed

lemma leaf_flags_bits:
  assumes "leaf_flags flags"
  shows "bit flags 0" "bit flags 7" "bit flags n \<Longrightarrow> n < 21"
proof -
  have b: "bit (flags AND 0x81) k = bit (0x81 :: u32) k" for k using assms by (simp add: leaf_flags_def)
  have "bit (0x81 :: u32) 0" "bit (0x81 :: u32) 7" by simp_all
  then show "bit flags 0" "bit flags 7" using b [of 0] b [of 7] unfolding bit_and_iff by blast+
  have "unat flags < 2 ^ 21" using assms by (simp add: leaf_flags_def word_less_nat_alt)
  then show "bit flags n \<Longrightarrow> n < 21" by (rule bit_below)
qed

lemma bit_hw_addr: "bit (hw_addr k e) n \<longleftrightarrow> bit e n \<and> k \<le> n \<and> n < 52"
  unfolding hw_addr_def bit_and_iff bit_not_iff bit_mask_iff
  using bit_imp_le_length [of e n] by auto

lemma leaf_entry:
  assumes "leaf_flags flags" "unat phys < 2 ^ 52"
  defines "e \<equiv> page_align phys OR ucast flags"
  shows "bit e 0" "bit e 7" "hw_addr 21 e = page_align phys"
proof -
  note f = leaf_flags_bits [OF assms(1)]
  have u: "bit (ucast flags :: u64) n \<longleftrightarrow> bit flags n" for n
    using bit_imp_le_length [of flags n] by (simp add: bit_simps) auto
  have b: "bit e n \<longleftrightarrow> bit phys n \<and> 21 \<le> n \<or> bit flags n" for n
    unfolding e_def bit_or_iff bit_page_align u ..
  show "bit e 0" "bit e 7" using b f by blast+
  show "hw_addr 21 e = page_align phys"
  proof (rule bit_word_eqI)
    fix n
    show "bit (hw_addr 21 e) n \<longleftrightarrow> bit (page_align phys) n"
      unfolding bit_hw_addr bit_page_align b
      using bit_below [OF assms(2), of n] f(3) [of n] by linarith
  qed
qed

definition vm_ok :: "u64 \<Rightarrow> vmm \<Rightarrow> bool" where
  "vm_ok r s \<longleftrightarrow> (\<exists>A3 A2. vm_inv r A3 A2 s)"

lemma map_page_walk:
  assumes inv: "vm_ok r s" and left: "2 \<le> tables_left s"
    and e: "e = page_align phys OR ucast flags" "bit e 0 \<longrightarrow> bit e 7"
  shows "\<exists>s'. virt_map_page (KERNEL_VADDR + r) phys virt flags s = Inr (page_align virt, s') \<and>
     vm_ok r s' \<and> tables_left s \<le> tables_left s' + 2 \<and>
     (\<forall>v. mmu_walk (v_mem s') r v =
        (if same_page v virt then (if bit e 0 then Some (hw_addr 21 e OR v AND mask 21) else None)
         else mmu_walk (v_mem s) r v))"
proof -
  obtain A3 A2 where i: "vm_inv r A3 A2 s" using inv by (auto simp: vm_ok_def)
  obtain A B s' where s': "virt_map_page (KERNEL_VADDR + r) phys virt flags s = Inr (page_align virt, s')"
    "vm_inv r A B s'" "tables_left s \<le> tables_left s' + 2"
    "\<forall>v. lookup (pte (v_mem s')) r v =
        (if same_page v virt then (if bit e 0 then Some e else None) else lookup (pte (v_mem s)) r v)"
    using virt_map_page_ok [OF i left e] by blast
  have "mmu_walk (v_mem s') r v =
        (if same_page v virt then (if bit e 0 then Some (hw_addr 21 e OR v AND mask 21) else None)
         else mmu_walk (v_mem s) r v)" for v
    using s'(2,4) i mmu_walk_lookup unfolding vm_inv_def by (auto simp: mmu_walk_lookup)
  with s' show ?thesis by (auto simp: vm_ok_def)
qed

section \<open>Mapping and unmapping\<close>

text \<open>
  C5. \<open>virt_map_page\<close> maps the page and nothing else: in a well-formed state with two tables
  left it succeeds, afterwards the processor's walk takes every address of the 2 MiB page to
  the same offset in the physical page, the walk of every other address is what it was, and
  the state is well formed again.
\<close>
theorem virt_map_page_translates:
  assumes "vm_ok r s" and "2 \<le> tables_left s" and "leaf_flags flags" and "unat phys < 2 ^ 52"
  shows "\<exists>s'. virt_map_page (KERNEL_VADDR + r) phys virt flags s = Inr (page_align virt, s') \<and>
     vm_ok r s' \<and>
     (\<forall>v. mmu_walk (v_mem s') r v =
        (if same_page v virt then Some (page_align phys OR v AND mask 21) else mmu_walk (v_mem s) r v))"
proof -
  let ?e = "page_align phys OR ucast flags"
  note l = leaf_entry [OF assms(3,4)]
  have "bit ?e 0 \<longrightarrow> bit ?e 7" using l by simp
  from map_page_walk [OF assms(1,2) refl this, of virt] show ?thesis by (simp only: l if_True) blast
qed

text \<open>
  C14. \<open>virt_unmap_page\<close> undoes a mapping: afterwards the processor's walk finds nothing for any
  address of the page, and every other address is translated as before.
\<close>
theorem virt_unmap_page_unmaps:
  assumes "vm_ok r s" and "2 \<le> tables_left s"
  shows "\<exists>s'. virt_unmap_page (KERNEL_VADDR + r) virt s = Inr s' \<and> vm_ok r s' \<and>
     (\<forall>v. mmu_walk (v_mem s') r v = (if same_page v virt then None else mmu_walk (v_mem s) r v))"
proof -
  have z: "page_align 0 OR ucast (0 :: u32) = (0 :: u64)" by (simp add: page_align_def)
  from map_page_walk [OF assms z [symmetric], of virt] obtain s' where
    "virt_map_page (KERNEL_VADDR + r) 0 virt 0 s = Inr (page_align virt, s')" "vm_ok r s'"
    "\<forall>v. mmu_walk (v_mem s') r v = (if same_page v virt then None else mmu_walk (v_mem s) r v)"
    by auto
  then show ?thesis by (auto simp: virt_unmap_page_def)
qed

text \<open>
  The last table of a block is the block's own bookkeeping: when the counter stands at 510,
  which it does after 255 tables because each call moves it by two, \<open>new_page_table\<close> returns
  the address of the counter itself as a page table, so the table is not empty, and writing its
  first entry overwrites the counter.
\<close>
theorem new_page_table_hands_out_counter:
  assumes "v_cur s \<noteq> 0" and "load64 (v_mem s) (pta_idx (v_cur s)) = 510"
  shows "\<exists>s'. new_page_table s = Inr (pta_idx (v_cur s), s') \<and> v_cur s' = v_cur s \<and>
     load64 (v_mem s') (pta_idx (v_cur s)) = 512 \<and>
     load64 (store64 (pta_idx (v_cur s)) e (v_mem s')) (pta_idx (v_cur s')) = e"
proof -
  let ?c = "pta_idx (v_cur s)"
  let ?s' = "s\<lparr>v_mem := store64 ?c 512 (store64 ?c 511 (v_mem s))\<rparr>"
  have "pta_dir (v_cur s) 511 = ?c" by (simp add: pta_dir_def pta_idx_def)
  then have "new_page_table s = Inr (?c, ?s')"
    using assms by (simp add: new_page_table_def first_block_def next_block_def take_dir_def Let_def
        load_store_same)
  then show ?thesis by (simp add: load_store_same)
qed

section \<open>Initialisation\<close>

lemma bit_page_index: "bit (page_index sh v) k \<longleftrightarrow> bit v (sh + k) \<and> k < 9"
proof -
  have "(PAGEINDEXMASK :: u64) = mask 9" by (simp add: PAGEINDEXMASK_def mask_eq_exp_minus_1)
  then have "page_index sh v = drop_bit sh v AND mask 9" by (simp only: page_index_def)
  then show ?thesis by (simp only: bit_and_iff bit_drop_bit_eq bit_mask_iff o_def) auto
qed

lemma same_page_bit:
  assumes "same_page v a" "21 \<le> n" "n < 48"
  shows "bit v n \<longleftrightarrow> bit a n"
proof -
  have eq: "bit v (sh + k) \<longleftrightarrow> bit a (sh + k)" if "sh \<in> {21, 30, 39}" "k < 9" for sh k
    using assms(1) that bit_page_index [of sh v k] bit_page_index [of sh a k]
    by (auto simp: same_page_def)
  consider "n < 30" | "30 \<le> n" "n < 39" | "39 \<le> n" by linarith
  then show ?thesis
    using eq [of 21 "n - 21"] eq [of 30 "n - 30"] eq [of 39 "n - 39"] assms(2,3) by cases simp_all
qed

lemma same_page_addr:
  assumes "same_page v a" "unat a < 2 ^ 48"
  shows "page_align a OR v AND mask 21 = v AND mask 48"
proof (rule bit_word_eqI)
  fix n :: nat assume "n < LENGTH(64)"
  then show "bit (page_align a OR v AND mask 21) n \<longleftrightarrow> bit (v AND mask 48) n"
    unfolding bit_or_iff bit_and_iff bit_page_align bit_mask_iff
    using same_page_bit [OF assms(1), of n] bit_below [OF assms(2), of n] by auto
qed

lemma same_pageI:
  assumes "drop_bit 21 v = drop_bit 21 a"
  shows "same_page v a"
proof -
  have "bit v n \<longleftrightarrow> bit a n" if "21 \<le> n" for n
  proof -
    have "bit (drop_bit 21 v) (n - 21) = bit (drop_bit 21 a) (n - 21)" by (simp only: assms)
    then show ?thesis using that by (simp only: bit_drop_bit_eq o_def) simp
  qed
  note bits = this
  have "page_index sh v = page_index sh a" if "21 \<le> sh" for sh
    by (rule bit_word_eqI) (use that bits in \<open>auto simp: bit_page_index\<close>)
  then show ?thesis by (simp add: same_page_def)
qed

lemma map_to_itself:
  assumes "vm_ok r s" "2 \<le> tables_left s" "leaf_flags f" "unat a < 2 ^ 48"
  obtains s' where "virt_map_page (KERNEL_VADDR + r) a a f s = Inr (page_align a, s')"
    "vm_ok r s'" "tables_left s \<le> tables_left s' + 2"
    "\<And>v. mmu_walk (v_mem s') r v = (if same_page v a then Some (v AND mask 48) else mmu_walk (v_mem s) r v)"
proof -
  let ?e = "page_align a OR ucast f"
  have a52: "unat a < 2 ^ 52" using assms(4) by simp
  note l = leaf_entry [OF assms(3) a52]
  have "bit ?e 0 \<longrightarrow> bit ?e 7" using l by blast
  from map_page_walk [OF assms(1,2) refl this, of a] obtain s' where s':
    "virt_map_page (KERNEL_VADDR + r) a a f s = Inr (page_align a, s')" "vm_ok r s'" "tables_left s \<le> tables_left s' + 2"
    "\<forall>v. mmu_walk (v_mem s') r v = (if same_page v a
        then (if bit ?e 0 then Some (hw_addr 21 ?e OR v AND mask 21) else None) else mmu_walk (v_mem s) r v)" by blast
  have "mmu_walk (v_mem s') r v = (if same_page v a then Some (v AND mask 48) else mmu_walk (v_mem s) r v)" for v
    using s'(4) l(1,3) same_page_addr [OF _ assms(4), of v] by simp
  then show thesis using that s'(1-3) by blast
qed

lemma map_fb_pages_ok:
  assumes "vm_ok r s" "2 * length is \<le> tables_left s" "\<forall>i\<in>set is. unat (fb + of_nat i * PAGE_SIZE) < 2 ^ 48"
  shows "\<exists>s'. map_fb_pages is (KERNEL_VADDR + r) fb s = Inr s' \<and> vm_ok r s' \<and> tables_left s \<le> tables_left s' + 2 * length is \<and>
     (\<forall>v. mmu_walk (v_mem s') r v =
        (if \<exists>i\<in>set is. same_page v (fb + of_nat i * PAGE_SIZE)
         then Some (v AND mask 48) else mmu_walk (v_mem s) r v))"
  using assms
proof (induction "is" arbitrary: s)
  case (Cons i "is")
  let ?a = "fb + of_nat i * PAGE_SIZE"
  let ?f = "ucast (PAGE_SIZE_2MB OR PAGE_PRESENT_FLAG OR PAGE_WRITE_FLAG) :: u32"
  have f: "leaf_flags ?f" by code_simp
  have a: "unat ?a < 2 ^ 48" using Cons.prems(3) by simp
  have "2 \<le> tables_left s" using Cons.prems(2) by simp
  then obtain s1 where s1: "virt_map_page (KERNEL_VADDR + r) ?a ?a ?f s = Inr (page_align ?a, s1)"
    "vm_ok r s1" "tables_left s \<le> tables_left s1 + 2"
    "\<And>v. mmu_walk (v_mem s1) r v = (if same_page v ?a then Some (v AND mask 48) else mmu_walk (v_mem s) r v)"
    using map_to_itself [OF Cons.prems(1) _ f a] by blast
  have "2 * length is \<le> tables_left s1" using Cons.prems(2) s1(3) by simp
  from Cons.IH [OF s1(2) this] Cons.prems(3) obtain s' where
    s': "map_fb_pages is (KERNEL_VADDR + r) fb s1 = Inr s'" "vm_ok r s'" "tables_left s1 \<le> tables_left s' + 2 * length is"
      "\<forall>v. mmu_walk (v_mem s') r v = (if \<exists>i\<in>set is. same_page v (fb + of_nat i * PAGE_SIZE)
         then Some (v AND mask 48) else mmu_walk (v_mem s1) r v)" by auto
  have "map_fb_pages (i # is) (KERNEL_VADDR + r) fb s = Inr s'" using s1(1) s'(1) by simp
  moreover have "mmu_walk (v_mem s') r v = (if \<exists>i\<in>set (i # is). same_page v (fb + of_nat i * PAGE_SIZE)
         then Some (v AND mask 48) else mmu_walk (v_mem s) r v)" for v
    using s'(4) s1(4) by auto
  moreover have "tables_left s \<le> tables_left s' + 2 * length (i # is)" using s1(3) s'(3) by simp
  ultimately show ?case using s'(2) by blast
qed simp

lemma phys_malloc_mono:
  assumes "pmm_wf ph" "phys_malloc sz ph = Inr (a, ph')" "page_used (pmm ph) q"
  shows "page_used (pmm ph') q"
  using phys_malloc_cases [OF assms(1) refl, of sz] assms(2,3) by (auto simp: marks_def)

lemma vm_ok_phys:
  assumes "vm_ok r s" "phys_malloc sz (v_phys s) = Inr (a, ph)"
  shows "vm_ok r (s\<lparr>v_phys := ph\<rparr>)"
proof -
  obtain A B where i: "vm_inv r A B s" using assms(1) by (auto simp: vm_ok_def)
  then have wf: "pmm_wf (v_phys s)" by (simp add: vm_inv_def pool_inv_def)
  have "block_inv U (s\<lparr>v_phys := ph\<rparr>)" if "block_inv U s" for U
    using that phys_malloc_mono [OF wf assms(2)]
    by (simp add: block_inv_def cur_page_def pool_count_def)
  then have "vm_inv r A B (s\<lparr>v_phys := ph\<rparr>)"
    using i phys_malloc_mono [OF wf assms(2)] phys_malloc_wf [OF wf assms(2)]
    by (simp add: vm_inv_def pool_inv_def)
  then show ?thesis by (auto simp: vm_ok_def)
qed

lemma low_and_mask: "unat (v :: u64) < 2 ^ 48 \<Longrightarrow> v AND mask 48 = v"
  by (metis take_bit_nat_eq_self take_bit_eq_mask unsigned_take_bit_eq word_unat_eq_iff)

lemma virtmem_init_ok:
  assumes "vm_ok r s" and "phys_malloc (PAGE_SIZE * 64) (v_phys s) = Inr (x, ph)"
    and "8 \<le> tables_left (s\<lparr>v_phys := ph\<rparr>)" and "fb_h kb * fb_pitch kb < PAGE_SIZE * 4"
    and "unat (fb_addr kb) + 4 * 2097152 \<le> 2 ^ 48"
  shows "\<exists>s'. virtmem_init r kb s = Inr (kb\<lparr>fb_ptr := fb_addr kb\<rparr>, s') \<and> vm_ok r s' \<and>
     tables_left (s\<lparr>v_phys := ph\<rparr>) \<le> tables_left s' + 8 \<and>
     (\<forall>v. unat (page_align (fb_addr kb)) \<le> unat v \<and>
          unat v < unat (page_align (fb_addr kb)) + 4 * 2097152 \<longrightarrow> mmu_walk (v_mem s') r v = Some v)"
proof -
  let ?fb = "fb_addr kb" and ?s1 = "s\<lparr>v_phys := ph\<rparr>"
  have ok: "vm_ok r ?s1" using vm_ok_phys [OF assms(1,2)] .
  have fb: "unat (?fb + of_nat i * PAGE_SIZE) = unat ?fb + i * 2097152" if "i < 4" for i
  proof -
    have "of_nat i * PAGE_SIZE = (of_nat (i * 2097152) :: u64)" by (simp add: PAGE_SIZE_def)
    then show ?thesis using unat_add_of_nat [of ?fb "i * 2097152"] that assms(5) by simp
  qed
  have "\<forall>i\<in>set [0..<4]. unat (?fb + of_nat i * PAGE_SIZE) < 2 ^ 48" using fb assms(5) by auto
  from map_fb_pages_ok [OF ok _ this] assms(3) obtain s' where
    s': "map_fb_pages [0..<4] (KERNEL_VADDR + r) ?fb ?s1 = Inr s'" "vm_ok r s'" "tables_left ?s1 \<le> tables_left s' + 8"
      "\<forall>v. mmu_walk (v_mem s') r v = (if \<exists>i\<in>set [0..<4]. same_page v (?fb + of_nat i * PAGE_SIZE)
         then Some (v AND mask 48) else mmu_walk (v_mem ?s1) r v)" by auto
  have "mmu_walk (v_mem s') r v = Some v"
    if v: "unat (page_align ?fb) \<le> unat v" "unat v < unat (page_align ?fb) + 4 * 2097152" for v
  proof -
    let ?i = "unat v div 2097152 - unat ?fb div 2097152"
    have pa: "unat (page_align ?fb) = unat ?fb div 2097152 * 2097152" by (simp add: unat_page_align)
    then have i: "?i < 4" "unat v div 2097152 = unat ?fb div 2097152 + ?i" using v by linarith+
    have "unat (drop_bit 21 v) = unat (drop_bit 21 (?fb + of_nat ?i * PAGE_SIZE))"
      unfolding drop_bit_eq_div using fb [OF i(1)] i(2) by (simp add: unat_div_distrib)
    then have "same_page v (?fb + of_nat ?i * PAGE_SIZE)"
      by (intro same_pageI) (simp only: word_unat_eq_iff)
    then have "\<exists>i\<in>set [0..<4]. same_page v (?fb + of_nat i * PAGE_SIZE)" using i(1) by auto
    moreover have "unat v < 2 ^ 48" using v pa assms(5) by simp
    then have "v AND mask 48 = v" by (rule low_and_mask)
    ultimately show ?thesis using s'(4) by (simp only: if_True)
  qed
  moreover have "virtmem_init r kb s = Inr (kb\<lparr>fb_ptr := ?fb\<rparr>, s')"
    using assms(2,4) s'(1) by (simp add: virtmem_init_def add.commute)
  ultimately show ?thesis using s'(2,3) by auto
qed

text \<open>
  \<open>virtmem_init\<close> gives the kernel its framebuffer: if the framebuffer is smaller than four
  pages, lies below 2^48 and eight tables are left, it returns, the framebuffer pointer is the
  physical address, and every address of the four pages from the one the framebuffer starts in
  is translated to itself.
\<close>
theorem virtmem_init_maps_framebuffer:
  assumes "vm_ok r s" and "phys_malloc (PAGE_SIZE * 64) (v_phys s) = Inr (x, ph)"
    and "8 \<le> tables_left (s\<lparr>v_phys := ph\<rparr>)" and "fb_h kb * fb_pitch kb < PAGE_SIZE * 4"
    and "unat (fb_addr kb) + 4 * 2097152 \<le> 2 ^ 48"
  shows "\<exists>kb' s'. virtmem_init r kb s = Inr (kb', s') \<and> fb_ptr kb' = fb_addr kb \<and> vm_ok r s' \<and>
     (\<forall>v. unat (page_align (fb_addr kb)) \<le> unat v \<and>
          unat v < unat (page_align (fb_addr kb)) + 4 * 2097152 \<longrightarrow> mmu_walk (v_mem s') r v = Some v)"
  using virtmem_init_ok [OF assms] by auto

section \<open>Witnesses\<close>

definition demo_vmm :: vmm where
  "demo_vmm = \<lparr>v_phys = demo_pmm, v_mem = (\<lambda>_. 0), v_cur = 0\<rparr>"

definition demo_root :: u64 where "demo_root = 0x200000"

lemma pte_zero: "pte (\<lambda>_. 0) t i = 0"
  by (rule bit_word_eqI) (simp add: pte_def load64_def bit_of_le)

lemma demo_vm_ok: "vm_ok demo_root demo_vmm"
proof -
  have "page_used (pmm demo_pmm) 1" by (simp add: demo_pmm_def page_used_def)
  then have "vm_inv demo_root {} {} demo_vmm"
    using demo_pmm_wf
    by (simp add: vm_inv_def pool_inv_def demo_vmm_def tree_def pte_zero demo_root_def table_ok_def
        page_of_def)
  then show ?thesis by (auto simp: vm_ok_def)
qed

lemma demo_page: "map_sum id fst (phys_malloc PAGE_SIZE demo_pmm) = Inr 0x2000000"
  by code_simp

lemma demo_tables_left: "tables_left demo_vmm = 255"
  using demo_page
  by (auto simp: tables_left_def demo_vmm_def page_in_window_def split: sum.splits)

theorem virt_map_page_translates_witness:
  "\<exists>s'. virt_map_page (KERNEL_VADDR + demo_root) 0x4000000 0xFD000000 0x83 demo_vmm =
       Inr (page_align 0xFD000000, s') \<and>
     mmu_walk (v_mem s') demo_root 0xFD000123 = Some 0x4000123"
proof -
  have f: "leaf_flags 0x83" by code_simp
  have l: "2 \<le> tables_left demo_vmm" by (simp add: demo_tables_left)
  have p: "unat (0x4000000 :: u64) < 2 ^ 52" by simp
  have w: "same_page 0xFD000123 0xFD000000" by code_simp
  have r: "page_align 0x4000000 OR 0xFD000123 AND mask 21 = (0x4000123 :: u64)" by code_simp
  from virt_map_page_translates [OF demo_vm_ok l f p, where virt = "0xFD000000"] obtain s' where
    "virt_map_page (KERNEL_VADDR + demo_root) 0x4000000 0xFD000000 0x83 demo_vmm =
       Inr (page_align 0xFD000000, s')"
    "\<forall>v. mmu_walk (v_mem s') demo_root v = (if same_page v 0xFD000000
        then Some (page_align 0x4000000 OR v AND mask 21) else mmu_walk (v_mem demo_vmm) demo_root v)"
    by blast
  with w r show ?thesis by (metis (no_types, lifting))
qed

theorem virt_unmap_page_unmaps_witness:
  "\<exists>s'. virt_unmap_page (KERNEL_VADDR + demo_root) 0xFD000000 demo_vmm = Inr s' \<and>
     mmu_walk (v_mem s') demo_root 0xFD000000 = None"
proof -
  have l: "2 \<le> tables_left demo_vmm" by (simp add: demo_tables_left)
  from virt_unmap_page_unmaps [OF demo_vm_ok l, where virt = "0xFD000000"] show ?thesis by auto
qed

theorem new_page_table_hands_out_counter_witness:
  "\<exists>s'. new_page_table (demo_vmm\<lparr>v_cur := 0xffffffff84000000,
         v_mem := store64 (pta_idx 0xffffffff84000000) 510 (\<lambda>_. 0)\<rparr>) =
       Inr (0xffffffff841ff000, s')"
proof -
  let ?s = "demo_vmm\<lparr>v_cur := 0xffffffff84000000,
         v_mem := store64 (pta_idx 0xffffffff84000000) 510 (\<lambda>_. 0)\<rparr>"
  have "v_cur ?s \<noteq> 0" "load64 (v_mem ?s) (pta_idx (v_cur ?s)) = 510" by (simp_all add: load_store_same)
  from new_page_table_hands_out_counter [OF this] show ?thesis by (auto simp: pta_idx_def)
qed

theorem virtmem_init_maps_framebuffer_witness:
  "\<exists>kb' s'. virtmem_init demo_root \<lparr>dbg_use_serial = 0, dbg_use_vm = 0, dbg_level = 0,
       kmb_first_tag = 0, kmb_mmap = 0, kmb_mmap_size = 0, fb_ptr = 0, fb_addr = 0xFD000000,
       fb_w = 1024, fb_h = 768, fb_pitch = 4096, fb_bpp = 32, is_legacy_bios = False\<rparr> demo_vmm = Inr (kb', s') \<and>
     mmu_walk (v_mem s') demo_root 0xFD000010 = Some 0xFD000010"
proof -
  let ?kb = "\<lparr>dbg_use_serial = 0, dbg_use_vm = 0, dbg_level = 0,
       kmb_first_tag = 0, kmb_mmap = 0, kmb_mmap_size = 0, fb_ptr = 0, fb_addr = 0xFD000000,
       fb_w = 1024, fb_h = 768, fb_pitch = 4096, fb_bpp = 32, is_legacy_bios = False\<rparr>"
  obtain x ph where ph: "phys_malloc (PAGE_SIZE * 64) (v_phys demo_vmm) = Inr (x, ph)"
    "map_sum id fst (phys_malloc PAGE_SIZE ph) = Inr 0xA000000"
    using demo_alloc_pages by (auto simp: demo_vmm_def)
  have "8 \<le> tables_left (demo_vmm\<lparr>v_phys := ph\<rparr>)"
    using ph(2) by (auto simp: tables_left_def demo_vmm_def page_in_window_def split: sum.splits)
  moreover have "fb_h ?kb * fb_pitch ?kb < PAGE_SIZE * 4" by (simp add: PAGE_SIZE_def)
  moreover have "unat (fb_addr ?kb) + 4 * 2097152 \<le> 2 ^ 48" by simp
  ultimately have "\<exists>kb' s'. virtmem_init demo_root ?kb demo_vmm = Inr (kb', s') \<and> fb_ptr kb' = fb_addr ?kb \<and>
     vm_ok demo_root s' \<and> (\<forall>v. unat (page_align (fb_addr ?kb)) \<le> unat v \<and>
       unat v < unat (page_align (fb_addr ?kb)) + 4 * 2097152 \<longrightarrow> mmu_walk (v_mem s') demo_root v = Some v)"
    by (rule virtmem_init_maps_framebuffer [OF demo_vm_ok ph(1)])
  moreover have "unat (page_align 0xFD000000) = 0xFD000000" by (simp add: unat_page_align)
  ultimately obtain kb' s' where "virtmem_init demo_root ?kb demo_vmm = Inr (kb', s')"
    "mmu_walk (v_mem s') demo_root 0xFD000010 = Some 0xFD000010" by auto
  then show ?thesis by blast
qed

end
