(* ===== verification/Tlb.thy ===== *)
theory Tlb
  imports VirtProps
begin

text \<open>
  Page tables behind a translation lookaside buffer. The processor may remember any translation
  it has walked, and uses what it remembers before it walks; \<^verbatim>\<open>virtmem.c\<close> writes the tables and
  then runs \<open>flush_tlb\<close> and \<open>invalidate_page\<close>. With these every access is translated as by the map
  from addresses to addresses that mapping and unmapping describe.
\<close>

section \<open>The buffer\<close>

text \<open>
  What is remembered for an address, and whether the entry is global. Loading \<open>cr3\<close> drops what is
  not global, \<open>invlpg\<close> everything of the page.
\<close>

type_synonym tlb = "u64 \<Rightarrow> (u64 \<times> bool) option"

definition load_cr3 :: "tlb \<Rightarrow> tlb" where
  "load_cr3 t = (\<lambda>v. case t v of Some (p, g) \<Rightarrow> if g then Some (p, g) else None | None \<Rightarrow> None)"

text \<open>\<open>cr3\<close> is loaded with its own value, twice.\<close>

definition flush_tlb :: "tlb \<Rightarrow> tlb" where
  "flush_tlb t = load_cr3 (load_cr3 t)"

definition invalidate_page :: "u64 \<Rightarrow> tlb \<Rightarrow> tlb" where
  "invalidate_page virt t = (\<lambda>v. if same_page v virt then None else t v)"

text \<open>What the processor does with an address below the tables at \<open>r\<close>.\<close>

definition translate :: "u64 \<Rightarrow> vmm \<times> tlb \<Rightarrow> u64 \<Rightarrow> u64 option" where
  "translate r st v = (case snd st v of Some (p, g) \<Rightarrow> Some p | None \<Rightarrow> mmu_walk (v_mem (fst st)) r v)"

section \<open>Operations\<close>

definition map_flush :: "u64 \<Rightarrow> u64 \<Rightarrow> u64 \<Rightarrow> u32 \<Rightarrow> vmm \<times> tlb \<Rightarrow> (u64 \<times> vmm \<times> tlb) res" where
  "map_flush pt phys virt flags st =
     bindE (virt_map_page pt phys virt flags (fst st)) (\<lambda>(a, s').
       Inr (a, s', invalidate_page (page_align virt) (flush_tlb (snd st))))"

definition unmap_flush :: "u64 \<Rightarrow> u64 \<Rightarrow> vmm \<times> tlb \<Rightarrow> (vmm \<times> tlb) res" where
  "unmap_flush pt virt st = bindE (map_flush pt 0 virt 0 st) (\<lambda>(_, st'). Inr st')"

text \<open>
  The kernel maps and unmaps; in between the processor remembers the translation of any address
  that has one, as a global entry or not.
\<close>

datatype mmu_op = Map_page u64 u64 u32 | Unmap_page u64 | Remember u64 bool

fun mmu_step :: "u64 \<Rightarrow> mmu_op \<Rightarrow> vmm \<times> tlb \<Rightarrow> (vmm \<times> tlb) res" where
  "mmu_step r (Map_page phys virt flags) st =
     bindE (map_flush (KERNEL_VADDR + r) phys virt flags st) (\<lambda>(_, st'). Inr st')"
| "mmu_step r (Unmap_page virt) st = unmap_flush (KERNEL_VADDR + r) virt st"
| "mmu_step r (Remember v g) st =
     Inr (case mmu_walk (v_mem (fst st)) r v of
            Some p \<Rightarrow> (fst st, (snd st)(v \<mapsto> (p, g)))
          | None \<Rightarrow> st)"

fun mmu_run :: "u64 \<Rightarrow> mmu_op list \<Rightarrow> vmm \<times> tlb \<Rightarrow> (vmm \<times> tlb) res" where
  "mmu_run r [] st = Inr st"
| "mmu_run r (x # xs) st = bindE (mmu_step r x st) (mmu_run r xs)"

section \<open>Specification\<close>

text \<open>The address map: what a mapping and an unmapping do to it; remembering does nothing.\<close>

fun spec_step :: "mmu_op \<Rightarrow> (u64 \<Rightarrow> u64 option) \<Rightarrow> u64 \<Rightarrow> u64 option" where
  "spec_step (Map_page phys virt flags) a = (\<lambda>v. if same_page v virt then Some (page_align phys OR v AND mask 21) else a v)"
| "spec_step (Unmap_page virt) a = (\<lambda>v. if same_page v virt then None else a v)"
| "spec_step (Remember v g) a = a"

definition spec_run :: "mmu_op list \<Rightarrow> (u64 \<Rightarrow> u64 option) \<Rightarrow> u64 \<Rightarrow> u64 option" where
  "spec_run xs a = fold spec_step xs a"

fun op_ok :: "mmu_op \<Rightarrow> bool" where
  "op_ok (Map_page phys virt flags) \<longleftrightarrow> leaf_flags flags \<and> unat phys < 2 ^ 52"
| "op_ok _ \<longleftrightarrow> True"

section \<open>Coherence\<close>

text \<open>What is remembered is what a walk finds.\<close>

definition coherent :: "u64 \<Rightarrow> vmm \<times> tlb \<Rightarrow> bool" where
  "coherent r st \<longleftrightarrow> (\<forall>v p g. snd st v = Some (p, g) \<longrightarrow> mmu_walk (v_mem (fst st)) r v = Some p)"

lemma coherent_translate: "coherent r st \<Longrightarrow> translate r st v = mmu_walk (v_mem (fst st)) r v"
  by (auto simp: coherent_def translate_def split: option.splits)

lemma same_page_align: "same_page v (page_align w) = same_page v w"
  by (simp add: same_page_def page_index_align)

lemma flush_tlb_Some: "flush_tlb t v = Some (p, g) \<Longrightarrow> t v = Some (p, g)"
  by (auto simp: flush_tlb_def load_cr3_def split: option.splits if_splits)

text \<open>
  A write to the tables that changes the walk of one page only, followed by the two instructions,
  keeps the buffer coherent, whatever was remembered of the page and of others.
\<close>

lemma coherent_after_flush:
  assumes "coherent r (s, t)" and "\<And>v. \<not> same_page v virt \<Longrightarrow> mmu_walk (v_mem s') r v = mmu_walk (v_mem s) r v"
  shows "coherent r (s', invalidate_page (page_align virt) (flush_tlb t))"
  using assms flush_tlb_Some [of t]
  by (fastforce simp: coherent_def invalidate_page_def same_page_align split: if_splits)

definition mmu_ok :: "u64 \<Rightarrow> nat \<Rightarrow> vmm \<times> tlb \<Rightarrow> bool" where
  "mmu_ok r n st \<longleftrightarrow> vm_ok r (fst st) \<and> coherent r st \<and> 2 * n \<le> tables_left (fst st)"

lemma map_flush_ok:
  assumes "mmu_ok r (Suc n) st" and e: "e = page_align phys OR ucast flags" "bit e 0 \<longrightarrow> bit e 7"
  obtains st' where "map_flush (KERNEL_VADDR + r) phys virt flags st = Inr (page_align virt, st')" "mmu_ok r n st'"
    "\<forall>v. mmu_walk (v_mem (fst st')) r v =
        (if same_page v virt then (if bit e 0 then Some (hw_addr 21 e OR v AND mask 21) else None)
         else mmu_walk (v_mem (fst st)) r v)"
proof -
  obtain s t where st: "st = (s, t)" by (cases st)
  have ok: "vm_ok r s" "coherent r (s, t)" "2 \<le> tables_left s" "2 * Suc n \<le> tables_left s"
    using assms(1) by (simp_all add: mmu_ok_def st)
  from map_page_walk [OF ok(1,3) e, of virt] obtain s' where
    s': "virt_map_page (KERNEL_VADDR + r) phys virt flags s = Inr (page_align virt, s')" "vm_ok r s'"
      "tables_left s \<le> tables_left s' + 2"
      "\<forall>v. mmu_walk (v_mem s') r v =
        (if same_page v virt then (if bit e 0 then Some (hw_addr 21 e OR v AND mask 21) else None)
         else mmu_walk (v_mem s) r v)" by blast
  have "coherent r (s', invalidate_page (page_align virt) (flush_tlb t))"
    by (rule coherent_after_flush [OF ok(2)]) (simp add: s'(4))
  then have "mmu_ok r n (s', invalidate_page (page_align virt) (flush_tlb t))"
    using s'(2,3) ok(4) by (simp add: mmu_ok_def)
  then show ?thesis
    by (rule that [rotated]) (use s'(1,4) in \<open>simp_all add: map_flush_def st\<close>)
qed

lemma mmu_step_refines:
  assumes "mmu_ok r (Suc n) st" "op_ok x"
  obtains st' where "mmu_step r x st = Inr st'" "mmu_ok r n st'"
    "mmu_walk (v_mem (fst st')) r = spec_step x (mmu_walk (v_mem (fst st)) r)"
proof (cases x)
  case (Map_page phys virt flags)
  then have l: "leaf_flags flags" "unat phys < 2 ^ 52" using assms(2) by simp_all
  note e = leaf_entry [OF l]
  obtain st' where "map_flush (KERNEL_VADDR + r) phys virt flags st = Inr (page_align virt, st')" "mmu_ok r n st'"
    "\<forall>v. mmu_walk (v_mem (fst st')) r v =
        (if same_page v virt then Some (page_align phys OR v AND mask 21) else mmu_walk (v_mem (fst st)) r v)"
    by (rule map_flush_ok [OF assms(1) refl, of phys flags virt]) (simp_all add: e)
  then show ?thesis using that [of st'] by (simp add: Map_page fun_eq_iff)
next
  case (Unmap_page virt)
  have z: "page_align 0 OR ucast (0 :: u32) = (0 :: u64)" by (simp add: page_align_def)
  obtain st' where "map_flush (KERNEL_VADDR + r) 0 virt 0 st = Inr (page_align virt, st')" "mmu_ok r n st'"
    "\<forall>v. mmu_walk (v_mem (fst st')) r v = (if same_page v virt then None else mmu_walk (v_mem (fst st)) r v)"
    by (rule map_flush_ok [OF assms(1) z [symmetric], of virt]) simp_all
  then show ?thesis using that [of st'] by (simp add: Unmap_page unmap_flush_def fun_eq_iff)
next
  case (Remember v g)
  have "mmu_ok r n st" using assms(1) by (simp add: mmu_ok_def)
  moreover have "coherent r (fst st, (snd st)(v \<mapsto> (p, g)))" if "mmu_walk (v_mem (fst st)) r v = Some p" for p
    using assms(1) that by (auto simp: mmu_ok_def coherent_def)
  ultimately show ?thesis
    using that by (cases "mmu_walk (v_mem (fst st)) r v") (simp_all add: Remember mmu_ok_def)
qed

lemma mmu_run_refines:
  assumes "mmu_ok r (length xs) st" "\<forall>x\<in>set xs. op_ok x"
  shows "\<exists>st'. mmu_run r xs st = Inr st' \<and> mmu_ok r 0 st' \<and>
    mmu_walk (v_mem (fst st')) r = spec_run xs (mmu_walk (v_mem (fst st)) r)"
  using assms
proof (induction xs arbitrary: st)
  case (Cons x xs)
  have "mmu_ok r (Suc (length xs)) st" "op_ok x" using Cons.prems by simp_all
  then obtain st1 where 1: "mmu_step r x st = Inr st1" "mmu_ok r (length xs) st1"
    "mmu_walk (v_mem (fst st1)) r = spec_step x (mmu_walk (v_mem (fst st)) r)" by (rule mmu_step_refines)
  from Cons.IH [OF 1(2)] Cons.prems(2) show ?case by (simp add: 1 spec_run_def)
qed (simp add: spec_run_def)


section \<open>Witness\<close>


end
