(* ===== verification/PortIO.thy ===== *)
theory PortIO
  imports Prelude "HOL-Library.State_Monad"
begin

text \<open>
  \<^verbatim>\<open>src/include/kernel/port/port.h\<close> and the volatile accesses of the drivers. What the kernel asks
  of the devices is a list of events, oldest first; what a device answers to a read is a
  parameter: any function of the events so far, the read included. Programs that only talk to
  devices are in the state monad over the list.
\<close>

datatype io_event =
    Port_in u16
  | Port_out u16 u8
  | Port_inw u16
  | Port_outw u16 u16
  | Mmio_read u64
  | Mmio_write u64 u32
  | Mmio_read64 u64
  | Mmio_write64 u64 u64

type_synonym io = "io_event list"
type_synonym device = "io \<Rightarrow> u64"
type_synonym 'a io_prog = "(io, 'a) state"

definition emit :: "io_event \<Rightarrow> unit io_prog" where
  "emit e = State (\<lambda>h. ((), h @ [e]))"

definition ask :: "device \<Rightarrow> io_event \<Rightarrow> u64 io_prog" where
  "ask dev e = State (\<lambda>h. (dev (h @ [e]), h @ [e]))"

definition port_byte_in :: "device \<Rightarrow> u16 \<Rightarrow> u8 io_prog" where
  "port_byte_in dev port = do { r \<leftarrow> ask dev (Port_in port); State_Monad.return (ucast r) }"

definition port_byte_out :: "u16 \<Rightarrow> u8 \<Rightarrow> unit io_prog" where
  "port_byte_out port data = emit (Port_out port data)"

definition port_word_in :: "device \<Rightarrow> u16 \<Rightarrow> u16 io_prog" where
  "port_word_in dev port = do { r \<leftarrow> ask dev (Port_inw port); State_Monad.return (ucast r) }"

definition port_word_out :: "u16 \<Rightarrow> u16 \<Rightarrow> unit io_prog" where
  "port_word_out port data = emit (Port_outw port data)"

definition io_wait :: "unit io_prog" where
  "io_wait = port_byte_out 0x80 0"

definition port_e9_hack_out :: "u8 \<Rightarrow> unit io_prog" where
  "port_e9_hack_out c = port_byte_out 0xe9 c"

definition mmio_read32 :: "device \<Rightarrow> u64 \<Rightarrow> u32 io_prog" where
  "mmio_read32 dev a = do { r \<leftarrow> ask dev (Mmio_read a); State_Monad.return (ucast r) }"

definition mmio_write32 :: "u64 \<Rightarrow> u32 \<Rightarrow> unit io_prog" where
  "mmio_write32 a v = emit (Mmio_write a v)"

definition mmio_read64 :: "device \<Rightarrow> u64 \<Rightarrow> u64 io_prog" where
  "mmio_read64 dev a = ask dev (Mmio_read64 a)"

definition mmio_write64 :: "u64 \<Rightarrow> u64 \<Rightarrow> unit io_prog" where
  "mmio_write64 a v = emit (Mmio_write64 a v)"

section \<open>Running\<close>

named_theorems io_simps \<open>the events a program appends and the value it returns\<close>

lemma run_bind [io_simps]:
  "run_state (State_Monad.bind p f) h = (case run_state p h of (a, h') \<Rightarrow> run_state (f a) h')"
  by (cases p) (simp add: State_Monad.bind_def split: prod.splits)

lemma run_basic [io_simps]:
  "run_state (State_Monad.return a) h = (a, h)"
  "run_state (emit e) h = ((), h @ [e])"
  "run_state (ask dev e) h = (dev (h @ [e]), h @ [e])"
  by (simp_all add: emit_def ask_def State_Monad.return_def)

lemma run_ports [io_simps]:
  "run_state (port_byte_in dev p) h = (ucast (dev (h @ [Port_in p])), h @ [Port_in p])"
  "run_state (port_byte_out p v) h = ((), h @ [Port_out p v])"
  "run_state io_wait h = ((), h @ [Port_out 0x80 0])"
  by (simp_all add: port_byte_in_def port_byte_out_def io_wait_def io_simps)

lemma run_mmio [io_simps]:
  "run_state (mmio_read32 dev a) h = (ucast (dev (h @ [Mmio_read a])), h @ [Mmio_read a])"
  "run_state (mmio_write32 a v) h = ((), h @ [Mmio_write a v])"
  "run_state (mmio_read64 dev a) h = (dev (h @ [Mmio_read64 a]), h @ [Mmio_read64 a])"
  "run_state (mmio_write64 a w) h = ((), h @ [Mmio_write64 a w])"
  by (simp_all add: mmio_read32_def mmio_write32_def mmio_read64_def mmio_write64_def io_simps)

section \<open>Polling\<close>

text \<open>
  A loop that repeats one access until its answer stops it. It returns as soon as there is such
  an answer, and has made no other access by then.
\<close>

locale polling =
  fixes loop :: "io \<Rightarrow> io option" and dev :: device and ev :: io_event and again :: "u64 \<Rightarrow> bool"
  assumes step: "loop h = (if again (dev (h @ [ev])) then loop (h @ [ev]) else Some (h @ [ev]))"
begin

lemma loop_first:
  assumes "\<not> again (dev (h @ replicate (Suc k) ev))" "\<forall>i<k. again (dev (h @ replicate (Suc i) ev))"
  shows "loop h = Some (h @ replicate (Suc k) ev)"
  using assms
proof (induction k arbitrary: h)
  case 0
  then show ?case by (subst step) simp
next
  case (Suc k)
  have "again (dev (h @ [ev]))" using Suc.prems(2) by (auto dest: spec [of _ 0])
  moreover have "loop (h @ [ev]) = Some ((h @ [ev]) @ replicate (Suc k) ev)"
    by (rule Suc.IH) (use Suc.prems in auto)
  ultimately show ?case by (subst step) simp
qed

lemma loop_returns:
  assumes "\<not> again (dev (h @ replicate (Suc n) ev))"
  obtains k where "k \<le> n" "loop h = Some (h @ replicate (Suc k) ev)"
proof -
  let ?stop = "\<lambda>i. \<not> again (dev (h @ replicate (Suc i) ev))"
  define k where "k = (LEAST i. ?stop i)"
  have "?stop k" unfolding k_def by (rule LeastI [of ?stop, OF assms])
  moreover have "\<forall>i<k. again (dev (h @ replicate (Suc i) ev))" unfolding k_def using not_less_Least by blast
  moreover have "k \<le> n" unfolding k_def by (rule Least_le [of ?stop, OF assms])
  ultimately show ?thesis using loop_first that by blast
qed

end

end
