(* ===== verification/CStrings.thy ===== *)
theory CStrings
  imports MemOps "HOL-Library.Signed_Division"
begin

text \<open>
  \<^verbatim>\<open>src/kstdlib/string.c\<close>: the string functions on byte memory. A \<open>char\<close> is a byte, compared
  as the signed number it is on x86. A search for the end of a string that memory does not
  terminate does not return, which is the fault \<open>Diverges\<close>.
\<close>

section \<open>Length\<close>

partial_function (option) strlen_loop :: "mem \<Rightarrow> u64 \<Rightarrow> u64 \<Rightarrow> u64 option" where
  "strlen_loop m str sz = (if m (str + sz) \<noteq> 0 then strlen_loop m str (sz + 1) else Some sz)"

definition strlen :: "mem \<Rightarrow> u64 \<Rightarrow> u64 res" where
  "strlen m str = (case strlen_loop m str 0 of None \<Rightarrow> Inl Diverges | Some n \<Rightarrow> Inr n)"

text \<open>The index of \<open>strnlen\<close> never passes \<open>max\<close>; it is a number here.\<close>

function strnlen_loop :: "mem \<Rightarrow> u64 \<Rightarrow> nat \<Rightarrow> nat \<Rightarrow> nat" where
  "strnlen_loop m str mx len =
     (if len < mx then (if m (str + of_nat len) = 0 then len else strnlen_loop m str mx (Suc len))
      else len)"
  by auto
termination by (relation "measure (\<lambda>(m, s, mx, len). mx - len)") auto

declare strnlen_loop.simps [simp del]

definition strnlen :: "mem \<Rightarrow> u64 \<Rightarrow> u64 \<Rightarrow> u64" where
  "strnlen m str mx = of_nat (strnlen_loop m str (unat mx) 0)"

section \<open>Copying\<close>

definition strcpy :: "u64 \<Rightarrow> u64 \<Rightarrow> mem \<Rightarrow> (u64 \<times> mem) res" where
  "strcpy dest src m =
     (if dest = 0 \<or> src = 0 then Inr (0, m)
      else bindE (strlen m src) (\<lambda>_.
           bindE (strlen m src) (\<lambda>n. Inr (memcpy dest src (n + 1) m))))"

definition strncpy :: "u64 \<Rightarrow> u64 \<Rightarrow> u64 \<Rightarrow> mem \<Rightarrow> u64 \<times> mem" where
  "strncpy dest src mx m =
     (let len_src = strnlen m src mx
      in if len_src < mx
         then let m1 = snd (memcpy dest src len_src m);
                  m2 = snd (memset (dest + len_src) 0 (mx - len_src) m1);
                  m3 = store8 (dest + len_src) 0 m2
              in (dest, m3)
         else memcpy dest src len_src m)"

definition strcat :: "u64 \<Rightarrow> u64 \<Rightarrow> mem \<Rightarrow> (u64 \<times> mem) res" where
  "strcat dest src m =
     (if dest = 0 \<or> src = 0 then Inr (0, m)
      else bindE (strlen m dest) (\<lambda>dest_len.
           bindE (strcpy (dest + dest_len) src m) (\<lambda>(_, m'). Inr (dest, m'))))"

text \<open>The two lengths of \<open>strncat\<close> are \<open>unsigned\<close>: 32 bits.\<close>

definition strncat :: "u64 \<Rightarrow> u64 \<Rightarrow> u64 \<Rightarrow> mem \<Rightarrow> (u64 \<times> mem) res" where
  "strncat s1 s2 n m =
     bindE (strlen m s1) (\<lambda>l1. bindE (strlen m s2) (\<lambda>l2.
       let len1 = ucast (ucast l1 :: u32) :: u64;
           len2 = ucast (ucast l2 :: u32) :: u64
       in if len2 < n
          then bindE (strcpy (s1 + len1) s2 m) (\<lambda>(_, m'). Inr (s1, m'))
          else let m1 = snd (strncpy (s1 + len1) s2 n m);
                   m2 = store8 (s1 + len1 + n) 0 m1
               in Inr (s1, m2)))"

section \<open>Comparison\<close>

text \<open>
  \<open>strncmp\<close> counts the matching characters in the \<open>int\<close> variables \<open>c\<close> and \<open>matching\<close>, always
  equal; the loop stops at the first difference, at \<open>num\<close> or at a NUL.
\<close>

function strncmp_loop :: "mem \<Rightarrow> u64 \<Rightarrow> u64 \<Rightarrow> nat \<Rightarrow> nat \<Rightarrow> nat" where
  "strncmp_loop m s1 s2 num c =
     (if m (s1 + of_nat c) = m (s2 + of_nat c) \<and> c < num \<and> m (s1 + of_nat c) \<noteq> 0 \<and> m (s2 + of_nat c) \<noteq> 0
      then strncmp_loop m s1 s2 num (Suc c) else c)"
  by auto
termination by (relation "measure (\<lambda>(m, s1, s2, num, c). num - c)") auto

declare strncmp_loop.simps [simp del]

text \<open>The model is for \<open>num\<close> below \<open>2^31\<close>, so that the \<open>int\<close> counters do not overflow.\<close>

definition strncmp :: "mem \<Rightarrow> u64 \<Rightarrow> u64 \<Rightarrow> u64 \<Rightarrow> int res" where
  "strncmp m s1 s2 num =
     (if s1 = 0 \<or> s2 = 0 \<or> num = 0 then Inr 0
      else if 2 ^ 31 \<le> unat num then Inl Undefined
      else let c = strncmp_loop m s1 s2 (unat num) 0
           in if c = unat num then Inr 0
              else if sint (m (s2 + of_nat c)) < sint (m (s1 + of_nat c)) then Inr (- 1)
              else Inr 1)"

partial_function (option) strcmp_loop :: "mem \<Rightarrow> u64 \<Rightarrow> u64 \<Rightarrow> (u64 \<times> u64) option" where
  "strcmp_loop m s1 s2 =
     (if m s1 \<noteq> 0 \<and> m s2 \<noteq> 0 \<and> m s1 = m s2 then strcmp_loop m (s1 + 1) (s2 + 1) else Some (s1, s2))"

definition strcmp :: "mem \<Rightarrow> u64 \<Rightarrow> u64 \<Rightarrow> int res" where
  "strcmp m s1 s2 =
     (case strcmp_loop m s1 s2 of None \<Rightarrow> Inl Diverges
      | Some (p, q) \<Rightarrow> if m p = m q then Inr 0 else if sint (m p) < sint (m q) then Inr (- 1) else Inr 1)"

section \<open>Numbers\<close>

definition digit_char :: "int \<Rightarrow> u8" where
  "digit_char d = (if d < 10 then of_int (48 + d) else of_int (55 + d))"

text \<open>
  \<open>itoa\<close> fills a local buffer of 34 bytes from its end; the list is what lies from \<open>p\<close> to the
  end. \<open>an\<close> is not positive, \<open>%\<close> and \<open>/\<close> truncate, and the loop body runs at least once.
\<close>

definition itoa_buffer :: nat where "itoa_buffer = 34"

lemma sdiv_smaller: "(1 :: int) < b \<Longrightarrow> an sdiv b \<noteq> 0 \<Longrightarrow> \<bar>an sdiv b\<bar> < \<bar>an\<bar>"
proof -
  assume b: "1 < b" and nz: "an sdiv b \<noteq> 0"
  have "\<bar>an sdiv b\<bar> = \<bar>an\<bar> div b"
    using b by (cases "an = 0") (simp_all add: signed_divide_int_def abs_mult pos_imp_zdiv_nonneg_iff)
  moreover from nz have "an \<noteq> 0" by (auto simp: signed_divide_int_def)
  ultimately show ?thesis using b int_div_less_self [of "\<bar>an\<bar>" b] by simp
qed

function itoa_loop :: "int \<Rightarrow> int \<Rightarrow> u8 list \<Rightarrow> u8 list res" where
  "itoa_loop an base p =
     (if length p \<ge> itoa_buffer then Inl Out_of_bounds
      else let p' = digit_char (- (an smod base)) # p;
               an' = an sdiv base
           in if 1 < base \<and> an' \<noteq> 0 then itoa_loop an' base p' else Inr p')"
  by auto
termination by (relation "measure (\<lambda>(an, base, p). nat \<bar>an\<bar>)") (auto dest: sdiv_smaller)

declare itoa_loop.simps [simp del]

definition itoa_string :: "u32 \<Rightarrow> u32 \<Rightarrow> u8 list res" where
  "itoa_string a base =
     (let an = (if sint a < 0 then sint a else - sint a)
      in bindE (itoa_loop an (sint base) [0]) (\<lambda>p.
         if sint a < 0 then (if length p \<ge> itoa_buffer then Inl Out_of_bounds else Inr (45 # p))
         else Inr p))"

definition itoa :: "u32 \<Rightarrow> u64 \<Rightarrow> u32 \<Rightarrow> mem \<Rightarrow> (u64 \<times> mem) res" where
  "itoa a dest base m =
     (if sint base < 2 \<or> 36 < sint base then Inr (0, m)
      else bindE (itoa_string a base) (\<lambda>p. Inr (dest, store_bytes dest p m)))"

text \<open>
  \<open>ltoa\<close> writes from index 60 of its buffer downwards while digits remain and the index is
  positive, then copies at most 32 characters, padding with zeros. The digits are read from a
  string of 16 characters and its terminator.
\<close>

definition ltoa_digit :: "u64 \<Rightarrow> u8 res" where
  "ltoa_digit d =
     (if d < 10 then Inr (48 + ucast d) else if d < 16 then Inr (87 + ucast d)
      else if d = 16 then Inr 0 else Inl Out_of_bounds)"

fun ltoa_loop :: "nat \<Rightarrow> u64 \<Rightarrow> u64 \<Rightarrow> u8 list \<Rightarrow> u8 list res" where
  "ltoa_loop 0 a base p = Inr p"
| "ltoa_loop (Suc i) a base p =
     (if a = 0 then Inr p
      else if base = 0 then Inl Div_zero
      else bindE (ltoa_digit (a mod base)) (\<lambda>d. ltoa_loop i (a div base) base (d # p)))"

definition until_nul :: "u8 list \<Rightarrow> u8 list" where
  "until_nul = takeWhile (\<lambda>c. c \<noteq> 0)"

definition ltoa_bytes :: "u8 list \<Rightarrow> u8 list" where
  "ltoa_bytes p = (let s = take 32 (until_nul p) in s @ replicate (32 - length s) 0)"

definition ltoa :: "u64 \<Rightarrow> u64 \<Rightarrow> u32 \<Rightarrow> mem \<Rightarrow> (u64 \<times> mem) res" where
  "ltoa a dest base m =
     (if a = 0 then (if dest = 0 then Inr (0, m) else Inr (dest, store_bytes dest [48, 0] m))
      else bindE (ltoa_loop 60 a (scast base) []) (\<lambda>p. Inr (dest, store_bytes dest (ltoa_bytes p) m)))"

text \<open>\<open>atou\<close> answers \<open>UINT32_MAX\<close> for anything but digits; the value wraps at 32 bits.\<close>

partial_function (option) atou_loop :: "mem \<Rightarrow> u64 \<Rightarrow> u32 \<Rightarrow> u32 option" where
  "atou_loop m str result =
     (let c = m str
      in if c = 0 then Some result
         else if 48 \<le> sint c \<and> sint c \<le> 57
         then atou_loop m (str + 1) (result * 10 + ucast (c - 48))
         else Some (- 1))"

definition atou :: "mem \<Rightarrow> u64 \<Rightarrow> u32 res" where
  "atou m str = (case atou_loop m str 0 of None \<Rightarrow> Inl Diverges | Some r \<Rightarrow> Inr r)"

lemma until_nul_append: "0 \<notin> set xs \<Longrightarrow> until_nul (xs @ 0 # ys) = xs"
  by (induction xs) (auto simp: until_nul_def)

lemma until_nul_id: "0 \<notin> set xs \<Longrightarrow> until_nul xs = xs"
  by (induction xs) (auto simp: until_nul_def)

lemma until_nul_pad [simp]: "0 \<notin> set xs \<Longrightarrow> until_nul (xs @ replicate k 0) = xs"
  by (cases k) (simp_all add: until_nul_append until_nul_id)

section \<open>Strings in memory\<close>

text \<open>The bytes \<open>bs\<close> and a NUL are at the address.\<close>

definition cstr :: "mem \<Rightarrow> u64 \<Rightarrow> u8 list \<Rightarrow> bool" where
  "cstr m a bs \<longleftrightarrow> 0 \<notin> set bs \<and> length bs + 1 < 2 ^ 64 \<and> load_bytes m a (length bs + 1) = bs @ [0]"

lemma cstr_nth:
  assumes "cstr m a bs"
  shows "i < length bs \<Longrightarrow> m (a + of_nat i) = bs ! i" "m (a + of_nat (length bs)) = 0"
    "i < length bs \<Longrightarrow> m (a + of_nat i) \<noteq> 0"
proof -
  have "load_bytes m a (length bs + 1) ! j = (bs @ [0]) ! j" for j using assms by (simp add: cstr_def)
  then have *: "m (a + of_nat j) = (bs @ [0]) ! j" if "j < length bs + 1" for j
    using that nth_load_bytes [of j "length bs + 1" m a] by simp
  show "m (a + of_nat (length bs)) = 0" using * [of "length bs"] by simp
  show "i < length bs \<Longrightarrow> m (a + of_nat i) = bs ! i" using * [of i] by (simp add: nth_append)
  moreover have "i < length bs \<Longrightarrow> bs ! i \<noteq> 0" using assms nth_mem by (metis cstr_def)
  ultimately show "i < length bs \<Longrightarrow> m (a + of_nat i) \<noteq> 0" by simp
qed

lemma cstrI:
  assumes "0 \<notin> set bs" "length bs + 1 < 2 ^ 64" "\<And>i. i < length bs \<Longrightarrow> m (a + of_nat i) = bs ! i"
    "m (a + of_nat (length bs)) = 0"
  shows "cstr m a bs"
  unfolding cstr_def using assms
  by (auto intro!: nth_equalityI simp: nth_append less_Suc_eq simp del: of_nat_Suc)

lemma cstr_Cons: "cstr m a (b # bs) \<Longrightarrow> m a = b \<and> b \<noteq> 0 \<and> cstr m (a + 1) bs"
proof -
  assume c: "cstr m a (b # bs)"
  have "cstr m (a + 1) bs"
  proof (rule cstrI)
    fix i assume "i < length bs"
    then show "m (a + 1 + of_nat i) = bs ! i"
      using cstr_nth(1) [OF c, of "Suc i"] by (simp add: add.assoc)
  qed (use c cstr_nth(2) [OF c] in \<open>auto simp: cstr_def add.assoc\<close>)
  then show ?thesis using cstr_nth(1) [OF c, of 0] c by (auto simp: cstr_def)
qed

lemma cstr_Nil: "cstr m a [] \<longleftrightarrow> m a = 0"
  by (simp add: cstr_def load_bytes_def)

lemma strlen_loop_cstr:
  "cstr m (a + sz) bs \<Longrightarrow> strlen_loop m a sz = Some (sz + of_nat (length bs))"
proof (induction bs arbitrary: sz)
  case Nil
  then show ?case by (subst strlen_loop.simps) (simp add: cstr_Nil)
next
  case (Cons b bs)
  from cstr_Cons [OF Cons.prems] have "m (a + sz) \<noteq> 0" "cstr m (a + (sz + 1)) bs"
    by (auto simp: add.assoc)
  then show ?case using Cons.IH by (subst strlen_loop.simps) (simp add: add.assoc)
qed

lemma strlen_cstr: "cstr m a bs \<Longrightarrow> strlen m a = Inr (of_nat (length bs))"
  using strlen_loop_cstr [of m a 0 bs] by (simp add: strlen_def)

text \<open>Copying a string to a place apart from it.\<close>

lemma memcpy_apart:
  assumes "apart dest n src n" "0 < n" "n < 2 ^ 64"
  shows "snd (memcpy dest src (of_nat n) m) = store_bytes dest (load_bytes m src n) m"
proof -
  have u: "unat (of_nat n :: u64) = n" using assms(3) by (intro unat_of_nat_small) simp
  have "snd (memcpy dest src (of_nat n) m) = (\<lambda>x. if unat (x - dest) < n then m (x - dest + src) else m x)"
    using memcpy_loop_eq [of n dest src m] assms by (simp add: memcpy_def u apart_def)
  also have "\<dots> = store_bytes dest (load_bytes m src n) m"
    by (rule ext) (simp add: store_bytes_def add.commute)
  finally show ?thesis .
qed

lemma cstr_store:
  assumes "0 \<notin> set bs" "length bs + 1 < 2 ^ 64"
  shows "cstr (store_bytes a (bs @ [0]) m) a bs"
proof (rule cstrI)
  have d: "unat (a + of_nat i - a) = i" if "i < length bs + 1" for i
    using that assms(2) by (simp add: unat_of_nat_small)
  fix i assume "i < length bs"
  then show "store_bytes a (bs @ [0]) m (a + of_nat i) = bs ! i"
    using d [of i] by (simp add: store_bytes_def nth_append)
next
  have "unat (a + of_nat (length bs) - a) = length bs" using assms(2) by (simp add: unat_of_nat_small)
  then show "store_bytes a (bs @ [0]) m (a + of_nat (length bs)) = 0"
    by (simp add: store_bytes_def nth_append)
qed (use assms in auto)

lemma strcpy_cstr:
  assumes c: "cstr m src bs" and "dest \<noteq> 0" "src \<noteq> 0"
    and ap: "apart dest (length bs + 1) src (length bs + 1)"
  shows "strcpy dest src m = Inr (dest, store_bytes dest (bs @ [0]) m)"
proof -
  have len: "length bs + 1 < 2 ^ 64" and ld: "load_bytes m src (length bs + 1) = bs @ [0]"
    using c by (auto simp: cstr_def)
  have "of_nat (length bs) + 1 = (of_nat (length bs + 1) :: u64)" by simp
  then have "memcpy dest src (of_nat (length bs) + 1) m = (dest, store_bytes dest (bs @ [0]) m)"
    using memcpy_apart [OF ap _ len] ld by (simp add: memcpy_def del: of_nat_Suc)
  then show ?thesis using assms(2,3) by (simp add: strcpy_def strlen_cstr [OF c])
qed

text \<open>Storing characters and a NUL over the end of a string.\<close>

lemma cstr_append:
  assumes c: "cstr m a xs" and nz: "0 \<notin> set ys" and lim: "length xs + length ys + 1 < 2 ^ 64"
  shows "cstr (store_bytes (a + of_nat (length xs)) (ys @ [0]) m) a (xs @ ys)"
    "length xs + length ys + 1 \<le> unat (x - a) \<Longrightarrow> store_bytes (a + of_nat (length xs)) (ys @ [0]) m x = m x"
proof -
  let ?n = "length xs" and ?k = "length ys"
  let ?d = "a + of_nat ?n"
  let ?m = "store_bytes ?d (ys @ [0]) m"
  have u: "unat (of_nat ?n :: u64) = ?n" using lim by (intro unat_of_nat_small) simp
  have pos: "unat (a + of_nat i - ?d) = (if i < ?n then 2 ^ 64 + i - ?n else i - ?n)" if "i < ?n + ?k + 1" for i
  proof -
    have ui: "unat (of_nat i :: u64) = i" using that lim by (intro unat_of_nat_small) simp
    have "a + of_nat i - ?d = of_nat i - of_nat ?n" by simp
    then show ?thesis using ui u lim by (auto simp: unat_sub_if')
  qed
  show "cstr ?m a (xs @ ys)"
  proof (rule cstrI)
    show "0 \<notin> set (xs @ ys)" using c nz by (auto simp: cstr_def)
    show "length (xs @ ys) + 1 < 2 ^ 64" using lim by simp
  next
    fix i assume i: "i < length (xs @ ys)"
    then show "?m (a + of_nat i) = (xs @ ys) ! i"
      using pos [of i] lim cstr_nth(1) [OF c, of i]
      by (auto simp: store_bytes_def nth_append)
  next
    show "?m (a + of_nat (length (xs @ ys))) = 0"
      using pos [of "?n + ?k"] by (simp add: store_bytes_def nth_append del: of_nat_add)
  qed
  show "?m x = m x" if "?n + ?k + 1 \<le> unat (x - a)"
  proof -
    have ex: "x - ?d = (x - a) - of_nat ?n" by simp
    have "unat (x - ?d) = unat (x - a) - ?n"
      unfolding ex using that u by (subst unat_sub) (simp_all add: word_le_nat_alt)
    then have "\<not> unat (x - ?d) < length (ys @ [0])" using that by simp
    then show ?thesis by (simp add: store_bytes_def)
  qed
qed

section \<open>Digits\<close>

definition digits_value :: "int \<Rightarrow> int list \<Rightarrow> int" where
  "digits_value b xs = foldl (\<lambda>r x. r * b + x) 0 xs"

lemma digits_value_snoc: "digits_value b (xs @ [x]) = digits_value b xs * b + x"
  by (simp add: digits_value_def)

lemma smod_sdiv_neg:
  fixes n b :: int
  assumes "0 \<le> n" "0 < b"
  shows "- ((- n) smod b) = n mod b" "(- n) sdiv b = - (n div b)"
  using assms
  by (cases "n = 0"; simp add: signed_modulo_int_def signed_divide_int_def minus_div_mult_eq_mod [symmetric])+

lemma itoa_loop_ok:
  assumes "2 \<le> b" "0 \<le> n" "n < b ^ k" "0 < k" "length p + k \<le> itoa_buffer"
  shows "\<exists>xs. itoa_loop (- n) b p = Inr (map digit_char xs @ p) \<and> length xs \<le> k \<and>
     (\<forall>x\<in>set xs. 0 \<le> x \<and> x < b) \<and> digits_value b xs = n"
  using assms(2-)
proof (induction k arbitrary: n p)
  case (Suc k)
  have room: "\<not> itoa_buffer \<le> length p" using Suc.prems(4) by simp
  note sd = smod_sdiv_neg [OF Suc.prems(1), of b]
  have md: "0 \<le> n mod b" "n mod b < b" using assms(1) by simp_all
  have un: "itoa_loop (- n) b p =
      (if n div b \<noteq> 0 then itoa_loop (- (n div b)) b (digit_char (n mod b) # p)
       else Inr (digit_char (n mod b) # p))"
    using room assms(1) sd by (subst itoa_loop.simps) (simp add: Let_def)
  show ?case
  proof (cases "n div b = 0")
    case True
    then have "n mod b = n" using div_mult_mod_eq [of n b] by simp
    then show ?thesis using un True md
      by (intro exI [of _ "[n mod b]"]) (simp add: digits_value_def)
  next
    case False
    have "n div b * b \<le> n" using md(1) div_mult_mod_eq [of n b] by linarith
    also have "n < b ^ k * b" using Suc.prems(2) by (simp add: mult.commute)
    finally have "n div b < b ^ k" using assms(1) by (simp add: mult_less_cancel_right)
    moreover have nn: "0 \<le> n div b" using Suc.prems(1) assms(1) by (simp add: pos_imp_zdiv_nonneg_iff)
    moreover from calculation False have "0 < k" by (cases k) simp_all
    ultimately obtain xs where xs:
      "itoa_loop (- (n div b)) b (digit_char (n mod b) # p) = Inr (map digit_char xs @ digit_char (n mod b) # p)"
      "length xs \<le> k" "\<forall>x\<in>set xs. 0 \<le> x \<and> x < b" "digits_value b xs = n div b"
      using Suc.IH [of "n div b" "digit_char (n mod b) # p"] Suc.prems(4) by auto
    then show ?thesis using un False md
      by (intro exI [of _ "xs @ [n mod b]"]) (auto simp: digits_value_snoc)
  qed
qed simp

definition minus_sign :: "u32 \<Rightarrow> u8 list" where
  "minus_sign a = (if sint a < 0 then [45] else [])"

lemma itoa_ok:
  assumes "2 \<le> sint base" "sint base \<le> 36"
  shows "\<exists>xs. itoa a dest base m = Inr (dest, store_bytes dest (minus_sign a @ map digit_char xs @ [0]) m) \<and>
     length xs \<le> 32 \<and> (\<forall>x\<in>set xs. 0 \<le> x \<and> x < sint base) \<and> digits_value (sint base) xs = \<bar>sint a\<bar>"
proof -
  have "\<bar>sint a\<bar> \<le> 2 ^ 31" using sint_ge [of a] sint_less [of a] by simp
  also have "\<dots> < (2 :: int) ^ 32" by simp
  also have "\<dots> \<le> sint base ^ 32" using assms by (intro power_mono) simp_all
  finally have lt: "\<bar>sint a\<bar> < sint base ^ 32" .
  have "length [0 :: u8] + 32 \<le> itoa_buffer" by (simp add: itoa_buffer_def)
  from itoa_loop_ok [OF assms(1) abs_ge_zero lt _ this] obtain xs where
    xs: "itoa_loop (- \<bar>sint a\<bar>) (sint base) [0] = Inr (map digit_char xs @ [0])" "length xs \<le> 32"
      "\<forall>x\<in>set xs. 0 \<le> x \<and> x < sint base" "digits_value (sint base) xs = \<bar>sint a\<bar>" by auto
  moreover have "itoa_string a base = Inr (minus_sign a @ map digit_char xs @ [0])"
    using xs(1,2) by (auto simp: itoa_string_def minus_sign_def itoa_buffer_def)
  ultimately show ?thesis using assms by (auto simp: itoa_def)
qed

lemma digit_char_nonzero: "0 \<le> x \<Longrightarrow> x < 36 \<Longrightarrow> digit_char x \<noteq> 0"
proof -
  assume x: "0 \<le> x" "x < 36"
  then have "x \<in> set (map int [0..<36])" by (auto intro!: image_eqI [of _ _ "nat x"])
  moreover have "\<forall>y\<in>set (map int [0..<36]). digit_char y \<noteq> 0" by code_simp
  ultimately show ?thesis by blast
qed

lemma digit_char_ten:
  assumes "0 \<le> x" "x < 10"
  shows "48 \<le> sint (digit_char x)" "sint (digit_char x) \<le> 57"
    "ucast (digit_char x - 48) = (of_int x :: u32)"
proof -
  have "x \<in> set (map int [0..<10])" using assms by (auto intro!: image_eqI [of _ _ "nat x"])
  moreover have "\<forall>y\<in>set (map int [0..<10]). 48 \<le> sint (digit_char y) \<and> sint (digit_char y) \<le> 57 \<and>
      ucast (digit_char y - 48) = (of_int y :: u32)" by code_simp
  ultimately show "48 \<le> sint (digit_char x)" "sint (digit_char x) \<le> 57"
    "ucast (digit_char x - 48) = (of_int x :: u32)" by blast+
qed

lemma atou_loop_digits:
  assumes "\<forall>x\<in>set xs. 0 \<le> x \<and> x < 10" "cstr m a (map digit_char xs)"
  shows "atou_loop m a r = Some (foldl (\<lambda>r x. r * 10 + of_int x) r xs)"
  using assms
proof (induction xs arbitrary: a r)
  case Nil
  then show ?case by (subst atou_loop.simps) (simp add: cstr_Nil)
next
  case (Cons x xs)
  then have "m a = digit_char x" "digit_char x \<noteq> 0" "cstr m (a + 1) (map digit_char xs)"
    using cstr_Cons [of m a "digit_char x" "map digit_char xs"] by auto
  then show ?case
    using Cons.IH [of "a + 1"] Cons.prems(1) digit_char_ten [of x]
    by (subst atou_loop.simps) (simp add: Let_def)
qed

lemma foldl_of_int:
  "foldl (\<lambda>r x. r * 10 + of_int x) (of_int r :: u32) xs = of_int (foldl (\<lambda>r x. r * 10 + x) r xs)"
proof (induction xs arbitrary: r)
  case (Cons x xs)
  have "of_int r * 10 + of_int x = (of_int (r * 10 + x) :: u32)" by simp
  then show ?case using Cons.IH [of "r * 10 + x"] by (simp only: foldl_Cons)
qed simp

section \<open>What the functions promise\<close>

text \<open>
  \<open>strcat\<close> appends: for two terminated strings, the destination with room for both and
  apart from the source, the destination holds the first string followed by the second,
  terminated, and no byte outside it changes.
\<close>
theorem strcat_appends:
  assumes "cstr m dest xs" and "cstr m src ys" and "dest + of_nat (length xs) \<noteq> 0" and "src \<noteq> 0" and "dest \<noteq> 0"
    and "apart dest (length xs + length ys + 1) src (length ys + 1)"
  shows "\<exists>m'. strcat dest src m = Inr (dest, m') \<and> cstr m' dest (xs @ ys) \<and>
     (\<forall>x. length xs + length ys + 1 \<le> unat (x - dest) \<longrightarrow> m' x = m x)"
proof -
  let ?n = "length xs" and ?k = "length ys"
  let ?d = "dest + of_nat ?n"
  have ap: "?n + ?k + 1 \<le> unat (src - dest)" "?k + 1 \<le> unat (dest - src)" using assms(6) by (auto simp: apart_def)
  have lim: "?n + ?k + 1 < 2 ^ 64" using ap(1) unat_lt_64 [of "src - dest"] by linarith
  have u: "unat (of_nat ?n :: u64) = ?n" using lim by (intro unat_of_nat_small) simp
  have e1: "src - ?d = (src - dest) - of_nat ?n" by simp
  have 1: "unat (src - ?d) = unat (src - dest) - ?n"
    unfolding e1 using ap(1) u by (subst unat_sub) (simp_all add: word_le_nat_alt)
  have "src \<noteq> dest" using ap(2) by auto
  then have flip: "unat (src - dest) + unat (dest - src) = 2 ^ 64" using unat_sub_flip [of src dest] by simp
  have e2: "?d - src = (dest - src) + of_nat ?n" by simp
  have "unat (dest - src) + ?n < 2 ^ 64" using flip ap by linarith
  then have 2: "unat (?d - src) = unat (dest - src) + ?n" unfolding e2 by (rule unat_add_of_nat)
  have "apart ?d (?k + 1) src (?k + 1)" using ap 1 2 by (simp add: apart_def)
  then have "strcpy ?d src m = Inr (?d, store_bytes ?d (ys @ [0]) m)"
    using strcpy_cstr [OF assms(2,3,4)] by blast
  then have cat: "strcat dest src m = Inr (dest, store_bytes ?d (ys @ [0]) m)"
    using assms(4,5) by (simp add: strcat_def strlen_cstr [OF assms(1)])
  have "0 \<notin> set ys" using assms(2) by (simp add: cstr_def)
  from cstr_append [OF assms(1) this lim] show ?thesis using cat by blast
qed

definition matching :: "mem \<Rightarrow> u64 \<Rightarrow> u64 \<Rightarrow> nat \<Rightarrow> bool" where
  "matching m s1 s2 i \<longleftrightarrow> m (s1 + of_nat i) = m (s2 + of_nat i) \<and> m (s1 + of_nat i) \<noteq> 0"

lemma strncmp_loop_step:
  "strncmp_loop m s1 s2 num c =
     (if c < num \<and> matching m s1 s2 c then strncmp_loop m s1 s2 num (Suc c) else c)"
  by (subst strncmp_loop.simps) (auto simp: matching_def)

lemma strncmp_loop_spec:
  "c \<le> num \<Longrightarrow> c \<le> strncmp_loop m s1 s2 num c \<and> strncmp_loop m s1 s2 num c \<le> num \<and>
     (\<forall>i. c \<le> i \<and> i < strncmp_loop m s1 s2 num c \<longrightarrow> matching m s1 s2 i) \<and>
     (strncmp_loop m s1 s2 num c < num \<longrightarrow> \<not> matching m s1 s2 (strncmp_loop m s1 s2 num c))"
proof (induction "num - c" arbitrary: c)
  case 0
  then have "strncmp_loop m s1 s2 num c = c" by (subst strncmp_loop_step) simp
  then show ?case using 0 by auto
next
  case (Suc n)
  then have lt: "c < num" by simp
  show ?case
  proof (cases "matching m s1 s2 c")
    case True
    then have eq: "strncmp_loop m s1 s2 num c = strncmp_loop m s1 s2 num (Suc c)"
      using lt by (subst strncmp_loop_step) simp
    have ih: "Suc c \<le> strncmp_loop m s1 s2 num (Suc c) \<and> strncmp_loop m s1 s2 num (Suc c) \<le> num \<and>
     (\<forall>i. Suc c \<le> i \<and> i < strncmp_loop m s1 s2 num (Suc c) \<longrightarrow> matching m s1 s2 i) \<and>
     (strncmp_loop m s1 s2 num (Suc c) < num \<longrightarrow> \<not> matching m s1 s2 (strncmp_loop m s1 s2 num (Suc c)))"
      by (rule Suc.hyps(1)) (use Suc.hyps(2) lt in auto)
    have "i = c \<or> Suc c \<le> i" if "c \<le> i" for i using that by auto
    then show ?thesis unfolding eq using ih True by (metis Suc_leD)
  next
    case False
    then have "strncmp_loop m s1 s2 num c = c" by (subst strncmp_loop_step) simp
    then show ?thesis using lt False by auto
  qed
qed

lemma strncmp_loop_first:
  assumes "k \<le> num" "\<forall>i<k. matching m s1 s2 i" "k < num \<longrightarrow> \<not> matching m s1 s2 k"
  shows "strncmp_loop m s1 s2 num 0 = k"
proof -
  let ?r = "strncmp_loop m s1 s2 num 0"
  have r: "?r \<le> num" "\<forall>i<?r. matching m s1 s2 i" "?r < num \<longrightarrow> \<not> matching m s1 s2 ?r"
    using strncmp_loop_spec [of 0 num m s1 s2] by auto
  have "\<not> ?r < k" using assms(1,2) r(3) by auto
  moreover have "\<not> k < ?r" using assms(3) r(1,2) by auto
  ultimately show ?thesis by linarith
qed

lemma strncmp_zero_iff:
  assumes "s1 \<noteq> 0" and "s2 \<noteq> 0" and "num \<noteq> 0" and "unat num < 2 ^ 31"
  shows "strncmp m s1 s2 num = Inr 0 \<longleftrightarrow> (\<forall>i<unat num. matching m s1 s2 i)"
proof -
  let ?r = "strncmp_loop m s1 s2 (unat num) 0"
  have eq: "strncmp m s1 s2 num = (if ?r = unat num then Inr 0
      else if sint (m (s2 + of_nat ?r)) < sint (m (s1 + of_nat ?r)) then Inr (- 1) else Inr 1)"
    using assms by (simp add: strncmp_def)
  have spec: "?r \<le> unat num" "\<forall>i<?r. matching m s1 s2 i"
    using strncmp_loop_spec [of 0 "unat num" m s1 s2] by blast+
  have "(strncmp m s1 s2 num = Inr 0) = (?r = unat num)" unfolding eq by simp
  also have "\<dots> = (\<forall>i<unat num. matching m s1 s2 i)"
  proof
    assume "?r = unat num"
    then show "\<forall>i<unat num. matching m s1 s2 i" using spec(2) by metis
  next
    assume "\<forall>i<unat num. matching m s1 s2 i"
    then show "?r = unat num" by (intro strncmp_loop_first) simp_all
  qed
  finally show ?thesis .
qed

lemma strncmp_defined:
  "unat num < 2 ^ 31 \<Longrightarrow> \<exists>r. strncmp m s1 s2 num = Inr r"
  by (auto simp: strncmp_def Let_def)


lemma strcmp_loop_cstr:
  assumes "cstr m a xs" "cstr m b ys"
  shows "\<exists>p q. strcmp_loop m a b = Some (p, q) \<and> (m p = m q \<longleftrightarrow> xs = ys)"
  using assms
proof (induction xs arbitrary: a b ys)
  case Nil
  then have "m a = 0" by (simp add: cstr_Nil)
  moreover have "m b = 0 \<longleftrightarrow> ys = []"
    using Nil.prems(2) by (cases ys) (auto simp: cstr_Nil dest: cstr_Cons)
  ultimately show ?case by (subst strcmp_loop.simps) auto
next
  case (Cons x xs)
  then have x: "m a = x" "x \<noteq> 0" "cstr m (a + 1) xs" using cstr_Cons by blast+
  show ?case
  proof (cases ys)
    case Nil
    then have "m b = 0" using Cons.prems(2) by (simp add: cstr_Nil)
    then show ?thesis using x Nil by (subst strcmp_loop.simps) auto
  next
    case (Cons y zs)
    then have y: "m b = y" "y \<noteq> 0" "cstr m (b + 1) zs" using Cons.prems cstr_Cons by blast+
    show ?thesis
    proof (cases "x = y")
      case True
      with x y Cons show ?thesis using Cons.IH [OF x(3) y(3)]
        by (subst strcmp_loop.simps) simp
    next
      case False
      with x y Cons show ?thesis by (subst strcmp_loop.simps) simp
    qed
  qed
qed

lemma strcmp_zero_iff:
  assumes "cstr m a xs" "cstr m b ys"
  shows "strcmp m a b = Inr 0 \<longleftrightarrow> xs = ys" "\<exists>r. strcmp m a b = Inr r"
  using strcmp_loop_cstr [OF assms] by (auto simp: strcmp_def split: if_splits)

text \<open>
  C35. Numbers survive printing and parsing: \<open>itoa\<close> in base 10 never leaves its 34-byte buffer,
  writes a terminated string, and \<open>atou\<close> of that string is the number again for every \<open>int\<close>
  that is not negative, and the failure value \<open>UINT32_MAX\<close> for every negative one.
\<close>
theorem itoa_atou_roundtrip:
  "\<exists>m' n. itoa a dest 10 m = Inr (dest, m') \<and> n \<le> 34 \<and>
     (\<forall>x. n \<le> unat (x - dest) \<longrightarrow> m' x = m x) \<and>
     atou m' dest = Inr (if sint a < 0 then - 1 else a)"
proof -
  have base: "sint (10 :: u32) = 10" by simp
  obtain xs where xs: "itoa a dest 10 m = Inr (dest, store_bytes dest (minus_sign a @ map digit_char xs @ [0]) m)"
    "length xs \<le> 32" "\<forall>x\<in>set xs. 0 \<le> x \<and> x < 10" "digits_value 10 xs = \<bar>sint a\<bar>"
    using itoa_ok [of 10 a dest m] base by auto
  let ?bs = "minus_sign a @ map digit_char xs"
  let ?m = "store_bytes dest (?bs @ [0]) m"
  have len: "length (?bs @ [0 :: u8]) \<le> 34" using xs(2) by (simp add: minus_sign_def)
  have "\<forall>x\<in>set xs. digit_char x \<noteq> 0" using xs(3) digit_char_nonzero by fastforce
  then have nz: "0 \<notin> set ?bs" by (auto simp: minus_sign_def)
  have c: "cstr ?m dest ?bs" by (rule cstr_store [OF nz]) (use len in simp)
  have "atou ?m dest = Inr (if sint a < 0 then - 1 else a)"
  proof (cases "sint a < 0")
    case True
    then have "?m dest = 45" using cstr_nth(1) [OF c, of 0] by (simp add: minus_sign_def)
    then have "atou_loop ?m dest 0 = Some (- 1)" by (subst atou_loop.simps) (simp add: Let_def)
    then show ?thesis using True by (simp add: atou_def)
  next
    case False
    then have "cstr ?m dest (map digit_char xs)" using c by (simp add: minus_sign_def)
    from atou_loop_digits [OF xs(3) this, of "of_int 0"]
    have "atou ?m dest = Inr (of_int (digits_value 10 xs))"
      unfolding foldl_of_int by (simp add: atou_def digits_value_def)
    then show ?thesis using False xs(4) by simp
  qed
  then show ?thesis using xs(1) len
    by (intro exI [of _ ?m] exI [of _ "length (?bs @ [0 :: u8])"]) (simp add: store_bytes_def)
qed

section \<open>Witnesses\<close>

definition demo_text :: mem where
  "demo_text = store_bytes 16 [97, 98, 0] (store_bytes 64 [97, 98, 99, 0] (\<lambda>_. 0))"

lemma demo_text_cstr: "cstr demo_text 16 [97, 98]" "cstr demo_text 64 [97, 98, 99]"
  by (simp_all add: cstr_def demo_text_def load_bytes_def store_bytes_def upt_rec)

theorem strcat_appends_witness:
  "\<exists>m'. strcat 16 64 demo_text = Inr (16, m') \<and> cstr m' 16 [97, 98, 97, 98, 99]"
proof -
  have "(16 :: u64) + of_nat (length [97, 98 :: u8]) \<noteq> 0" "(64 :: u64) \<noteq> 0" "(16 :: u64) \<noteq> 0"
    "apart 16 (length [97, 98 :: u8] + length [97, 98, 99 :: u8] + 1) 64 (length [97, 98, 99 :: u8] + 1)"
    by (simp_all add: apart_def)
  from strcat_appends [OF demo_text_cstr this] show ?thesis by auto
qed

lemma demo_text_bytes:
  "demo_text 16 = 97" "demo_text 17 = 98" "demo_text 18 = 0" "demo_text 64 = 97" "demo_text 65 = 98"
  "demo_text 66 = 99"
  by (simp_all add: demo_text_def store_bytes_def)


theorem itoa_atou_roundtrip_witness:
  "\<exists>m' n. itoa (- 7) 16 10 (\<lambda>_. 0) = Inr (16, m') \<and> n \<le> 34 \<and> (\<forall>x. n \<le> unat (x - 16) \<longrightarrow> m' x = 0) \<and> atou m' 16 = Inr (- 1)"
proof -
  have "sint (- 7 :: u32) < 0" by simp
  then have "(if sint (- 7 :: u32) < 0 then - 1 else - 7) = (- 1 :: u32)" by (rule if_P)
  then show ?thesis using itoa_atou_roundtrip [of "- 7" 16 "\<lambda>_. 0"] by (simp only:)
qed

end
