(* ===== verification/Acpi.thy ===== *)
theory Acpi
  imports CStrings KHeap VirtMem
begin

text \<open>
  \<^verbatim>\<open>src/kernel/acpi/acpi.c\<close> with \<^verbatim>\<open>acpi.h\<close> and \<^verbatim>\<open>acpi_structs.h\<close>: finding the ACPI tables of the
  firmware and recording the entries of the MADT. The firmware's tables and the string
  literals are in the memory \<open>m\<close>, which this code only reads; the pointer arrays it fills come
  from the kernel heap.
\<close>

section \<open>Structures\<close>

definition RSDP_CHECKSUM_VALIDATE_SIZE :: nat where "RSDP_CHECKSUM_VALIDATE_SIZE = 20"
definition SDT_SIG_LEN :: u64 where "SDT_SIG_LEN = 4"
definition ACPI_APIC_TBL_SIZE :: u64 where "ACPI_APIC_TBL_SIZE = 256"

definition rsdp_revision :: "mem \<Rightarrow> u64 \<Rightarrow> u8" where "rsdp_revision m p = m (p + 15)"
definition rsdp_rsdt_addr :: "mem \<Rightarrow> u64 \<Rightarrow> u32" where "rsdp_rsdt_addr m p = load32 m (p + 16)"
definition rsdp_xsdt_addr :: "mem \<Rightarrow> u64 \<Rightarrow> u64" where "rsdp_xsdt_addr m p = load64 m (p + 24)"

definition sizeof_sdt_header :: u64 where "sizeof_sdt_header = 36"
definition sdt_length :: "mem \<Rightarrow> u64 \<Rightarrow> u32" where "sdt_length m p = load32 m (p + 4)"
definition xsdt_entry :: "mem \<Rightarrow> u64 \<Rightarrow> u64 \<Rightarrow> u64" where
  "xsdt_entry m p i = load64 m (p + sizeof_sdt_header + 8 * i)"

definition madt_lapic_addr :: "mem \<Rightarrow> u64 \<Rightarrow> u32" where "madt_lapic_addr m p = load32 m (p + 36)"
definition madt_table :: "u64 \<Rightarrow> u64" where "madt_table p = p + 44"

text \<open>The kinds of MADT entry the switch distinguishes, by their type byte.\<close>

datatype madt_kind =
    Proc_lapic | Io_apic | Ioso_apic | Ionmi_apic | Nmi_lapic | Addro_lapic | Procx2_lapic

definition madt_kind_of :: "u8 \<Rightarrow> madt_kind option" where
  "madt_kind_of t =
     (if t = 0 then Some Proc_lapic else if t = 1 then Some Io_apic else if t = 2 then Some Ioso_apic
      else if t = 3 then Some Ionmi_apic else if t = 4 then Some Nmi_lapic
      else if t = 5 then Some Addro_lapic else if t = 9 then Some Procx2_lapic else None)"

record acpi_inst =
  ac_rsdp :: u64
  ac_rsdt :: u64
  ac_xsdt :: u64
  ac_madt :: u64
  ac_idx :: "madt_kind \<Rightarrow> u64"
  ac_tbl :: "madt_kind \<Rightarrow> u64"
  ac_is_v2 :: bool
  ac_debug_madt :: bool

definition acpi_zero :: acpi_inst where
  "acpi_zero = \<lparr>ac_rsdp = 0, ac_rsdt = 0, ac_xsdt = 0, ac_madt = 0, ac_idx = (\<lambda>_. 0),
     ac_tbl = (\<lambda>_. 0), ac_is_v2 = False, ac_debug_madt = False\<rparr>"

section \<open>Checks\<close>

fun sum_bytes :: "mem \<Rightarrow> u64 \<Rightarrow> nat \<Rightarrow> u8 \<Rightarrow> u8" where
  "sum_bytes m p 0 s = s"
| "sum_bytes m p (Suc n) s = sum_bytes m (p + 1) n (s + m p)"

definition acpi_validate_rsdp :: "mem \<Rightarrow> u64 \<Rightarrow> bool" where
  "acpi_validate_rsdp m rsdp =
     (if rsdp = 0 then False else sum_bytes m rsdp RSDP_CHECKSUM_VALIDATE_SIZE 0 AND 0xFF = 0)"

definition acpi_validate_sig :: "mem \<Rightarrow> u64 \<Rightarrow> u64 \<Rightarrow> bool res" where
  "acpi_validate_sig m header sig = bindE (strncmp m header sig SDT_SIG_LEN) (\<lambda>r. Inr (r = 0))"

definition acpi_validate_checksum :: "mem \<Rightarrow> u64 \<Rightarrow> bool" where
  "acpi_validate_checksum m header \<longleftrightarrow> sum_bytes m header (unat (sdt_length m header)) 0 AND 0xFF = 0"

section \<open>Finding a table\<close>

text \<open>The length of the table is subtracted from as a 64-bit number.\<close>

definition xsdt_entries :: "mem \<Rightarrow> acpi_inst \<Rightarrow> u64" where
  "xsdt_entries m ac = (ucast (sdt_length m (ac_xsdt ac)) - sizeof_sdt_header) div (if ac_is_v2 ac then 8 else 4)"

function find_entry :: "mem \<Rightarrow> u64 \<Rightarrow> u64 \<Rightarrow> u64 \<Rightarrow> u64 \<Rightarrow> u64 res" where
  "find_entry m xsdt sig n i =
     (if i < n
      then let e = xsdt_entry m xsdt i
           in bindE (acpi_validate_sig m e sig) (\<lambda>ok.
              if ok \<and> acpi_validate_checksum m e then Inr e else find_entry m xsdt sig n (i + 1))
      else Inr 0)"
  by auto
termination
proof (relation "measure (\<lambda>(m, x, s, n, i). unat n - unat i)", goal_cases)
  case (2 m xsdt sig n i e ok)
  then show ?case using unat_succ [of i n] by (simp add: word_less_nat_alt)
qed simp

declare find_entry.simps [simp del]

definition acpi_find_tbl :: "mem \<Rightarrow> acpi_inst \<Rightarrow> u64 \<Rightarrow> u64 res" where
  "acpi_find_tbl m ac sig =
     (if \<not> ac_is_v2 ac then Inl (Panic ''lazy acpi v1 support not done'')
      else find_entry m (ac_xsdt ac) sig (xsdt_entries m ac) 0)"

section \<open>The MADT\<close>

record acpi_state =
  acpi :: acpi_inst
  a_heap :: kheap

definition madt_record :: "mem \<Rightarrow> u64 \<Rightarrow> acpi_state \<Rightarrow> acpi_state" where
  "madt_record m p s =
     (case madt_kind_of (m p) of None \<Rightarrow> s
      | Some k \<Rightarrow>
          let ac = acpi s; i = ac_idx ac k
          in s\<lparr>acpi := ac\<lparr>ac_idx := (ac_idx ac)(k := i + 1)\<rparr>,
               a_heap := (a_heap s)\<lparr>h_mem := store64 (ac_tbl ac k + 8 * i) p (h_mem (a_heap s))\<rparr>\<rparr>)"

text \<open>An entry of length zero leaves the pointer where it is, so the loop need not end.\<close>

partial_function (option) madt_loop :: "mem \<Rightarrow> u64 \<Rightarrow> u64 \<Rightarrow> acpi_state \<Rightarrow> acpi_state option" where
  "madt_loop m max_addr p s =
     (if p < max_addr then madt_loop m max_addr (p + ucast (m (p + 1))) (madt_record m p s) else Some s)"

definition ACPI_TABLES :: "madt_kind list" where
  "ACPI_TABLES = [Proc_lapic, Io_apic, Ioso_apic, Ionmi_apic, Nmi_lapic, Addro_lapic, Procx2_lapic]"

fun alloc_tables :: "madt_kind list \<Rightarrow> acpi_state \<Rightarrow> acpi_state res" where
  "alloc_tables [] s = Inr s"
| "alloc_tables (k # ks) s =
     bindE (kmalloc ACPI_APIC_TBL_SIZE (a_heap s)) (\<lambda>(p, h).
       alloc_tables ks (s\<lparr>acpi := (acpi s)\<lparr>ac_tbl := (ac_tbl (acpi s))(k := p)\<rparr>, a_heap := h\<rparr>))"

definition acpi_init_madt :: "mem \<Rightarrow> u64 \<Rightarrow> acpi_state \<Rightarrow> acpi_state res" where
  "acpi_init_madt m apic_str s =
     bindE (acpi_find_tbl m (acpi s) apic_str) (\<lambda>madt.
       let s1 = s\<lparr>acpi := (acpi s)\<lparr>ac_madt := madt\<rparr>\<rparr>
       in if madt = 0 then Inl (Panic ''acpi_init_madt() - no madt found'')
          else bindE (alloc_tables ACPI_TABLES s1) (\<lambda>s2.
            let max_addr = madt + ucast (sdt_length m madt)
            in case madt_loop m max_addr (madt_table madt) s2 of
                 None \<Rightarrow> Inl Diverges
               | Some s3 \<Rightarrow> Inr s3))"

section \<open>Initialisation\<close>

text \<open>
  \<open>cr3\<close> and the addresses of the three literals are parameters. \<open>acpi_init\<close> maps the page of
  the root table before it reads it; that the mapped page shows the firmware's memory is what
  the map is for and is not part of this model, so the tables are read from \<open>m\<close>.
\<close>

record acpi_literals =
  lit_apic :: u64
  lit_xsdt :: u64
  lit_rsdt :: u64

definition acpi_init ::
    "mem \<Rightarrow> u64 \<Rightarrow> acpi_literals \<Rightarrow> u64 \<Rightarrow> kheap \<Rightarrow> vmm \<Rightarrow> (acpi_state \<times> vmm) res" where
  "acpi_init m cr3 lits rsdp h vm =
     (let a0 = acpi_zero
      in if \<not> acpi_validate_rsdp m rsdp then Inl (Panic ''ACPI - RSDP Invalid?!'')
         else let v2 = 2 \<le> rsdp_revision m rsdp;
                  a1 = a0\<lparr>ac_rsdp := rsdp, ac_is_v2 := v2\<rparr>;
                  sdt_addr = (if v2 then rsdp_xsdt_addr m rsdp else ucast (rsdp_rsdt_addr m rsdp));
                  a2 = a1\<lparr>ac_rsdt := sdt_addr\<rparr>;
                  a3 = (if v2 then a2\<lparr>ac_xsdt := sdt_addr\<rparr> else a2)
              in bindE (virt_map_page (virt_current_pd cr3) sdt_addr sdt_addr (ucast PAGE_DEFAULT) vm) (\<lambda>(_, vm1).
                 if \<not> ucast (sdt_length m (ac_rsdt a3)) < PAGE_SIZE
                 then Inl (Assertion ''(phys_addr_t)acpi.rsdt->header.length < PAGE_SIZE'')
                 else let header = (if v2 then ac_xsdt a3 else ac_rsdt a3)
                      in if \<not> acpi_validate_checksum m header then Inl (Panic ''ACPI: invalid RSDT Checksum'')
                         else bindE (acpi_validate_sig m header (if v2 then lit_xsdt lits else lit_rsdt lits)) (\<lambda>ok.
                              if \<not> ok then Inl (Panic ''ACPI: invalid RSDT Sig'')
                              else bindE (acpi_init_madt m (lit_apic lits)
                                     \<lparr>acpi = a3\<lparr>ac_debug_madt := True\<rparr>, a_heap = h\<rparr>) (\<lambda>s. Inr (s, vm1)))))"

section \<open>What the checks and the search mean\<close>

lemma sum_bytes_eq: "sum_bytes m p n s = s + sum_list (load_bytes m p n)"
proof (induction n arbitrary: p s)
  case (Suc n)
  have "load_bytes m p (Suc n) = m p # load_bytes m (p + 1) n"
    unfolding load_bytes_def upt_conv_Cons [OF zero_less_Suc] map_Suc_upt [symmetric]
    by (simp add: add.assoc)
  then show ?case using Suc by (simp add: add.assoc)
qed (simp add: load_bytes_def)

lemma and_ff [simp]: "x AND 0xFF = x" for x :: u8
proof -
  have "(0xFF :: u8) = - 1" by simp
  then show ?thesis by (metis and.right_neutral)
qed

lemma checksum_iff:
  "acpi_validate_checksum m p \<longleftrightarrow> sum_list (load_bytes m p (unat (sdt_length m p))) = 0"
  by (simp add: acpi_validate_checksum_def sum_bytes_eq)

lemma signature_ok:
  assumes "cstr m sig bs" "length bs = 4" "sig \<noteq> 0" "p \<noteq> 0"
  shows "acpi_validate_sig m p sig = Inr (load_bytes m p 4 = bs)"
proof -
  have n: "SDT_SIG_LEN \<noteq> 0" "unat SDT_SIG_LEN < 2 ^ 31" "unat SDT_SIG_LEN = 4"
    by (simp_all add: SDT_SIG_LEN_def)
  obtain r where r: "strncmp m p sig SDT_SIG_LEN = Inr r" using strncmp_defined [OF n(2)] by blast
  have "(strncmp m p sig SDT_SIG_LEN = Inr 0) = (\<forall>i<4. matching m p sig i)"
    using strncmp_zero_iff [OF assms(4,3) n(1,2)] by (simp only: n(3))
  also have "\<dots> = (\<forall>i<4. m (p + of_nat i) = bs ! i)"
    using cstr_nth(1,3) [OF assms(1)] assms(2) by (auto simp: matching_def)
  also have "\<dots> = (load_bytes m p 4 = bs)"
    using assms(2) by (simp add: list_eq_iff_nth_eq)
  finally show ?thesis using r by (simp add: acpi_validate_sig_def)
qed

text \<open>A table is the one asked for when its first four bytes are the name and its bytes sum to 0.\<close>

definition is_table :: "mem \<Rightarrow> u8 list \<Rightarrow> u64 \<Rightarrow> bool" where
  "is_table m bs p \<longleftrightarrow> load_bytes m p 4 = bs \<and>
     sum_list (load_bytes m p (unat (sdt_length m p))) = 0"

lemma find_entry_spec:
  assumes sig: "cstr m sig bs" "length bs = 4" "sig \<noteq> 0"
    and nz: "\<forall>j. i \<le> j \<and> j < n \<longrightarrow> xsdt_entry m x j \<noteq> 0" and le: "i \<le> n"
  shows "(find_entry m x sig n i = Inr 0 \<and> (\<forall>j. i \<le> j \<and> j < n \<longrightarrow> \<not> is_table m bs (xsdt_entry m x j))) \<or>
    (\<exists>k. i \<le> k \<and> k < n \<and> find_entry m x sig n i = Inr (xsdt_entry m x k) \<and>
       is_table m bs (xsdt_entry m x k) \<and> (\<forall>j. i \<le> j \<and> j < k \<longrightarrow> \<not> is_table m bs (xsdt_entry m x j)))"
  using nz le
proof (induction "unat n - unat i" arbitrary: i)
  case 0
  then have "i = n" by (simp add: word_le_nat_alt word_unat_eq_iff)
  then show ?case by (subst (1 2) find_entry.simps) auto
next
  case (Suc d)
  then have lt: "i < n" by (simp add: word_less_nat_alt)
  have su: "unat (i + 1) = Suc (unat i)" by (rule unat_succ [OF lt])
  have step: "find_entry m x sig n i =
      (if is_table m bs (xsdt_entry m x i) then Inr (xsdt_entry m x i) else find_entry m x sig n (i + 1))"
    using lt signature_ok [OF sig] Suc.prems(1)
    by (subst find_entry.simps) (simp add: Let_def checksum_iff is_table_def)
  show ?case
  proof (cases "is_table m bs (xsdt_entry m x i)")
    case True
    moreover have "\<not> (i \<le> j \<and> j < i)" for j by auto
    ultimately show ?thesis using step lt by (intro disjI2 exI [of _ i]) auto
  next
    case False
    have split: "j = i \<or> i + 1 \<le> j" if "i \<le> j" for j
      using that su by (auto simp: word_le_nat_alt word_unat_eq_iff)
    have up: "i \<le> j" if "i + 1 \<le> j" for j using that su by (simp add: word_le_nat_alt)
    have "(find_entry m x sig n (i + 1) = Inr 0 \<and>
        (\<forall>j. i + 1 \<le> j \<and> j < n \<longrightarrow> \<not> is_table m bs (xsdt_entry m x j))) \<or>
      (\<exists>k. i + 1 \<le> k \<and> k < n \<and> find_entry m x sig n (i + 1) = Inr (xsdt_entry m x k) \<and>
         is_table m bs (xsdt_entry m x k) \<and>
         (\<forall>j. i + 1 \<le> j \<and> j < k \<longrightarrow> \<not> is_table m bs (xsdt_entry m x j)))"
      by (rule Suc.hyps(1)) (use Suc.hyps(2) Suc.prems su up lt in \<open>auto simp: word_le_nat_alt word_less_nat_alt\<close>)
    then show ?thesis using step False split up by metis
  qed
qed

lemma acpi_find_tbl_cases:
  assumes "ac_is_v2 ac" and "cstr m sig bs" and "length bs = 4" and "sig \<noteq> 0"
    and "\<forall>j < xsdt_entries m ac. xsdt_entry m (ac_xsdt ac) j \<noteq> 0"
  shows "(acpi_find_tbl m ac sig = Inr 0 \<and>
      (\<forall>j < xsdt_entries m ac. \<not> is_table m bs (xsdt_entry m (ac_xsdt ac) j))) \<or>
    (\<exists>k < xsdt_entries m ac. acpi_find_tbl m ac sig = Inr (xsdt_entry m (ac_xsdt ac) k) \<and>
      is_table m bs (xsdt_entry m (ac_xsdt ac) k) \<and>
      (\<forall>j < k. \<not> is_table m bs (xsdt_entry m (ac_xsdt ac) j)))"
  using find_entry_spec [OF assms(2,3,4), of 0 "xsdt_entries m ac" "ac_xsdt ac"] assms(1,5)
  by (auto simp: acpi_find_tbl_def)

text \<open>
  C26. \<open>acpi_find_tbl\<close> finds the right table: with a four-letter name and no null entry in the
  XSDT, it returns the first entry whose signature is the name and whose bytes sum to zero, or
  the null pointer when no entry is such; it never fails otherwise.
\<close>
theorem acpi_find_tbl_first:
  assumes "ac_is_v2 ac" and "cstr m sig bs" and "length bs = 4" and "sig \<noteq> 0"
    and "\<forall>j < xsdt_entries m ac. xsdt_entry m (ac_xsdt ac) j \<noteq> 0"
  shows "(acpi_find_tbl m ac sig = Inr 0 \<and>
      (\<forall>j < xsdt_entries m ac. \<not> is_table m bs (xsdt_entry m (ac_xsdt ac) j))) \<or>
    (\<exists>k < xsdt_entries m ac. acpi_find_tbl m ac sig = Inr (xsdt_entry m (ac_xsdt ac) k) \<and>
      is_table m bs (xsdt_entry m (ac_xsdt ac) k) \<and>
      (\<forall>j < k. \<not> is_table m bs (xsdt_entry m (ac_xsdt ac) j)))"
  by (rule acpi_find_tbl_cases [OF assms])

section \<open>Reading the MADT\<close>

text \<open>The entries from one address to another, each of positive length, that do not run over.\<close>

fun entries_at :: "mem \<Rightarrow> u64 \<Rightarrow> u64 list \<Rightarrow> u64 \<Rightarrow> bool" where
  "entries_at m p [] e \<longleftrightarrow> p = e"
| "entries_at m p (q # qs) e \<longleftrightarrow> q = p \<and> m (p + 1) \<noteq> 0 \<and> unat p + unat (m (p + 1)) \<le> unat e \<and>
     entries_at m (p + ucast (m (p + 1))) qs e"

lemma madt_loop_entries:
  "entries_at m p ps e \<Longrightarrow> madt_loop m e p s = Some (fold (madt_record m) ps s)"
proof (induction ps arbitrary: p s)
  case Nil
  then show ?case by (subst madt_loop.simps) simp
next
  case (Cons q qs)
  then have "unat (m (p + 1)) \<noteq> 0" by (simp add: unat_eq_0)
  then have "p < e" using Cons.prems by (simp add: word_less_nat_alt)
  then show ?case using Cons by (subst madt_loop.simps) simp
qed

definition of_kind :: "mem \<Rightarrow> madt_kind \<Rightarrow> u64 list \<Rightarrow> u64 list" where
  "of_kind m k ps = filter (\<lambda>p. madt_kind_of (m p) = Some k) ps"

definition tables_apart :: "(madt_kind \<Rightarrow> u64) \<Rightarrow> bool" where
  "tables_apart t \<longleftrightarrow> (\<forall>k. unat (t k) + 256 \<le> 2 ^ 64) \<and>
     (\<forall>k j. k \<noteq> j \<longrightarrow> unat (t k) + 256 \<le> unat (t j) \<or> unat (t j) + 256 \<le> unat (t k))"

lemma table_slot:
  assumes "tables_apart t" "i < 32"
  shows "unat (t k + 8 * of_nat i) = unat (t k) + 8 * i"
proof -
  have "8 * (of_nat i :: u64) = of_nat (8 * i)" by simp
  moreover have "unat (t k) + 256 \<le> 2 ^ 64" using assms(1) by (auto simp: tables_apart_def)
  ultimately show ?thesis using unat_add_of_nat [of "t k" "8 * i"] assms(2) by simp
qed

lemma table_slots_apart:
  assumes "tables_apart t" "i < 32" "j < 32" "k \<noteq> l \<or> i \<noteq> j"
  shows "apart (t k + 8 * of_nat i) 8 (t l + 8 * of_nat j) 8"
proof (rule apart_nat)
  note s = table_slot [OF assms(1,2), of k] table_slot [OF assms(1,3), of l]
  have b: "unat (t k) + 256 \<le> 2 ^ 64" "unat (t l) + 256 \<le> 2 ^ 64"
    and d: "k \<noteq> l \<longrightarrow> unat (t k) + 256 \<le> unat (t l) \<or> unat (t l) + 256 \<le> unat (t k)"
    using assms(1) by (auto simp: tables_apart_def)
  show "unat (t k + 8 * of_nat i) + 8 \<le> 2 ^ 64" "unat (t l + 8 * of_nat j) + 8 \<le> 2 ^ 64"
    using s b assms(2,3) by linarith+
  show "unat (t k + 8 * of_nat i) + 8 \<le> unat (t l + 8 * of_nat j) \<or>
      unat (t l + 8 * of_nat j) + 8 \<le> unat (t k + 8 * of_nat i)"
  proof (cases "k = l")
    case True
    then consider "i < j" | "j < i" using assms(4) by linarith
    then show ?thesis by cases (use s True in auto)
  next
    case False
    then show ?thesis using d s assms(2,3) by linarith
  qed
qed simp_all

text \<open>The entries recorded so far are \<open>ps\<close>.\<close>

definition recorded :: "mem \<Rightarrow> u64 list \<Rightarrow> acpi_state \<Rightarrow> bool" where
  "recorded m ps s \<longleftrightarrow> (\<forall>k. ac_idx (acpi s) k = of_nat (length (of_kind m k ps)) \<and>
     (\<forall>j < length (of_kind m k ps).
        load64 (h_mem (a_heap s)) (ac_tbl (acpi s) k + 8 * of_nat j) = of_kind m k ps ! j))"

lemma recorded_step:
  assumes rec: "recorded m ps s" and ap: "tables_apart (ac_tbl (acpi s))"
    and room: "\<forall>k. length (of_kind m k (ps @ [p])) \<le> 32"
  shows "recorded m (ps @ [p]) (madt_record m p s)" "ac_tbl (acpi (madt_record m p s)) = ac_tbl (acpi s)"
proof -
  show "ac_tbl (acpi (madt_record m p s)) = ac_tbl (acpi s)"
    by (simp add: madt_record_def Let_def split: option.splits)
  show "recorded m (ps @ [p]) (madt_record m p s)"
  proof (cases "madt_kind_of (m p)")
    case None
    then show ?thesis using rec by (simp add: recorded_def madt_record_def of_kind_def)
  next
    case (Some k)
    let ?i = "length (of_kind m k ps)"
    have i: "?i < 32" using room [THEN spec, of k] Some by (simp add: of_kind_def)
    have idx: "ac_idx (acpi s) k = of_nat ?i" using rec by (simp add: recorded_def)
    have s': "madt_record m p s = s\<lparr>acpi := (acpi s)\<lparr>ac_idx := (ac_idx (acpi s))(k := of_nat ?i + 1)\<rparr>,
        a_heap := (a_heap s)\<lparr>h_mem := store64 (ac_tbl (acpi s) k + 8 * of_nat ?i) p (h_mem (a_heap s))\<rparr>\<rparr>"
      using Some idx by (simp add: madt_record_def Let_def)
    have kinds: "of_kind m l (ps @ [p]) = of_kind m l ps @ (if l = k then [p] else [])" for l
      using Some by (simp add: of_kind_def)
    have old: "load64 (h_mem (a_heap (madt_record m p s))) (ac_tbl (acpi s) l + 8 * of_nat j) = of_kind m l ps ! j"
      if "j < length (of_kind m l ps)" for l j
    proof -
      have "length (of_kind m l ps) \<le> 32" using room [THEN spec, of l] kinds [of l] by (simp split: if_splits)
      then have "apart (ac_tbl (acpi s) k + 8 * of_nat ?i) 8 (ac_tbl (acpi s) l + 8 * of_nat j) 8"
        using table_slots_apart [OF ap i, of j k l] that by fastforce
      then show ?thesis using rec that by (simp add: s' mem_simps recorded_def)
    qed
    have new: "load64 (h_mem (a_heap (madt_record m p s))) (ac_tbl (acpi s) k + 8 * of_nat ?i) = p"
      by (simp add: s' mem_simps)
    show ?thesis
      unfolding recorded_def
    proof (intro allI conjI impI)
      fix l
      show "ac_idx (acpi (madt_record m p s)) l = of_nat (length (of_kind m l (ps @ [p])))"
        using rec by (simp add: s' kinds recorded_def)
      fix j assume "j < length (of_kind m l (ps @ [p]))"
      then have "j < length (of_kind m l ps) \<or> l = k \<and> j = ?i"
        by (cases "l = k") (auto simp: kinds less_Suc_eq)
      then consider "j < length (of_kind m l ps)" | "l = k" "j = ?i" by blast
      then show "load64 (h_mem (a_heap (madt_record m p s)))
          (ac_tbl (acpi (madt_record m p s)) l + 8 * of_nat j) = of_kind m l (ps @ [p]) ! j"
        using old new by cases (simp_all add: s' kinds nth_append)
    qed
  qed
qed

lemma recorded_fold:
  assumes "recorded m ps s" "tables_apart (ac_tbl (acpi s))"
    "\<forall>k. length (of_kind m k (ps @ qs)) \<le> 32"
  shows "recorded m (ps @ qs) (fold (madt_record m) qs s)"
  using assms
proof (induction qs arbitrary: ps s)
  case (Cons q qs)
  have "length (of_kind m k (ps @ [q])) \<le> 32" for k
    using Cons.prems(3) [THEN spec, of k] by (simp add: of_kind_def split: if_splits)
  then have "\<forall>k. length (of_kind m k (ps @ [q])) \<le> 32" by blast
  note step = recorded_step [OF Cons.prems(1,2) this]
  show ?case using Cons.IH [OF step(1)] step(2) Cons.prems(2,3) by simp
qed simp

text \<open>
  The MADT is read completely: if the entries from the table's start fill it exactly, each
  has a positive length and at most 32 are of one kind, the loop ends, and for every kind the
  count is the number of its entries and the array holds the pointers to them in order.
\<close>
theorem madt_loop_records_entries:
  assumes "entries_at m p ps e" and "tables_apart (ac_tbl (acpi s))"
    and "\<forall>k. ac_idx (acpi s) k = 0" and "\<forall>k. length (of_kind m k ps) \<le> 32"
  shows "\<exists>s'. madt_loop m e p s = Some s' \<and> (\<forall>k. ac_idx (acpi s') k = of_nat (length (of_kind m k ps)) \<and>
     (\<forall>j < length (of_kind m k ps).
        load64 (h_mem (a_heap s')) (ac_tbl (acpi s') k + 8 * of_nat j) = of_kind m k ps ! j))"
proof -
  have "recorded m [] s" using assms(3) by (simp add: recorded_def of_kind_def)
  then have "recorded m ([] @ ps) (fold (madt_record m) ps s)"
    using assms(2,4) by (intro recorded_fold) simp_all
  then show ?thesis using madt_loop_entries [OF assms(1)] by (simp add: recorded_def)
qed

text \<open>
  An entry whose length byte is zero hangs the kernel: the loop never returns, whatever was
  recorded before.
\<close>
theorem madt_loop_zero_length:
  assumes "p < e" and "m (p + 1) = 0"
  shows "madt_loop m e p s = None"
proof (rule ccontr)
  assume "madt_loop m e p s \<noteq> None"
  then obtain s' where "madt_loop m e p s = Some s'" by blast
  moreover have "madt_loop m e p s = Some s' \<Longrightarrow> p < e \<and> m (p + 1) = 0 \<longrightarrow> False" for p s s'
    by (erule madt_loop.raw_induct [rotated]) (auto split: if_splits)
  ultimately show False using assms by blast
qed

text \<open>
  The arrays are not bounded: the 33rd entry of a kind is stored right behind the 256 bytes
  of the array, which is the footer of the heap block it was allocated as, so the block's
  bookkeeping is destroyed.
\<close>
theorem madt_record_overflows:
  assumes "madt_kind_of (m p) = Some k" and "ac_idx (acpi s) k = 32"
    and "ac_tbl (acpi s) k = b + 13" and "hdr_block_size (h_mem (a_heap s)) b = 268"
    and "unat b + 300 < 2 ^ 64" and "ucast p \<noteq> HEAP_CRC"
  shows "\<not> block_ok (h_mem (a_heap (madt_record m p s))) b"
proof -
  let ?m' = "h_mem (a_heap (madt_record m p s))"
  have m': "?m' = store64 (b + 269) p (h_mem (a_heap s))"
    using assms(1-3) by (simp add: madt_record_def Let_def add.commute)
  have u: "unat (b + 269) = unat b + 269" "unat (b + 5) = unat b + 5"
    using assms(5) unat_offset [of b 269] unat_offset [of b 5] by auto
  have "apart (b + 269) 8 (b + 5) 8" by (rule apart_nat) (use u assms(5) in auto)
  then have bs: "hdr_block_size ?m' b = 268"
    using assms(4) by (simp add: m' hdr_block_size_def mem_simps)
  have "load32 ?m' (b + 269 + of_nat 0) = ucast (drop_bit (8 * 0) (load64 ?m' (b + 269)))"
    by (rule load32_in_load64) simp
  then have "ftr_crc ?m' (b + 269) = ucast p" by (simp add: ftr_crc_def m' mem_simps)
  moreover have "b + 1 + 268 = b + 269" by simp
  ultimately show ?thesis using assms(6) bs by (simp add: block_ok_def Let_def add.commute)
qed

section \<open>Witnesses\<close>

text \<open>
  An XSDT at \<open>0x1000\<close> with one entry, the table ``APIC'' at \<open>0x2000\<close>, the name at \<open>0x3000\<close>, three
  MADT entries from \<open>0x4000\<close>, and an entry of length zero at \<open>0x5000\<close>.
\<close>

definition demo_firmware :: mem where
  "demo_firmware = (\<lambda>_. 0)(0x1004 := 44, 0x1025 := 0x20,
     0x2000 := 65, 0x2001 := 80, 0x2002 := 73, 0x2003 := 67, 0x2004 := 9, 0x2008 := 218,
     0x3000 := 65, 0x3001 := 80, 0x3002 := 73, 0x3003 := 67,
     0x4001 := 8, 0x4008 := 1, 0x4009 := 12, 0x4015 := 8)"

definition demo_inst :: acpi_inst where
  "demo_inst = acpi_zero\<lparr>ac_xsdt := 0x1000, ac_is_v2 := True,
     ac_tbl := (\<lambda>k. case k of Proc_lapic \<Rightarrow> 0x10000 | Io_apic \<Rightarrow> 0x11000 | Ioso_apic \<Rightarrow> 0x12000
       | Ionmi_apic \<Rightarrow> 0x13000 | Nmi_lapic \<Rightarrow> 0x14000 | Addro_lapic \<Rightarrow> 0x15000 | Procx2_lapic \<Rightarrow> 0x16000)\<rparr>"

definition demo_acpi :: acpi_state where
  "demo_acpi = \<lparr>acpi = demo_inst, a_heap = demo_heap\<rparr>"

lemma demo_firmware_xsdt:
  "xsdt_entries demo_firmware demo_inst = 1" "xsdt_entry demo_firmware 0x1000 0 = 0x2000"
  by (simp_all add: xsdt_entries_def sdt_length_def xsdt_entry_def sizeof_sdt_header_def demo_inst_def
      demo_firmware_def load32_def load64_def load_bytes_def upt_rec)

lemma demo_firmware_table:
  "cstr demo_firmware 0x3000 [65, 80, 73, 67]" "is_table demo_firmware [65, 80, 73, 67] 0x2000"
  by (simp_all add: cstr_def is_table_def sdt_length_def demo_firmware_def load32_def load_bytes_def upt_rec)

theorem acpi_find_tbl_first_witness:
  "acpi_find_tbl demo_firmware demo_inst 0x3000 = Inr 0x2000"
proof -
  have nz: "\<forall>j < xsdt_entries demo_firmware demo_inst. xsdt_entry demo_firmware (ac_xsdt demo_inst) j \<noteq> 0"
    and one: "xsdt_entry demo_firmware (ac_xsdt demo_inst) 0 = 0x2000"
    using demo_firmware_xsdt by (simp_all add: demo_inst_def)
  have v2: "ac_is_v2 demo_inst" by (simp add: demo_inst_def)
  show ?thesis
    using acpi_find_tbl_first [OF v2 demo_firmware_table(1) _ _ nz] demo_firmware_xsdt(1)
      demo_firmware_table(2) one by auto
qed

theorem madt_loop_records_entries_witness:
  "\<exists>s'. madt_loop demo_firmware 0x401C 0x4000 demo_acpi = Some s' \<and>
     ac_idx (acpi s') Proc_lapic = 2 \<and> ac_idx (acpi s') Io_apic = 1"
proof -
  have e: "entries_at demo_firmware 0x4000 [0x4000, 0x4008, 0x4014] 0x401C"
    by (simp add: demo_firmware_def)
  have t: "tables_apart (ac_tbl (acpi demo_acpi))"
    by (auto simp: tables_apart_def demo_acpi_def demo_inst_def split: madt_kind.splits)
  have n: "length (of_kind demo_firmware k [0x4000, 0x4008, 0x4014]) \<le> 32" for k
    unfolding of_kind_def by (rule order_trans [OF length_filter_le]) simp
  have "length (of_kind demo_firmware Proc_lapic [0x4000, 0x4008, 0x4014]) = 2"
    "length (of_kind demo_firmware Io_apic [0x4000, 0x4008, 0x4014]) = 1"
    by (simp_all add: of_kind_def madt_kind_of_def demo_firmware_def)
  then show ?thesis
    using madt_loop_records_entries [OF e t] n by (fastforce simp: demo_acpi_def demo_inst_def acpi_zero_def)
qed

theorem madt_loop_zero_length_witness: "madt_loop demo_firmware 0x5010 0x5000 demo_acpi = None"
  by (rule madt_loop_zero_length) (simp_all add: demo_firmware_def)

theorem madt_record_overflows_witness:
  "\<exists>s. ac_idx (acpi s) Io_apic = 32 \<and>
     \<not> block_ok (h_mem (a_heap (madt_record demo_firmware 0x4008 s))) 0x9000"
proof -
  define s where "s = demo_acpi\<lparr>acpi := demo_inst\<lparr>ac_idx := (\<lambda>_. 32), ac_tbl := (\<lambda>_. 0x900D)\<rparr>,
    a_heap := demo_heap\<lparr>h_mem := store64 0x9005 268 (\<lambda>_. 0)\<rparr>\<rparr>"
  have "\<not> block_ok (h_mem (a_heap (madt_record demo_firmware 0x4008 s))) 0x9000"
    by (rule madt_record_overflows [where k = Io_apic])
      (simp_all add: s_def madt_kind_of_def demo_firmware_def hdr_block_size_def mem_simps HEAP_CRC_def)
  then show ?thesis by (intro exI [of _ s]) (simp add: s_def)
qed

end
