(* ===== verification/Hpet.thy ===== *)
theory Hpet
  imports PortIO Acpi
begin

text \<open>
  \<^verbatim>\<open>src/kernel/timer/hpet.c\<close> with \<^verbatim>\<open>hpet.h\<close> and \<^verbatim>\<open>timer.h\<close>: the event timer and the busy waiting on
  its counter. The counter is a register the device answers for.
\<close>

section \<open>The driver\<close>

definition FEMTOSECONDS_PER_MICROSECOND :: u64 where "FEMTOSECONDS_PER_MICROSECOND = 1000000000"
definition ENABLE_HPET :: u64 where "ENABLE_HPET = 0x01"
definition ENABLE_LEGACY_REPLACE :: u64 where "ENABLE_LEGACY_REPLACE = 0x02"

text \<open>The registers, at their offsets in \<open>hpet_table_t\<close>, and the address in the ACPI table.\<close>

definition hpet_capabilities :: "u64 \<Rightarrow> u64" where "hpet_capabilities tbl = tbl"
definition hpet_config :: "u64 \<Rightarrow> u64" where "hpet_config tbl = tbl + 0x10"
definition hpet_main_counter :: "u64 \<Rightarrow> u64" where "hpet_main_counter tbl = tbl + 0xf0"
definition hpet_address :: "mem \<Rightarrow> u64 \<Rightarrow> u64" where "hpet_address m sdt = load64 m (sdt + 44)"

record hpet_inst =
  hp_sdt :: u64
  hp_tbl :: u64
  f_per_tick :: u64
  tick_per_us :: u64

definition ms_to_us :: "u64 \<Rightarrow> u64" where "ms_to_us millis = millis * 1000"
definition s_to_us :: "u64 \<Rightarrow> u64" where "s_to_us seconds = seconds * 1000 * 1000"

definition hpet_timer_reset :: "hpet_inst \<Rightarrow> unit io_prog" where
  "hpet_timer_reset hp = mmio_write64 (hpet_main_counter (hp_tbl hp)) 0"

definition hpet_timer_start :: "device \<Rightarrow> hpet_inst \<Rightarrow> unit io_prog" where
  "hpet_timer_start dev hp = do {
     c \<leftarrow> mmio_read64 dev (hpet_config (hp_tbl hp));
     mmio_write64 (hpet_config (hp_tbl hp)) (c OR ENABLE_HPET) }"

definition hpet_timer_poll_ticks :: "device \<Rightarrow> hpet_inst \<Rightarrow> u64 io_prog" where
  "hpet_timer_poll_ticks dev hp = mmio_read64 dev (hpet_main_counter (hp_tbl hp))"

definition hpet_timer_poll_time :: "device \<Rightarrow> hpet_inst \<Rightarrow> u64 io_prog" where
  "hpet_timer_poll_time dev hp = do {
     c \<leftarrow> mmio_read64 dev (hpet_main_counter (hp_tbl hp));
     State_Monad.return (c * f_per_tick hp) }"

text \<open>\<open>hpet_str\<close> is the address of the literal.\<close>

definition hpet_init ::
    "device \<Rightarrow> mem \<Rightarrow> u64 \<Rightarrow> u64 \<Rightarrow> acpi_inst \<Rightarrow> vmm \<Rightarrow> io \<Rightarrow> (hpet_inst \<times> vmm \<times> io) res" where
  "hpet_init dev m cr3 hpet_str ac vm h =
     bindE (acpi_find_tbl m ac hpet_str) (\<lambda>sdt.
       if sdt = 0 then Inl (Panic ''No HPET Found'')
       else bindE (virt_map_page (virt_current_pd cr3) sdt sdt (ucast PAGE_DEFAULT) vm) (\<lambda>(_, vm1).
            let tbl = hpet_address m sdt;
                (cap, h1) = run_state (mmio_read64 dev (hpet_capabilities tbl)) h;
                f = drop_bit 32 cap
            in if f = 0 then Inl Div_zero
               else let hp = \<lparr>hp_sdt = sdt, hp_tbl = tbl, f_per_tick = f, tick_per_us = FEMTOSECONDS_PER_MICROSECOND div f\<rparr>;
                        h2 = snd (run_state (do {
                          c \<leftarrow> mmio_read64 dev (hpet_config tbl);
                          mmio_write64 (hpet_config tbl) (c AND NOT (ENABLE_LEGACY_REPLACE OR ENABLE_HPET)) }) h1)
                    in Inr (hp, vm1, h2)))"

text \<open>The waiting loop need not end.\<close>

partial_function (option) wait_until :: "device \<Rightarrow> hpet_inst \<Rightarrow> u64 \<Rightarrow> io \<Rightarrow> io option" where
  "wait_until dev hp target h =
     (case run_state (hpet_timer_poll_time dev hp) h of (t, h1) \<Rightarrow>
        if t < target then wait_until dev hp target h1 else Some h1)"

definition usleep :: "device \<Rightarrow> hpet_inst \<Rightarrow> u64 \<Rightarrow> io \<Rightarrow> io option" where
  "usleep dev hp us h =
     (let h1 = snd (run_state (do { hpet_timer_reset hp; hpet_timer_start dev hp }) h)
      in wait_until dev hp (FEMTOSECONDS_PER_MICROSECOND * us) h1)"

section \<open>Waiting\<close>

text \<open>What the counter reads the \<open>n\<close>-th time after the timer was started.\<close>

definition started :: "device \<Rightarrow> hpet_inst \<Rightarrow> io \<Rightarrow> io" where
  "started dev hp h = snd (run_state (do { hpet_timer_reset hp; hpet_timer_start dev hp }) h)"

definition reads :: "hpet_inst \<Rightarrow> nat \<Rightarrow> io" where
  "reads hp n = replicate n (Mmio_read64 (hpet_main_counter (hp_tbl hp)))"

definition reading :: "device \<Rightarrow> hpet_inst \<Rightarrow> io \<Rightarrow> nat \<Rightarrow> u64" where
  "reading dev hp h n = dev (h @ reads hp (Suc n))"

interpretation hpet: polling "wait_until dev hp target" dev "Mmio_read64 (hpet_main_counter (hp_tbl hp))"
    "\<lambda>v. v * f_per_tick hp < target" for dev hp target
  by unfold_locales (subst wait_until.simps, simp add: hpet_timer_poll_time_def io_simps)

lemma usleep_ok:
  assumes "unat us < 18446744073"
    and "1000000000 * unat us \<le> unat (reading dev hp (started dev hp h) n) * unat (f_per_tick hp)"
    and "\<forall>i\<le>n. unat (reading dev hp (started dev hp h) i) * unat (f_per_tick hp) < 2 ^ 64"
  shows "\<exists>k\<le>n. usleep dev hp us h = Some (started dev hp h @ reads hp (Suc k)) \<and>
    1000000000 * unat us \<le> unat (reading dev hp (started dev hp h) k) * unat (f_per_tick hp) \<and>
    (\<forall>i<k. unat (reading dev hp (started dev hp h) i) * unat (f_per_tick hp) < 1000000000 * unat us)"
proof -
  let ?h = "started dev hp h" and ?t = "FEMTOSECONDS_PER_MICROSECOND * us"
  let ?late = "\<lambda>i. 1000000000 * unat us \<le> unat (reading dev hp ?h i) * unat (f_per_tick hp)"
  have t: "unat ?t = 1000000000 * unat us"
    using assms(1) by (simp add: FEMTOSECONDS_PER_MICROSECOND_def unat_mult_lem [THEN iffD1])
  have late: "reading dev hp ?h i * f_per_tick hp < ?t \<longleftrightarrow> \<not> ?late i" if "i \<le> n" for i
  proof -
    have "unat (reading dev hp ?h i * f_per_tick hp) = unat (reading dev hp ?h i) * unat (f_per_tick hp)"
      using assms(3) that by (intro unat_mult_lem [THEN iffD1]) simp
    then show ?thesis using t by (simp add: word_less_nat_alt not_le)
  qed
  define k where "k = (LEAST i. ?late i)"
  have k1: "?late k" unfolding k_def by (rule LeastI [of ?late, OF assms(2)])
  have k2: "k \<le> n" unfolding k_def by (rule Least_le [of ?late, OF assms(2)])
  have k3: "\<not> ?late i" if "i < k" for i using that unfolding k_def by (rule not_less_Least)
  note k = k1 k2 k3
  have "wait_until dev hp ?t ?h = Some (?h @ reads hp (Suc k))"
    unfolding reads_def
  proof (rule hpet.loop_first, fold reads_def reading_def)
    show "\<not> reading dev hp ?h k * f_per_tick hp < ?t" using late [OF k2] k1 by blast
    show "\<forall>i<k. reading dev hp ?h i * f_per_tick hp < ?t" using late k2 k3 by (meson less_le_trans less_imp_le)
  qed
  moreover have "usleep dev hp us h = wait_until dev hp ?t ?h" by (simp add: usleep_def started_def Let_def)
  ultimately have "usleep dev hp us h = Some (?h @ reads hp (Suc k))" by simp
  moreover have "\<forall>i<k. unat (reading dev hp ?h i) * unat (f_per_tick hp) < 1000000000 * unat us"
    using k(3) by (simp add: not_le)
  ultimately show ?thesis using k(1,2) by blast
qed

text \<open>
  C21. \<open>usleep\<close> waits long enough and returns: if the counter ever shows that the time has
  passed, and its readings until then do not overflow when converted, \<open>usleep\<close> returns
  after the first such reading, and none before it showed that time.
\<close>
theorem usleep_returns:
  assumes "unat us < 18446744073"
    and "1000000000 * unat us \<le> unat (reading dev hp (started dev hp h) n) * unat (f_per_tick hp)"
    and "\<forall>i\<le>n. unat (reading dev hp (started dev hp h) i) * unat (f_per_tick hp) < 2 ^ 64"
  shows "\<exists>k\<le>n. usleep dev hp us h = Some (started dev hp h @ reads hp (Suc k)) \<and>
    1000000000 * unat us \<le> unat (reading dev hp (started dev hp h) k) * unat (f_per_tick hp) \<and>
    (\<forall>i<k. unat (reading dev hp (started dev hp h) i) * unat (f_per_tick hp) < 1000000000 * unat us)"
  by (rule usleep_ok [OF assms])

text \<open>A timer of 10 MHz whose counter advances with every access.\<close>

theorem usleep_returns_witness:
  "\<exists>h'. usleep (\<lambda>h. of_nat (10 * length h)) \<lparr>hp_sdt = 0x1000, hp_tbl = 0xfed00000, f_per_tick = 100000000, tick_per_us = 10\<rparr> 3 [] = Some h'"
proof -
  let ?hp = "\<lparr>hp_sdt = 0x1000, hp_tbl = 0xfed00000, f_per_tick = 100000000, tick_per_us = 10\<rparr>"
  let ?dev = "\<lambda>h :: io. of_nat (10 * length h) :: u64"
  have l: "length (started ?dev ?hp []) = 3"
    by (simp add: started_def hpet_timer_reset_def hpet_timer_start_def io_simps)
  have r: "unat (reading ?dev ?hp (started ?dev ?hp []) i) = 10 * (4 + i)" if "i \<le> 1" for i
  proof -
    have "unat (of_nat (10 * (4 + i)) :: u64) = 10 * (4 + i)" using that by (intro unat_of_nat_small) simp
    moreover have "reading ?dev ?hp (started ?dev ?hp []) i = of_nat (10 * (4 + i))"
      using l by (simp add: reading_def reads_def)
    ultimately show ?thesis by simp
  qed
  have "\<exists>k\<le>1. usleep ?dev ?hp 3 [] = Some (started ?dev ?hp [] @ reads ?hp (Suc k)) \<and>
    1000000000 * unat (3 :: u64) \<le> unat (reading ?dev ?hp (started ?dev ?hp []) k) * unat (f_per_tick ?hp) \<and>
    (\<forall>i<k. unat (reading ?dev ?hp (started ?dev ?hp []) i) * unat (f_per_tick ?hp) < 1000000000 * unat (3 :: u64))"
    by (rule usleep_returns) (use r in auto)
  then show ?thesis by blast
qed

end
