(* ===== verification/Printf.thy ===== *)
theory Printf
  imports CStrings
begin

text \<open>
  \<^verbatim>\<open>src/kstdlib/print.c\<close>: the formatter behind \<open>printk\<close>. The format, the output buffer and
  string arguments are in byte memory. The local buffers of \<open>__vprintf\<close> are lists: what they hold
  before the NUL; a store past their size is a fault. An argument is a 64-bit slot.
\<close>

section \<open>Appending to the output\<close>

text \<open>
  \<open>__sprint\<close> with its inlined \<open>strncat\<close>, for a source given as the characters before its NUL.
  At most \<open>add_len\<close> characters are asked for, so \<open>strncpy\<close> never pads.
\<close>

definition strncat_list :: "u64 \<Rightarrow> u8 list \<Rightarrow> u64 \<Rightarrow> mem \<Rightarrow> mem res" where
  "strncat_list s1 str n m =
     bindE (strlen m s1) (\<lambda>l1.
       let len1 = ucast (ucast l1 :: u32) :: u64;
           len2 = ucast (of_nat (length str) :: u32) :: u64
       in if len2 < n then Inr (store_bytes (s1 + len1) (str @ [0]) m)
          else let m1 = store_bytes (s1 + len1) (take (unat n) str) m
               in Inr (store8 (s1 + len1 + n) 0 m1))"

definition sprint :: "u64 \<Rightarrow> u64 \<Rightarrow> u8 list \<Rightarrow> mem \<Rightarrow> (u64 \<times> mem) res" where
  "sprint buf max_len str m =
     (if buf = 0 \<or> max_len = 0 then Inr (0, m)
      else bindE (strlen m buf) (\<lambda>cur_len.
        let add_len = of_nat (length str);
            max_add = (if max_len > cur_len then max_len - cur_len else 0);
            max_add = (if max_add > add_len then add_len else max_add)
        in bindE (strncat_list buf str max_add m) (\<lambda>m1.
           bindE (strlen m1 buf) (\<lambda>catlen.
             Inr (if catlen \<noteq> 0 then catlen - cur_len else 0, m1)))))"

section \<open>The formatter\<close>

definition PRINTF_BUF :: nat where "PRINTF_BUF = 2048"

text \<open>The out function of \<open>__vprintf\<close>, with its buffer and length.\<close>

type_synonym printer = "u8 list \<Rightarrow> mem \<Rightarrow> (u64 \<times> mem) res"

text \<open>Prints whose lengths are not added up.\<close>

fun print_all :: "printer \<Rightarrow> u8 list list \<Rightarrow> mem \<Rightarrow> mem res" where
  "print_all pr [] m = Inr m"
| "print_all pr (s # ss) m = bindE (pr s m) (\<lambda>(_, m1). print_all pr ss m1)"

function msb_from :: "u32 \<Rightarrow> nat \<Rightarrow> nat" where
  "msb_from num pos = (if bit num pos \<or> pos = 0 then pos else msb_from num (pos - 1))"
  by auto
termination by (relation "measure snd") auto

declare msb_from.simps [simp del]

definition get_highest_bit :: "u32 \<Rightarrow> nat" where
  "get_highest_bit num = (if num = 0 then 0 else msb_from num 31)"

text \<open>The bits from \<open>highest\<close> down; a shift by 32 or more is undefined.\<close>

definition bit_char :: "bool \<Rightarrow> u8" where "bit_char b = (if b then 49 else 48)"

definition bits32 :: "u32 \<Rightarrow> nat \<Rightarrow> bool \<Rightarrow> u8 list list" where
  "bits32 num highest space = concat (map (\<lambda>i. [bit_char (bit num i)] #
     (if i mod 4 = 0 \<and> i \<noteq> highest \<and> space then [[32]] else [])) (rev [0..<Suc highest]))"

definition bits64 :: "u64 \<Rightarrow> u8 list list" where
  "bits64 num = concat (map (\<lambda>i. [bit_char (bit num i)] # (if i mod 4 = 0 then [[32]] else [])) (rev [0..<64]))"

definition va_arg :: "u64 list \<Rightarrow> (u64 \<times> u64 list) res" where
  "va_arg args = (case args of [] \<Rightarrow> Inl Undefined | a # as \<Rightarrow> Inr (a, as))"

text \<open>Numbers go through a buffer of 32 bytes.\<close>

definition ub_size :: nat where "ub_size = 32"

definition itoa_ub :: "u32 \<Rightarrow> u32 \<Rightarrow> u8 list res" where
  "itoa_ub a base = bindE (itoa_string a base) (\<lambda>p. if ub_size < length p then Inl Out_of_bounds else Inr (until_nul p))"

definition ltoa_ub :: "u64 \<Rightarrow> u32 \<Rightarrow> u8 list res" where
  "ltoa_ub a base =
     (if a = 0 then Inr [48]
      else bindE (ltoa_loop 60 a (scast base) []) (\<lambda>p. Inr (until_nul (ltoa_bytes p))))"

definition read_string :: "mem \<Rightarrow> u64 \<Rightarrow> u8 list res" where
  "read_string m a = bindE (strlen m a) (\<lambda>n. Inr (load_bytes m a (unat n)))"

text \<open>The characters of a literal.\<close>

definition lit :: "string \<Rightarrow> u8 list" where "lit s = map of_char s"

text \<open>
  The characters below \<open>':'\<close> are passed over, with the percent sign, up to the one that selects
  the conversion; the NUL is one of them, and so is every byte from 128 up. The result is its
  index and the number of characters passed.
\<close>

partial_function (option) scan_spec :: "mem \<Rightarrow> u64 \<Rightarrow> nat \<Rightarrow> nat \<Rightarrow> (nat \<times> nat) option" where
  "scan_spec m fmt j fp_precision =
     (if sint (m (fmt + of_nat j)) < 58 then scan_spec m fmt (Suc j) (Suc fp_precision)
      else Some (j, fp_precision))"

text \<open>What a conversion leaves: the length it counted, \<open>last_fmt_len\<close>, arguments and memory.\<close>

type_synonym converted = "(u64 \<times> nat \<times> u64 list \<times> mem) res"

definition print_counted :: "printer \<Rightarrow> u8 list \<Rightarrow> nat \<Rightarrow> u64 list \<Rightarrow> mem \<Rightarrow> converted" where
  "print_counted pr s last_fmt_len args m = bindE (pr s m) (\<lambda>(n, m1). Inr (n, last_fmt_len, args, m1))"

definition convert_int :: "printer \<Rightarrow> u64 list \<Rightarrow> mem \<Rightarrow> converted" where
  "convert_int pr args m =
     bindE (va_arg args) (\<lambda>(a, as). bindE (itoa_ub (ucast a) 10) (\<lambda>s. print_counted pr s 1 as m))"

definition convert_hex :: "printer \<Rightarrow> u64 list \<Rightarrow> mem \<Rightarrow> converted" where
  "convert_hex pr args m =
     bindE (pr (lit ''0x'') m) (\<lambda>(n0, m0).
     bindE (va_arg args) (\<lambda>(a, as). bindE (itoa_ub (ucast a) 16) (\<lambda>s.
     bindE (pr s m0) (\<lambda>(n1, m1). Inr (n0 + n1, 1, as, m1)))))"

definition convert_bits :: "printer \<Rightarrow> u8 \<Rightarrow> u64 list \<Rightarrow> mem \<Rightarrow> converted" where
  "convert_bits pr ch1 args m =
     bindE (print_all pr [lit ''0b''] m) (\<lambda>m0.
     bindE (va_arg args) (\<lambda>(a, as).
       let num = ucast a :: u32
       in if num = 0 then bindE (print_all pr [lit ''0''] m0) (\<lambda>m1. Inr (0, 1, as, m1))
          else let highest_bit = (if ch1 = of_char (CHR ''C'') then get_highest_bit num * 8 else 31);
                   highest_bit = (if ch1 = of_char (CHR ''B'') then 7 else highest_bit)
               in if 32 \<le> highest_bit then Inl Undefined
                  else bindE (print_all pr (bits32 num highest_bit (ch1 \<noteq> of_char (CHR ''B''))) m0)
                         (\<lambda>m1. Inr (0, 1, as, m1))))"

definition convert_bits64 :: "printer \<Rightarrow> u64 list \<Rightarrow> mem \<Rightarrow> converted" where
  "convert_bits64 pr args m =
     bindE (print_all pr [lit ''0b''] m) (\<lambda>m0.
     bindE (va_arg args) (\<lambda>(num, as).
     bindE (print_all pr (if num = 0 then [lit ''0000''] else bits64 num) m0) (\<lambda>m1. Inr (0, 2, as, m1))))"

definition convert_long :: "printer \<Rightarrow> u8 \<Rightarrow> nat \<Rightarrow> u64 list \<Rightarrow> mem \<Rightarrow> converted" where
  "convert_long pr ch2 fp_precision args m =
     (if ch2 \<in> set (lit ''bB'') then convert_bits64 pr args m
      else if ch2 \<in> set (lit ''xX'')
      then bindE (va_arg args) (\<lambda>(a, as). bindE (ltoa_ub a 16) (\<lambda>s. print_counted pr s 2 as m))
      else if ch2 = of_char (CHR ''f'') then print_counted pr (lit ''no double impl'') (2 + fp_precision) args m
      else bindE (va_arg args) (\<lambda>(a, as). bindE (ltoa_ub a 10) (\<lambda>s.
             print_counted pr s (if ch2 \<in> set (lit ''udi'') then 2 else 1) as m)))"

definition convert_spec :: "printer \<Rightarrow> u64 \<Rightarrow> nat \<Rightarrow> nat \<Rightarrow> u64 list \<Rightarrow> mem \<Rightarrow> converted" where
  "convert_spec pr fmt j fp_precision args m =
     (let ch1 = m (fmt + of_nat j)
      in if ch1 \<in> set (lit ''idu'') then convert_int pr args m
         else if ch1 = of_char (CHR ''x'') then convert_hex pr args m
         else if ch1 \<in> set (lit ''BbC'') then convert_bits pr ch1 args m
         else if ch1 = of_char (CHR ''c'')
         then bindE (va_arg args) (\<lambda>(a, as). print_counted pr (until_nul [ucast a]) 1 as m)
         else if ch1 = of_char (CHR ''f'') then print_counted pr (lit ''no float impl'') (1 + fp_precision) args m
         else if ch1 \<in> set (lit ''lL'') then convert_long pr (m (fmt + of_nat (j + 1))) fp_precision args m
         else if ch1 = of_char (CHR ''s'')
         then bindE (va_arg args) (\<lambda>(a, as). bindE (read_string m a) (\<lambda>s. print_counted pr s 1 as m))
         else print_counted pr [] 1 args m)"

text \<open>
  One round of the loop at index \<open>c\<close>, with the literal characters collected so far: before a
  conversion they are printed and the buffer is cleared for as many bytes as the format has,
  and at the end of the format what is left is printed.
\<close>

definition vprintf_char :: "printer \<Rightarrow> u64 \<Rightarrow> nat \<Rightarrow> u8 list \<Rightarrow> u64 \<Rightarrow> u64 list \<Rightarrow> mem \<Rightarrow>
    (nat \<times> u8 list \<times> u64 \<times> u64 list \<times> mem) res" where
  "vprintf_char pr fmt c buf tot args m =
     (let ch = m (fmt + of_nat c)
      in if ch \<noteq> of_char (CHR ''%'')
         then if PRINTF_BUF \<le> length buf + 1 then Inl Out_of_bounds
              else Inr (c + 1, buf @ [ch], tot, args, m)
         else bindE (pr buf m) (\<lambda>(n, m1).
              bindE (strlen m1 fmt) (\<lambda>l. if PRINTF_BUF < unat l then Inl Out_of_bounds
              else case scan_spec m1 fmt c 0 of None \<Rightarrow> Inl Diverges | Some (j, fp_precision) \<Rightarrow>
                bindE (convert_spec pr fmt j fp_precision args m1) (\<lambda>(n1, last_fmt_len, as, m2).
                  Inr (c + last_fmt_len + 1, [], tot + n + n1, as, m2)))))"

definition vprintf_step :: "printer \<Rightarrow> u64 \<Rightarrow> nat \<Rightarrow> u8 list \<Rightarrow> u64 \<Rightarrow> u64 list \<Rightarrow> mem \<Rightarrow>
    (nat \<times> u8 list \<times> u64 \<times> u64 list \<times> mem) res" where
  "vprintf_step pr fmt c buf tot args m =
     bindE (vprintf_char pr fmt c buf tot args m) (\<lambda>(c1, buf1, tot1, as, m1).
       if m1 (fmt + of_nat c1) = 0
       then bindE (pr buf1 m1) (\<lambda>(n, m2). Inr (c1, buf1, tot1 + n, as, m2))
       else Inr (c1, buf1, tot1, as, m1))"

partial_function (option) vprintf_loop ::
    "printer \<Rightarrow> u64 \<Rightarrow> nat \<Rightarrow> u8 list \<Rightarrow> u64 \<Rightarrow> u64 list \<Rightarrow> mem \<Rightarrow> (u64 \<times> mem) res option" where
  "vprintf_loop pr fmt c buf tot args m =
     (if m (fmt + of_nat c) = 0 then Some (Inr (tot, m))
      else case vprintf_step pr fmt c buf tot args m of Inl e \<Rightarrow> Some (Inl e)
           | Inr (c1, buf1, tot1, as, m1) \<Rightarrow> vprintf_loop pr fmt c1 buf1 tot1 as m1)"

definition vprintf :: "printer \<Rightarrow> u64 \<Rightarrow> u64 list \<Rightarrow> mem \<Rightarrow> (u64 \<times> mem) res" where
  "vprintf pr fmt args m =
     (case vprintf_loop pr fmt 0 [] 0 args m of None \<Rightarrow> Inl Diverges | Some r \<Rightarrow> r)"

definition vsnprintf :: "u64 \<Rightarrow> u64 \<Rightarrow> u64 \<Rightarrow> u64 list \<Rightarrow> mem \<Rightarrow> (u32 \<times> mem) res" where
  "vsnprintf s n fmt args m =
     bindE (vprintf (sprint s n) fmt args (snd (memset s 0 n m))) (\<lambda>(ret, m1). Inr (ucast ret, m1))"

definition snprintf :: "u64 \<Rightarrow> u64 \<Rightarrow> u64 \<Rightarrow> u64 list \<Rightarrow> mem \<Rightarrow> (u32 \<times> mem) res" where
  "snprintf s n fmt args m = vsnprintf s n fmt args m"

end
