(* ===== verification/PrintfProps.thy ===== *)
theory PrintfProps
  imports Printf
begin

text \<open>
  What the formatter prints: a reference rendering of formats built from characters and
  conversions, and the theorem that \<open>vsnprintf\<close> leaves its first \<open>n\<close> characters in the buffer.
\<close>

section \<open>Numbers\<close>

function digits :: "nat \<Rightarrow> nat \<Rightarrow> nat list" where
  "digits b n = (if n < b \<or> b < 2 then [n] else digits b (n div b) @ [n mod b])"
  by auto
termination by (relation "measure snd") auto

declare digits.simps [simp del]

definition lower_char :: "nat \<Rightarrow> u8" where
  "lower_char d = (if d < 10 then of_nat (48 + d) else of_nat (87 + d))"

definition signed_text :: "nat \<Rightarrow> u32 \<Rightarrow> u8 list" where
  "signed_text b a = (if sint a < 0 then [45] else []) @ map (\<lambda>d. digit_char (int d)) (digits b (nat \<bar>sint a\<bar>))"

definition unsigned_text :: "nat \<Rightarrow> u64 \<Rightarrow> u8 list" where
  "unsigned_text b a = map lower_char (digits b (unat a))"

lemma digits_bound: "2 \<le> b \<Longrightarrow> \<forall>d\<in>set (digits b n). d < b"
  by (induction b n rule: digits.induct) (subst digits.simps, auto)

lemma length_digits: "2 \<le> b \<Longrightarrow> n < b ^ k \<Longrightarrow> 0 < k \<Longrightarrow> length (digits b n) \<le> k"
proof (induction k arbitrary: n)
  case (Suc k)
  show ?case
  proof (cases "n < b")
    case False
    then have "0 < k" using Suc.prems by (cases k) simp_all
    moreover have "n div b < b ^ k" using Suc.prems by (simp add: less_mult_imp_div_less mult.commute)
    ultimately show ?thesis using Suc.IH [of "n div b"] Suc.prems(1) False by (subst digits.simps) simp
  qed (simp add: digits.simps)
qed simp

lemma itoa_loop_digits:
  assumes "2 \<le> b" "n < b ^ k" "0 < k" "length p + k \<le> itoa_buffer"
  shows "itoa_loop (- int n) (int b) p = Inr (map (\<lambda>d. digit_char (int d)) (digits b n) @ p)"
  using assms(2-)
proof (induction k arbitrary: n p)
  case (Suc k)
  have sd: "int n smod int b = int (n mod b)" "int n sdiv int b = int (n div b)"
    using smod_sdiv_neg [of "int n" "int b"] assms(1) by (simp_all add: zdiv_int zmod_int)
  have un: "itoa_loop (- int n) (int b) p =
      (if n div b \<noteq> 0 then itoa_loop (- int (n div b)) (int b) (digit_char (int (n mod b)) # p)
       else Inr (digit_char (int (n mod b)) # p))"
    using Suc.prems(3) assms(1) by (subst itoa_loop.simps) (simp add: Let_def sd del: of_nat_mod of_nat_div)
  show ?case
  proof (cases "n < b")
    case True
    then show ?thesis using un by (simp add: digits.simps)
  next
    case False
    then have "0 < k" using Suc.prems by (cases k) simp_all
    moreover have "n div b < b ^ k" using Suc.prems assms(1) by (simp add: less_mult_imp_div_less mult.commute)
    moreover have "n div b \<noteq> 0" using False assms(1) by (simp add: div_eq_0_iff)
    ultimately show ?thesis
      using un Suc.IH [of "n div b" "digit_char (int (n mod b)) # p"] Suc.prems False assms(1)
      by (simp add: digits.simps [of b n])
  qed
qed simp

lemma digit_char_nz: "d < 36 \<Longrightarrow> digit_char (int d) \<noteq> 0"
  using digit_char_nonzero [of "int d"] by simp

lemma signed_text_nz: "2 \<le> b \<Longrightarrow> b \<le> 36 \<Longrightarrow> 0 \<notin> set (signed_text b a)"
  using digits_bound [of b "nat \<bar>sint a\<bar>"] digit_char_nz
  by (fastforce simp: signed_text_def)

lemma signed_text_bound:
  assumes "b = 10 \<or> b = 16"
  shows "nat \<bar>sint (a :: u32)\<bar> < b ^ 10"
proof -
  have "\<bar>sint a\<bar> \<le> 2 ^ 31" using sint_ge [of a] sint_less [of a] by simp
  then have "nat \<bar>sint a\<bar> < 10 ^ 10" by simp
  also have "\<dots> \<le> b ^ 10" using assms by (intro power_mono) auto
  finally show ?thesis .
qed

lemma signed_text_length: "b = 10 \<or> b = 16 \<Longrightarrow> length (signed_text b a) \<le> 11"
  using length_digits [OF _ signed_text_bound [of b a]] by (auto simp: signed_text_def)

lemma unsigned_text_length: "b = 10 \<or> b = 16 \<Longrightarrow> length (unsigned_text b a) \<le> 20"
proof -
  assume b: "b = 10 \<or> b = 16"
  have "unat a < 10 ^ 20" using unat_lt_64 [of a] by simp
  also have "\<dots> \<le> b ^ 20" using b by (intro power_mono) auto
  finally have "unat a < b ^ 20" .
  from length_digits [OF _ this] show ?thesis using b by (auto simp: unsigned_text_def)
qed

lemma itoa_ub_text:
  assumes "b = 10 \<or> b = 16"
  shows "itoa_ub a (of_nat b) = Inr (signed_text b a)"
proof -
  have b: "sint (of_nat b :: u32) = int b" using assms by auto
  have "itoa_loop (- \<bar>sint a\<bar>) (int b) [0] = Inr (map (\<lambda>d. digit_char (int d)) (digits b (nat \<bar>sint a\<bar>)) @ [0])"
    using itoa_loop_digits [OF _ signed_text_bound [OF assms, of a], of "[0]"] assms by (auto simp: itoa_buffer_def)
  moreover have len: "length (signed_text b a) \<le> 11" by (rule signed_text_length [OF assms])
  ultimately have "itoa_string a (of_nat b) = Inr (signed_text b a @ [0])"
    using b by (auto simp: itoa_string_def signed_text_def itoa_buffer_def)
  moreover have "until_nul (signed_text b a @ [0]) = signed_text b a"
    using signed_text_nz [of b a] assms by (intro until_nul_append) auto
  ultimately show ?thesis using len by (simp add: itoa_ub_def ub_size_def)
qed

lemma ltoa_digit_lower: "d < 16 \<Longrightarrow> ltoa_digit (of_nat d) = Inr (lower_char d)"
proof -
  assume d: "d < 16"
  then have "d \<in> set [0..<16]" by simp
  moreover have "\<forall>d\<in>set [0..<16]. ltoa_digit (of_nat d) = Inr (lower_char d)" by code_simp
  ultimately show ?thesis by blast
qed

lemma lower_char_nz: "d < 16 \<Longrightarrow> lower_char d \<noteq> 0"
proof -
  assume d: "d < 16"
  then have "d \<in> set [0..<16]" by simp
  moreover have "\<forall>d\<in>set [0..<16]. lower_char d \<noteq> 0" by code_simp
  ultimately show ?thesis by blast
qed

lemma ltoa_loop_digits:
  assumes "2 \<le> b" "b \<le> 16" "unat a < b ^ k" "a \<noteq> 0"
  shows "ltoa_loop k a (of_nat b) p = Inr (map lower_char (digits b (unat a)) @ p)"
  using assms(3,4)
proof (induction k arbitrary: a p)
  case (Suc k)
  let ?b = "of_nat b :: u64"
  have b: "unat ?b = b" using assms by (intro unat_of_nat_small) simp
  have nz: "?b \<noteq> 0" using b assms(1) by auto
  have dv: "unat (a div ?b) = unat a div b" by (simp only: unat_div b)
  have um: "unat a mod b = unat (a mod ?b)" by (simp only: unat_mod b)
  have md: "a mod ?b = of_nat (unat a mod b)" unfolding um by (simp only: of_nat_unat ucast_id)
  have dig: "ltoa_digit (a mod ?b) = Inr (lower_char (unat a mod b))"
    unfolding md by (rule ltoa_digit_lower) (rule order.strict_trans2 [OF mod_less_divisor], use assms in simp_all)
  have un: "ltoa_loop (Suc k) a ?b p = ltoa_loop k (a div ?b) ?b (lower_char (unat a mod b) # p)"
    using Suc.prems(2) nz dig by simp
  show ?case
  proof (cases "unat a < b")
    case True
    then have "a div ?b = 0" using dv by (simp add: unat_eq_0 [symmetric] del: unat_eq_0)
    then have "ltoa_loop k (a div ?b) ?b (lower_char (unat a mod b) # p) = Inr (lower_char (unat a mod b) # p)"
      by (cases k) simp_all
    then show ?thesis using True un by (simp add: digits.simps)
  next
    case False
    then have "unat (a div ?b) \<noteq> 0" using dv assms(1) by (simp add: div_eq_0_iff)
    then have "a div ?b \<noteq> 0" by auto
    moreover have "unat (a div ?b) < b ^ k"
      using Suc.prems(1) dv by (simp add: less_mult_imp_div_less mult.commute)
    ultimately show ?thesis
      using un Suc.IH [of "a div ?b"] False assms(1) dv by (simp add: digits.simps [of b "unat a"])
  qed
qed (auto simp: unat_eq_0)

lemma unsigned_text_nz: "2 \<le> b \<Longrightarrow> b \<le> 16 \<Longrightarrow> 0 \<notin> set (unsigned_text b a)"
  using digits_bound [of b "unat a"] lower_char_nz by (fastforce simp: unsigned_text_def)

lemma ltoa_ub_text:
  assumes "b = 10 \<or> b = 16"
  shows "ltoa_ub a (of_nat b) = Inr (unsigned_text b a)"
proof (cases "a = 0")
  case True
  then show ?thesis using assms by (auto simp: ltoa_ub_def unsigned_text_def digits.simps lower_char_def)
next
  case False
  have sb: "scast (of_nat b :: u32) = (of_nat b :: u64)"
    using assms by auto
  have "unat a < 10 ^ 60" using unat_lt_64 [of a] by simp
  also have "\<dots> \<le> b ^ 60" using assms by (intro power_mono) auto
  finally have "unat a < b ^ 60" .
  then have run: "ltoa_loop 60 a (scast (of_nat b :: u32)) [] = Inr (unsigned_text b a)"
    using ltoa_loop_digits [of b a 60 "[]"] assms False sb by (auto simp: unsigned_text_def)
  have "length (unsigned_text b a) \<le> 20" by (rule unsigned_text_length [OF assms])
  moreover have nz: "0 \<notin> set (unsigned_text b a)" using assms unsigned_text_nz [of b a] by auto
  ultimately have "until_nul (ltoa_bytes (unsigned_text b a)) = unsigned_text b a"
    by (cases "length (unsigned_text b a) = 32")
      (simp_all add: ltoa_bytes_def Let_def until_nul_id until_nul_pad)
  then show ?thesis using run False by (simp add: ltoa_ub_def)
qed

section \<open>The output buffer\<close>

text \<open>
  The buffer holds the first \<open>n\<close> characters of the text so far. Nothing else has changed but the
  byte after it, where \<open>__sprint\<close> puts the NUL of a full buffer.
\<close>

definition out_ok :: "u64 \<Rightarrow> u64 \<Rightarrow> mem \<Rightarrow> mem \<Rightarrow> u8 list \<Rightarrow> bool" where
  "out_ok s n m0 m txt \<longleftrightarrow> cstr m s (take (unat n) txt) \<and> (\<forall>x. unat n < unat (x - s) \<longrightarrow> m x = m0 x)"

lemma store_bytes_snoc:
  assumes "length bs < 2 ^ 64"
  shows "store8 (a + of_nat (length bs)) b (store_bytes a bs m) = store_bytes a (bs @ [b]) m"
proof
  fix x
  have "unat (x - a) = length bs \<longleftrightarrow> x = a + of_nat (length bs)"
  proof -
    have "unat (x - a) = length bs \<longleftrightarrow> x - a = of_nat (length bs)"
      using unat_of_nat_small [of "length bs", where 'a = 64] assms by (auto simp: word_unat_eq_iff)
    also have "\<dots> \<longleftrightarrow> x = a + of_nat (length bs)" by (auto simp: algebra_simps)
    finally show ?thesis .
  qed
  then show "store8 (a + of_nat (length bs)) b (store_bytes a bs m) x = store_bytes a (bs @ [b]) m x"
    by (auto simp: store8_def store_bytes_def nth_append)
qed

lemma ucast_of_nat_small:
  assumes "j < 2 ^ LENGTH('a)" "j < 2 ^ LENGTH('b)"
  shows "ucast (of_nat j :: 'a::len word) = (of_nat j :: 'b::len word)"
proof -
  have "unat (ucast (of_nat j :: 'a word) :: 'b word) = j"
    using assms by (simp add: unsigned_ucast_eq unat_of_nat_small take_bit_nat_eq_self)
  then show ?thesis using unat_of_nat_small [OF assms(2)] by (simp add: word_unat_eq_iff)
qed

lemma strncat_list_short:
  assumes c: "cstr m s t" and nz: "0 \<notin> set str" and k: "k \<le> length str"
    and lim: "length t < 2 ^ 32" "length str < 2 ^ 32"
  shows "strncat_list s str (of_nat k) m = Inr (store_bytes (s + of_nat (length t)) (take k str @ [0]) m)"
proof -
  have uk: "unat (of_nat k :: u64) = k" using k lim by (intro unat_of_nat_small) simp
  have low: "ucast (of_nat j :: u32) = (of_nat j :: u64)" if "j < 2 ^ 32" for j
    using that by (intro ucast_of_nat_small) simp_all
  have "ucast (of_nat (length t) :: u64) = (of_nat (length t) :: u32)" using lim by (intro ucast_of_nat_small) simp_all
  then have len1: "ucast (ucast (of_nat (length t) :: u64) :: u32) = (of_nat (length t) :: u64)" using low lim by simp
  have "\<not> (of_nat (length str) :: u64) < of_nat k"
    using k lim uk by (simp add: word_less_nat_alt unat_of_nat)
  moreover have "length (take k str) = k" using k by simp
  ultimately show ?thesis
    using len1 low [OF lim(2)] uk strlen_cstr [OF c] store_bytes_snoc [of "take k str" "s + of_nat (length t)" 0 m] k lim
    by (simp add: strncat_list_def Let_def)
qed

lemma take_append_room: "take n (xs @ ys) = take n xs @ take (min (n - length (take n xs)) (length ys)) ys"
  by (cases "length xs \<le> n") (auto simp: min_def)

lemma sprint_out:
  assumes "s \<noteq> 0" "n \<noteq> 0" "unat n < 2 ^ 31" and out: "out_ok s n m0 m txt"
    and nz: "0 \<notin> set str" and short: "length str < 2 ^ 32"
  shows "\<exists>m'. sprint s n str m = Inr (of_nat (length (take (unat n) (txt @ str)) - length (take (unat n) txt)), m') \<and>
    out_ok s n m0 m' (txt @ str)"
proof -
  define t where "t = take (unat n) txt"
  define k where "k = min (unat n - length t) (length str)"
  let ?m = "store_bytes (s + of_nat (length t)) (take k str @ [0]) m"
  have t: "length t \<le> unat n" and c: "cstr m s t" using out by (simp_all add: t_def out_ok_def)
  have whole: "take (unat n) (txt @ str) = t @ take k str" unfolding k_def t_def by (rule take_append_room)
  have lk: "length (take k str) = k" by (simp add: k_def)
  have ul: "unat (of_nat (length t) :: u64) = length t" using t assms(3) by (intro unat_of_nat_small) simp
  have us: "unat (of_nat (length str) :: u64) = length str" using short by (intro unat_of_nat_small) simp
  have lim: "length t + length (take k str) + 1 < 2 ^ 64" using t lk assms(3) by (simp add: k_def)
  have cm: "cstr ?m s (t @ take k str)"
    by (rule cstr_append(1) [OF c _ lim]) (use nz in \<open>auto dest: in_set_takeD\<close>)
  define room :: u64 where "room = (if n > of_nat (length t) then n - of_nat (length t) else 0)"
  have "unat room = unat n - length t"
    using t ul by (auto simp: room_def word_less_nat_alt unat_sub word_le_nat_alt)
  then have uadd: "unat (if room > of_nat (length str) then of_nat (length str) else room) = k"
    using us by (auto simp: word_less_nat_alt k_def)
  have add: "(if room > of_nat (length str) then of_nat (length str) else room) = of_nat k"
    unfolding uadd [symmetric] by (simp only: of_nat_unat ucast_id)
  have cat: "strncat_list s str (of_nat k) m = Inr ?m"
    by (rule strncat_list_short [OF c nz]) (use t assms(3) short in \<open>simp_all add: k_def\<close>)
  have "sprint s n str m = Inr (if of_nat (length (t @ take k str)) \<noteq> (0 :: u64)
      then of_nat (length (t @ take k str)) - of_nat (length t) else 0, ?m)"
    using assms(1,2) by (simp only: sprint_def Let_def strlen_cstr [OF c] bindE_simps room_def [symmetric] add cat
      strlen_cstr [OF cm] if_False simp_thms)
  also have "(if of_nat (length (t @ take k str)) \<noteq> (0 :: u64)
      then of_nat (length (t @ take k str)) - of_nat (length t) else 0) = (of_nat k :: u64)"
  proof (cases "k = 0")
    case False
    have "unat (of_nat (length (t @ take k str)) :: u64) = length t + k"
      using lim lk by (subst unat_of_nat_small) simp_all
    then have "of_nat (length (t @ take k str)) \<noteq> (0 :: u64)" using False by (metis add_is_0 unat_0)
    then show ?thesis using lk by simp
  qed simp
  finally have "sprint s n str m = Inr (of_nat k, ?m)" .
  moreover have "out_ok s n m0 ?m (txt @ str)"
  proof -
    have "?m x = m x" if "unat n < unat (x - s)" for x
      by (rule cstr_append(2) [OF c _ lim]) (use nz that lk t in \<open>auto dest: in_set_takeD simp: k_def\<close>)
    then show ?thesis using out cm whole by (auto simp: out_ok_def)
  qed
  moreover have "length (take (unat n) (txt @ str)) - length (take (unat n) txt) = k"
    unfolding whole t_def [symmetric] using lk by simp
  ultimately show ?thesis by auto
qed

section \<open>Formats\<close>

text \<open>
  A format is a list of characters and conversions; a conversion comes with its argument, and a
  string argument with the string it points to.
\<close>

datatype item = Plain u8 | Dec u8 u64 | Hex u64 | Long u8 u64 | Lhex u64 | Chr u64 | Str u64 "u8 list"

fun spec_of :: "item \<Rightarrow> u8 list" where
  "spec_of (Plain b) = [b]"
| "spec_of (Dec ch w) = lit ''%'' @ [ch]"
| "spec_of (Hex w) = lit ''%x''"
| "spec_of (Long ch w) = lit ''%l'' @ [ch]"
| "spec_of (Lhex w) = lit ''%lx''"
| "spec_of (Chr w) = lit ''%c''"
| "spec_of (Str p t) = lit ''%s''"

fun args_of :: "item \<Rightarrow> u64 list" where
  "args_of (Plain b) = []"
| "args_of (Dec ch w) = [w]"
| "args_of (Hex w) = [w]"
| "args_of (Long ch w) = [w]"
| "args_of (Lhex w) = [w]"
| "args_of (Chr w) = [w]"
| "args_of (Str p t) = [p]"

fun text_of :: "item \<Rightarrow> u8 list" where
  "text_of (Plain b) = [b]"
| "text_of (Dec ch w) = signed_text 10 (ucast w)"
| "text_of (Hex w) = lit ''0x'' @ signed_text 16 (ucast w)"
| "text_of (Long ch w) = unsigned_text 10 w"
| "text_of (Lhex w) = unsigned_text 16 w"
| "text_of (Chr w) = until_nul [ucast w]"
| "text_of (Str p t) = t"

definition format_of :: "item list \<Rightarrow> u8 list" where "format_of items = concat (map spec_of items)"
definition all_args :: "item list \<Rightarrow> u64 list" where "all_args items = concat (map args_of items)"
definition rendered :: "item list \<Rightarrow> u8 list" where "rendered items = concat (map text_of items)"

text \<open>String arguments are in memory, where the output does not touch them.\<close>

fun item_ok :: "(u64 \<Rightarrow> nat \<Rightarrow> bool) \<Rightarrow> mem \<Rightarrow> item \<Rightarrow> bool" where
  "item_ok safe m (Plain b) = (b \<noteq> 0 \<and> b \<noteq> of_char (CHR ''%''))"
| "item_ok safe m (Dec ch w) = (ch \<in> set (lit ''diu''))"
| "item_ok safe m (Long ch w) = (ch \<in> set (lit ''diu''))"
| "item_ok safe m (Str p t) = (cstr m p t \<and> length t < 2 ^ 32 \<and> safe p (length t + 1))"
| "item_ok safe m it = True"

definition format_ok :: "(u64 \<Rightarrow> nat \<Rightarrow> bool) \<Rightarrow> u64 \<Rightarrow> item list \<Rightarrow> mem \<Rightarrow> bool" where
  "format_ok safe fmt items m \<longleftrightarrow> (\<forall>it\<in>set items. item_ok safe m it) \<and> cstr m fmt (format_of items) \<and>
     length (format_of items) < PRINTF_BUF \<and> safe fmt (length (format_of items) + 1)"

text \<open>For \<open>vsnprintf\<close>: apart from the buffer and the byte after it.\<close>

definition print_ok :: "u64 \<Rightarrow> u64 \<Rightarrow> u64 \<Rightarrow> item list \<Rightarrow> mem \<Rightarrow> bool" where
  "print_ok s n fmt items m \<longleftrightarrow> s \<noteq> 0 \<and> n \<noteq> 0 \<and> unat n < 2 ^ 31 \<and> format_ok (apart s (unat n + 1)) fmt items m"

lemma read_string_cstr: "cstr m p t \<Longrightarrow> read_string m p = Inr t"
proof -
  assume c: "cstr m p t"
  then have "unat (of_nat (length t) :: u64) = length t" by (intro unat_of_nat_small) (simp add: cstr_def)
  moreover have "load_bytes m p (length t) = t" by (rule nth_equalityI) (simp_all add: cstr_nth(1) [OF c])
  ultimately show ?thesis by (simp add: read_string_def strlen_cstr [OF c])
qed

lemma text_nz: "item_ok safe m it \<Longrightarrow> 0 \<notin> set (text_of it)"
  by (cases it) (auto simp: signed_text_nz unsigned_text_nz lit_def cstr_def until_nul_def dest: set_takeWhileD)

section \<open>One item\<close>

lemma text_short: "item_ok safe m it \<Longrightarrow> length (text_of it) < 2 ^ 32"
proof (cases it)
  case (Dec ch w)
  then show ?thesis using signed_text_length [of 10 "ucast w"] by simp
next
  case (Hex w)
  then show ?thesis using signed_text_length [of 16 "ucast w"] by (simp add: lit_def)
next
  case (Long ch w)
  then show ?thesis using unsigned_text_length [of 10 w] by simp
next
  case (Lhex w)
  then show ?thesis using unsigned_text_length [of 16 w] by simp
qed (simp_all add: until_nul_def)

text \<open>The text of a single conversion is printed in one or two pieces.\<close>

definition conversion :: "item \<Rightarrow> bool" where "conversion it \<longleftrightarrow> (\<forall>b. it \<noteq> Plain b)"

lemma lit_chars: "lit ''diu'' = [100, 105, 117]" "lit ''idu'' = [105, 100, 117]" "lit ''udi'' = [117, 100, 105]"
  "lit ''bB'' = [98, 66]" "lit ''BbC'' = [66, 98, 67]" "lit ''xX'' = [120, 88]" "lit ''lL'' = [108, 76]"
  "lit ''%'' = [37]" "lit ''%x'' = [37, 120]" "lit ''%l'' = [37, 108]" "lit ''%lx'' = [37, 108, 120]"
  "lit ''%c'' = [37, 99]" "lit ''%s'' = [37, 115]" "of_char (CHR ''x'') = (120 :: u8)"
  "of_char (CHR ''c'') = (99 :: u8)" "of_char (CHR ''f'') = (102 :: u8)" "of_char (CHR ''s'') = (115 :: u8)"
  "of_char (CHR ''%'') = (37 :: u8)"
  by (simp_all add: lit_def)

lemma spec_length: "conversion it \<Longrightarrow> 2 \<le> length (spec_of it) \<and> spec_of it ! 0 = 37 \<and> 58 \<le> sint (spec_of it ! 1) \<or> \<not> item_ok safe m it"
  by (cases it) (auto simp: conversion_def lit_chars)

lemma scan_item:
  assumes "m (fmt + of_nat c) = 37" "58 \<le> sint (m (fmt + of_nat (c + 1)))"
  shows "scan_spec m fmt c 0 = Some (c + 1, 1)"
proof -
  have "scan_spec m fmt c 0 = scan_spec m fmt (Suc c) 1" using assms(1) by (subst scan_spec.simps) simp
  also have "\<dots> = Some (Suc c, 1)" using assms(2) by (subst scan_spec.simps) simp
  finally show ?thesis by simp
qed

section \<open>The out function\<close>

text \<open>
  What \<open>__vprintf\<close> needs of its out function: it appends the string to the text so far, answers
  by how much the count of that text grows, and leaves what is safe from it as it was.
\<close>

locale out_fn =
  fixes pr :: printer and out :: "mem \<Rightarrow> u8 list \<Rightarrow> bool" and count :: "u8 list \<Rightarrow> u64"
    and safe :: "u64 \<Rightarrow> nat \<Rightarrow> bool" and m0 :: mem
  assumes appends: "out m txt \<Longrightarrow> 0 \<notin> set str \<Longrightarrow> length str < 2 ^ 32 \<Longrightarrow>
      \<exists>m'. pr str m = Inr (count (txt @ str) - count txt, m') \<and> out m' (txt @ str)"
    and keeps: "out m txt \<Longrightarrow> cstr m0 p t \<Longrightarrow> safe p (length t + 1) \<Longrightarrow> cstr m p t"
begin

lemma pr_out:
  assumes "out m txt" "0 \<notin> set str" "length str < 2 ^ 32"
  obtains m' where "pr str m = Inr (count (txt @ str) - count txt, m')" "out m' (txt @ str)"
  using appends [OF assms] by blast

lemma convert_item:
  assumes ok: "item_ok safe m0 it" "conversion it"
    and out: "out m txt"
    and spec: "\<forall>i<length (spec_of it). m (fmt + of_nat (c + i)) = spec_of it ! i"
  obtains m' where "convert_spec pr fmt (c + 1) 1 (args_of it @ as) m =
      Inr (count (txt @ text_of it) - count txt, length (spec_of it) - 1, as, m')"
    "out m' (txt @ text_of it)"
proof -
  have ten: "itoa_ub a 10 = Inr (signed_text 10 a)" "ltoa_ub w 10 = Inr (unsigned_text 10 w)" for a w
    using itoa_ub_text [of 10 a] ltoa_ub_text [of 10 w] by simp_all
  have sixteen: "itoa_ub a 16 = Inr (signed_text 16 a)" "ltoa_ub w 16 = Inr (unsigned_text 16 w)" for a w
    using itoa_ub_text [of 16 a] ltoa_ub_text [of 16 w] by simp_all
  obtain m1 where m1: "pr (text_of it) m = Inr (count (txt @ text_of it) - count txt, m1)"
    "out m1 (txt @ text_of it)"
    by (rule pr_out [OF out text_nz [OF ok(1)] text_short [OF ok(1)]])
  have ch: "m (fmt + of_nat (c + 1)) = spec_of it ! 1" if "1 < length (spec_of it)" using spec that by blast
  have ch2: "m (fmt + of_nat (c + 1 + 1)) = spec_of it ! 2" if "2 < length (spec_of it)"
    using spec [rule_format, of 2] that by (simp add: numeral_2_eq_2)
  note defs = convert_spec_def Let_def lit_chars va_arg_def ten sixteen print_counted_def
  show ?thesis
  proof (cases it)
    case (Plain b)
    then show ?thesis using ok by (simp add: conversion_def)
  next
    case (Dec d w)
    then have "d \<in> set (lit ''idu'')" using ok by (auto simp: lit_chars)
    then show ?thesis using that m1 ch Dec by (simp add: defs convert_int_def del: of_nat_add of_nat_Suc)
  next
    case (Hex w)
    obtain m2 where m2: "pr (lit ''0x'') m = Inr (count (txt @ lit ''0x'') - count txt, m2)"
      "out m2 (txt @ lit ''0x'')"
      by (rule pr_out [OF out, of "lit ''0x''"]) (simp_all add: lit_def)
    obtain m3 where m3: "pr (signed_text 16 (ucast w)) m2 =
        Inr (count ((txt @ lit ''0x'') @ signed_text 16 (ucast w)) - count (txt @ lit ''0x''), m3)"
      "out m3 ((txt @ lit ''0x'') @ signed_text 16 (ucast w))"
      by (rule pr_out [OF m2(2), of "signed_text 16 (ucast w)"])
        (use text_short [OF ok(1)] Hex in \<open>simp_all add: signed_text_nz\<close>)
    show ?thesis using that [of m3] m2 m3 ch Hex
      by (simp add: convert_spec_def Let_def lit_chars va_arg_def sixteen convert_hex_def del: of_nat_add of_nat_Suc)
  next
    case (Long d w)
    then have "d \<in> set (lit ''udi'')" using ok by (auto simp: lit_chars)
    then show ?thesis using that m1 ch ch2 Long
      by (auto simp: defs convert_long_def simp del: of_nat_add of_nat_Suc)
  next
    case (Lhex w)
    then show ?thesis using that m1 ch ch2 by (simp add: defs convert_long_def del: of_nat_add of_nat_Suc)
  next
    case (Chr w)
    then show ?thesis using that m1 ch by (simp add: defs del: of_nat_add of_nat_Suc)
  next
    case (Str p t)
    then have "read_string m p = Inr t" using ok keeps [OF out] by (auto intro: read_string_cstr)
    then show ?thesis using that m1 ch Str by (simp add: defs del: of_nat_add of_nat_Suc)
  qed
qed

text \<open>The text of what is in the buffer and of what is collected is the text so far.\<close>

lemma vprintf_char_item:
  assumes good: "item_ok safe m0 it"
    and F: "cstr m0 fmt (pre @ spec_of it @ post)" "length (pre @ spec_of it @ post) < PRINTF_BUF"
      "safe fmt (length (pre @ spec_of it @ post) + 1)"
    and buf: "0 \<notin> set buf" "length buf \<le> length pre" and out: "out m txt"
  obtains txt1 buf1 m1 where
    "vprintf_char pr fmt (length pre) buf (count txt) (args_of it @ as) m =
       Inr (length pre + length (spec_of it), buf1, count txt1, as, m1)"
    "out m1 txt1" "txt1 @ buf1 = txt @ buf @ text_of it" "0 \<notin> set buf1"
    "length buf1 \<le> length pre + length (spec_of it)"
proof (cases "conversion it")
  case False
  then obtain b where it: "it = Plain b" by (auto simp: conversion_def)
  have "m (fmt + of_nat (length pre)) = b"
    using cstr_nth(1) [OF keeps [OF out F(1,3)], of "length pre"] it by (simp add: nth_append)
  then show ?thesis
    using good buf F(2) it out
    by (intro that [of "buf @ [b]" "txt" m]) (auto simp: vprintf_char_def lit_chars)
next
  case True
  let ?F = "pre @ spec_of it @ post"
  obtain m1 where m1: "pr buf m = Inr (count (txt @ buf) - count txt, m1)" "out m1 (txt @ buf)"
    by (rule pr_out [OF out buf(1)]) (use buf(2) F(2) in \<open>simp add: PRINTF_BUF_def\<close>)
  have at: "m (fmt + of_nat (length pre + i)) = spec_of it ! i"
    if "i < length (spec_of it)" "cstr m fmt ?F" for m i
    using cstr_nth(1) [OF that(2), of "length pre + i"] that(1) by (simp add: nth_append del: of_nat_add)
  have c: "cstr m fmt ?F" and c1: "cstr m1 fmt ?F" using keeps [OF _ F(1,3)] out m1(2) by blast+
  have sp: "2 \<le> length (spec_of it)" "spec_of it ! 0 = 37" "58 \<le> sint (spec_of it ! 1)"
    using spec_length [OF True, of safe m0] good by auto
  have ne: "spec_of it \<noteq> []" using sp(1) by auto
  have "strlen m1 fmt = Inr (of_nat (length ?F))" by (rule strlen_cstr [OF c1])
  moreover have "unat (of_nat (length ?F) :: u64) = length ?F"
    using F(2) by (intro unat_of_nat_small) (simp add: PRINTF_BUF_def)
  moreover have "scan_spec m1 fmt (length pre) 0 = Some (length pre + 1, 1)"
    by (rule scan_item) (use at [OF _ c1, of 0] at [OF _ c1, of 1] sp ne in simp_all)
  moreover obtain m2 where m2: "convert_spec pr fmt (length pre + 1) 1 (args_of it @ as) m1 =
      Inr (count ((txt @ buf) @ text_of it) - count (txt @ buf), length (spec_of it) - 1, as, m2)"
    "out m2 ((txt @ buf) @ text_of it)"
    by (rule convert_item [OF good True m1(2), of fmt "length pre"]) (use at [OF _ c1] in auto)
  ultimately have "vprintf_char pr fmt (length pre) buf (count txt) (args_of it @ as) m =
      Inr (length pre + (length (spec_of it) - 1) + 1, [],
        count txt + (count (txt @ buf) - count txt) + (count ((txt @ buf) @ text_of it) - count (txt @ buf)), as, m2)"
    using F(2) m1(1) at [OF _ c, of 0] sp(1,2) ne
    by (simp add: vprintf_char_def lit_chars del: length_append of_nat_add append_assoc)
  then show ?thesis using sp(1) m2(2) by (intro that [of "[]" "(txt @ buf) @ text_of it" m2]) auto
qed

lemma vprintf_loop_items:
  assumes "\<forall>it\<in>set items. item_ok safe m0 it" "items \<noteq> []"
    and "cstr m0 fmt (pre @ format_of items)" "length (pre @ format_of items) < PRINTF_BUF"
      "safe fmt (length (pre @ format_of items) + 1)"
    and "0 \<notin> set buf" "length buf \<le> length pre" and "out m txt"
  shows "\<exists>m'. vprintf_loop pr fmt (length pre) buf (count txt) (all_args items) m =
      Some (Inr (count (txt @ buf @ rendered items), m')) \<and> out m' (txt @ buf @ rendered items)"
  using assms
proof (induction items arbitrary: pre buf m "txt")
  case (Cons it items)
  have F: "pre @ format_of (it # items) = pre @ spec_of it @ format_of items" by (simp add: format_of_def)
  note fmt = Cons.prems(3-5) [unfolded F]
  let ?c1 = "length pre + length (spec_of it)"
  obtain txt1 buf1 m1 where st: "vprintf_char pr fmt (length pre) buf (count txt) (args_of it @ all_args items) m =
       Inr (?c1, buf1, count txt1, all_args items, m1)"
    "out m1 txt1" "txt1 @ buf1 = txt @ buf @ text_of it" "0 \<notin> set buf1" "length buf1 \<le> ?c1"
    by (rule vprintf_char_item [OF _ fmt Cons.prems(6-8)]) (use Cons.prems(1) in auto)
  have c: "cstr m fmt (pre @ spec_of it @ format_of items)" "cstr m1 fmt (pre @ spec_of it @ format_of items)"
    using keeps [OF _ fmt(1,3)] Cons.prems(8) st(2) by blast+
  have "spec_of it \<noteq> []" by (cases it) (simp_all add: lit_def)
  then have nz: "m (fmt + of_nat (length pre)) \<noteq> 0" using cstr_nth(3) [OF c(1), of "length pre"] by simp
  have args: "all_args (it # items) = args_of it @ all_args items" by (simp add: all_args_def)
  have tx: "txt1 @ buf1 @ rendered items = txt @ buf @ rendered (it # items)"
    using st(3) by (simp add: rendered_def flip: append_assoc)
  show ?case
  proof (cases items)
    case Nil
    have "m1 (fmt + of_nat ?c1) = 0" using cstr_nth(2) [OF c(2)] Nil by (simp add: format_of_def)
    moreover obtain m2 where m2: "pr buf1 m1 = Inr (count (txt1 @ buf1) - count txt1, m2)"
      "out m2 (txt1 @ buf1)"
      by (rule pr_out [OF st(2,4)]) (use st(5) fmt(2) in \<open>simp add: PRINTF_BUF_def\<close>)
    ultimately have "vprintf_step pr fmt (length pre) buf (count txt) (all_args (it # items)) m =
        Inr (?c1, buf1, count (txt1 @ buf1), all_args items, m2)"
      using st(1) by (simp add: vprintf_step_def args)
    moreover have "m2 (fmt + of_nat ?c1) = 0"
      using cstr_nth(2) [OF keeps [OF m2(2) fmt(1,3)]] Nil by (simp add: format_of_def)
    ultimately have "vprintf_loop pr fmt (length pre) buf (count txt) (all_args (it # items)) m =
        Some (Inr (count (txt1 @ buf1), m2))"
      using nz by (subst vprintf_loop.simps) (simp add: vprintf_loop.simps)
    then show ?thesis using m2(2) tx Nil by (auto simp: rendered_def)
  next
    case (Cons it' items')
    then have "format_of items \<noteq> []" by (cases it') (simp_all add: lit_def format_of_def)
    then have "m1 (fmt + of_nat ?c1) \<noteq> 0" using cstr_nth(3) [OF c(2), of ?c1] by simp
    then have "vprintf_step pr fmt (length pre) buf (count txt) (all_args (it # items)) m =
        Inr (?c1, buf1, count txt1, all_args items, m1)"
      using st(1) by (simp add: vprintf_step_def args)
    then have "vprintf_loop pr fmt (length pre) buf (count txt) (all_args (it # items)) m =
        vprintf_loop pr fmt (length (pre @ spec_of it)) buf1 (count txt1) (all_args items) m1"
      using nz by (subst vprintf_loop.simps) simp
    moreover have "\<exists>m'. vprintf_loop pr fmt (length (pre @ spec_of it)) buf1 (count txt1) (all_args items) m1 =
        Some (Inr (count (txt1 @ buf1 @ rendered items), m')) \<and> out m' (txt1 @ buf1 @ rendered items)"
      by (rule Cons.IH) (use Cons Cons.prems(1) fmt st in simp_all)
    ultimately show ?thesis unfolding tx by simp
  qed
qed simp

lemma vprintf_items:
  assumes "format_ok safe fmt items m0" "out m []" "count [] = 0"
  shows "\<exists>m'. vprintf pr fmt (all_args items) m = Inr (count (rendered items), m') \<and> out m' (rendered items)"
proof (cases "items = []")
  case True
  have "cstr m fmt (format_of items)" using keeps [OF assms(2)] assms(1) by (simp add: format_ok_def)
  then have "m fmt = 0" using True by (simp add: format_of_def cstr_Nil)
  then show ?thesis using True assms(2,3) by (simp add: vprintf_def vprintf_loop.simps [of _ _ 0] rendered_def)
next
  case False
  have ok: "\<forall>it\<in>set items. item_ok safe m0 it" "cstr m0 fmt ([] @ format_of items)"
    "length ([] @ format_of items) < PRINTF_BUF" "safe fmt (length ([] @ format_of items) + 1)"
    using assms(1) by (simp_all add: format_ok_def)
  from vprintf_loop_items [OF ok(1) False ok(2-4) _ _ assms(2), of "[]"] assms(3) show ?thesis
    by (auto simp: vprintf_def)
qed

end

section \<open>Whole formats\<close>

lemma out_ok_cstr:
  assumes "out_ok s n m0 m txt" "cstr m0 p t" "apart s (unat n + 1) p (length t + 1)"
  shows "cstr m p t"
proof -
  have "load_bytes m p (length t + 1) = load_bytes m0 p (length t + 1)"
  proof (rule load_bytes_cong)
    fix i assume "i < length t + 1"
    from apart_miss [OF assms(3) this] show "m (p + of_nat i) = m0 (p + of_nat i)"
      using assms(1) by (simp add: out_ok_def)
  qed
  then show ?thesis using assms(2) by (simp add: cstr_def)
qed

text \<open>How many characters of a text are in the buffer.\<close>

definition kept :: "u64 \<Rightarrow> u8 list \<Rightarrow> u64" where "kept n txt = of_nat (length (take (unat n) txt))"

text \<open>The buffer as the out function of \<open>snprintf\<close> keeps it.\<close>

definition buffered :: "u64 \<Rightarrow> u64 \<Rightarrow> mem \<Rightarrow> mem \<Rightarrow> u8 list \<Rightarrow> bool" where
  "buffered s n m0 m txt \<longleftrightarrow> s \<noteq> 0 \<and> n \<noteq> 0 \<and> unat n < 2 ^ 31 \<and> out_ok s n m0 m txt"

interpretation spr: out_fn "sprint s n" "buffered s n m0" "kept n" "apart s (unat n + 1)" m0 for s n m0
proof
  fix m :: mem and ts str :: "u8 list"
  assume a: "buffered s n m0 m ts" "0 \<notin> set str" "length str < 2 ^ 32"
  have "length (take (unat n) ts) \<le> length (take (unat n) (ts @ str))" by simp
  then have "of_nat (length (take (unat n) (ts @ str)) - length (take (unat n) ts)) = kept n (ts @ str) - kept n ts"
    unfolding kept_def by (rule of_nat_diff)
  then show "\<exists>m'. sprint s n str m = Inr (kept n (ts @ str) - kept n ts, m') \<and> buffered s n m0 m' (ts @ str)"
    using sprint_out [of s n m0 m ts str] a by (simp add: buffered_def)
qed (auto simp: buffered_def intro: out_ok_cstr)

lemma vsnprintf_items:
  assumes "print_ok s n fmt items m"
  shows "\<exists>m'. vsnprintf s n fmt (all_args items) m = Inr (of_nat (min (unat n) (length (rendered items))), m') \<and>
    out_ok s n m m' (rendered items)"
proof -
  let ?m = "snd (memset s 0 n m)"
  have ok: "s \<noteq> 0" "n \<noteq> 0" "unat n < 2 ^ 31" "format_ok (apart s (unat n + 1)) fmt items m"
    using assms by (simp_all add: print_ok_def)
  have "0 < unat n" using ok(2) unat_eq_0 [of n] by linarith
  then have "buffered s n m ?m []" using ok(1-3) by (simp add: buffered_def out_ok_def memset_eq cstr_Nil)
  moreover have "kept n [] = 0" by (simp add: kept_def)
  ultimately have "\<exists>m'. vprintf (sprint s n) fmt (all_args items) ?m = Inr (kept n (rendered items), m') \<and>
      buffered s n m m' (rendered items)"
    by (rule spr.vprintf_items [OF ok(4)])
  moreover have "ucast (kept n (rendered items)) = (of_nat (min (unat n) (length (rendered items))) :: u32)"
    using ok(3) by (simp add: kept_def min.commute ucast_of_nat_small)
  ultimately show ?thesis by (auto simp: vsnprintf_def buffered_def)
qed

text \<open>
  C12. The formatter prints what the format says: for a format of characters and the conversions
  \<open>%d\<close>, \<open>%i\<close>, \<open>%u\<close>, \<open>%x\<close>, \<open>%ld\<close>, \<open>%li\<close>, \<open>%lu\<close>, \<open>%lx\<close>, \<open>%c\<close> and \<open>%s\<close>, with the arguments in order,
  the buffer ends up holding the first \<open>n\<close> characters of the rendering, terminated, their
  number is returned, and nothing but the buffer and the byte after it is written.
\<close>
theorem vsnprintf_renders:
  assumes "print_ok s n fmt items m"
  shows "\<exists>m'. vsnprintf s n fmt (all_args items) m = Inr (of_nat (min (unat n) (length (rendered items))), m') \<and>
    cstr m' s (take (unat n) (rendered items)) \<and> (\<forall>x. unat n < unat (x - s) \<longrightarrow> m' x = m x)"
  using vsnprintf_items [OF assms] by (simp add: out_ok_def)

text \<open>
  C39. The byte after the buffer is overwritten when the text fills it: a rendering of \<open>n\<close>
  characters or more leaves its NUL at \<open>s + n\<close>, and the returned length is \<open>n\<close>.
\<close>
theorem vsnprintf_overruns:
  assumes "print_ok s n fmt items m" and "unat n \<le> length (rendered items)"
  shows "\<exists>m'. vsnprintf s n fmt (all_args items) m = Inr (ucast n, m') \<and> m' (s + n) = 0"
proof -
  from vsnprintf_items [OF assms(1)] obtain m' where
    m': "vsnprintf s n fmt (all_args items) m = Inr (of_nat (min (unat n) (length (rendered items))), m')"
    "cstr m' s (take (unat n) (rendered items))" by (auto simp: out_ok_def)
  have "s + of_nat (length (take (unat n) (rendered items))) = s + n" using assms(2) by (simp add: min_absorb2)
  then have "m' (s + n) = 0" using cstr_nth(2) [OF m'(2)] by simp
  moreover have "of_nat (min (unat n) (length (rendered items))) = (ucast n :: u32)" using assms(2) by (simp add: min_absorb1)
  ultimately show ?thesis using m'(1) by simp
qed

section \<open>Witnesses\<close>

text \<open>\<open>"%s=%d %lx"\<close> at 256, the string at 512, the buffer at 4096.\<close>

definition demo_items :: "item list" where
  "demo_items = [Str 512 (lit ''pg''), Plain 61, Dec 100 0xFFFFFFFE, Plain 32, Lhex 0xff]"

definition demo_print :: mem where
  "demo_print = store_bytes 256 (format_of demo_items @ [0]) (store_bytes 512 (lit ''pg'' @ [0]) (\<lambda>_. 0))"

lemma demo_rendered: "rendered demo_items = lit ''pg=-2 ff''"
  by code_simp

lemma demo_print_ok: "n = 4 \<or> n = 64 \<or> n = 2048 \<Longrightarrow> print_ok 4096 n 256 demo_items demo_print"
  by (auto simp: print_ok_def format_ok_def demo_items_def demo_print_def format_of_def lit_def cstr_def load_bytes_def store_bytes_def
      upt_rec apart_def PRINTF_BUF_def)

theorem vsnprintf_renders_witness:
  "\<exists>m'. vsnprintf 4096 64 256 [512, 0xFFFFFFFE, 0xff] demo_print = Inr (8, m') \<and> cstr m' 4096 (lit ''pg=-2 ff'')"
proof -
  have "all_args demo_items = [512, 0xFFFFFFFE, 0xff]" by (simp add: all_args_def demo_items_def)
  moreover have "length (rendered demo_items) = 8" "take 64 (rendered demo_items) = lit ''pg=-2 ff''"
    unfolding demo_rendered by (simp_all add: lit_def)
  ultimately show ?thesis using vsnprintf_renders [OF demo_print_ok [of 64]] by auto
qed

theorem vsnprintf_overruns_witness:
  "\<exists>m'. vsnprintf 4096 4 256 [512, 0xFFFFFFFE, 0xff] demo_print = Inr (4, m') \<and> m' 4100 = 0"
proof -
  have "all_args demo_items = [512, 0xFFFFFFFE, 0xff]" by (simp add: all_args_def demo_items_def)
  moreover have "unat (4 :: u64) \<le> length (rendered demo_items)" unfolding demo_rendered by (simp add: lit_def)
  ultimately show ?thesis using vsnprintf_overruns [OF demo_print_ok [of 4]] by auto
qed

end
