(* ===== verification/Serial.thy ===== *)
theory Serial
  imports PortIO
begin

text \<open>
  \<^verbatim>\<open>src/kernel/driver/serial/serialdriver.c\<close>: the serial port the kernel logs to, and the UART it
  drives, as the registers its writes leave and the characters it sends. A string is the list
  of its characters before the NUL.
\<close>

section \<open>The driver\<close>

definition SERIAL_PORT_COM1 :: u16 where "SERIAL_PORT_COM1 = 0x3f8"

record serial =
  has_init :: u8
  use_e9 :: u64

definition serial_reset :: serial where "serial_reset = \<lparr>has_init = 0, use_e9 = 0\<rparr>"

definition serial_init :: "device \<Rightarrow> serial \<Rightarrow> (u32 \<times> serial) io_prog" where
  "serial_init dev s =
     (if has_init s \<noteq> 0 then State_Monad.return (0, s)
      else do {
        port_byte_out (SERIAL_PORT_COM1 + 1) 0x00;
        port_byte_out (SERIAL_PORT_COM1 + 3) 0x80;
        port_byte_out (SERIAL_PORT_COM1 + 0) 0x01;
        port_byte_out (SERIAL_PORT_COM1 + 1) 0x00;
        port_byte_out (SERIAL_PORT_COM1 + 3) 0x02;
        port_byte_out (SERIAL_PORT_COM1 + 2) 0xC7;
        port_byte_out (SERIAL_PORT_COM1 + 4) 0x0B;
        port_byte_out (SERIAL_PORT_COM1 + 4) 0x1E;
        port_byte_out (SERIAL_PORT_COM1 + 0) 0xAE;
        r \<leftarrow> port_byte_in dev (SERIAL_PORT_COM1 + 0);
        if r \<noteq> 0xAE then State_Monad.return (1, s\<lparr>has_init := 1\<rparr>)
        else do {
          port_byte_out (SERIAL_PORT_COM1 + 4) 0x0F;
          State_Monad.return (0, s\<lparr>has_init := 1, use_e9 := 0\<rparr>) } })"

definition is_transmit_empty :: "device \<Rightarrow> u32 io_prog" where
  "is_transmit_empty dev = do {
     r \<leftarrow> port_byte_in dev (SERIAL_PORT_COM1 + 5);
     State_Monad.return (ucast r AND 0x20) }"

partial_function (option) serial_wait :: "device \<Rightarrow> io \<Rightarrow> io option" where
  "serial_wait dev h =
     (case run_state (is_transmit_empty dev) h of (r, h1) \<Rightarrow> if r = 0 then serial_wait dev h1 else Some h1)"

definition serial_write :: "device \<Rightarrow> u8 \<Rightarrow> io \<Rightarrow> io option" where
  "serial_write dev a h =
     (case serial_wait dev h of None \<Rightarrow> None
      | Some h1 \<Rightarrow> Some (snd (run_state (port_byte_out SERIAL_PORT_COM1 a) h1)))"

definition e9_write :: "u8 \<Rightarrow> io \<Rightarrow> io option" where
  "e9_write a h = Some (snd (run_state (port_e9_hack_out a) h))"

fun write_all :: "(u8 \<Rightarrow> io \<Rightarrow> io option) \<Rightarrow> u8 list \<Rightarrow> io \<Rightarrow> io option" where
  "write_all w [] h = Some h"
| "write_all w (a # str) h = (case w a h of None \<Rightarrow> None | Some h1 \<Rightarrow> write_all w str h1)"

definition serial_print :: "device \<Rightarrow> serial \<Rightarrow> u8 list \<Rightarrow> io \<Rightarrow> io option" where
  "serial_print dev s str h =
     (if has_init s = 0 then Some h
      else if use_e9 s = 0 then write_all (serial_write dev) str h
      else write_all e9_write str h)"

definition serial_println :: "device \<Rightarrow> serial \<Rightarrow> u8 list \<Rightarrow> io \<Rightarrow> io option" where
  "serial_println dev s str h =
     (case serial_print dev s str h of None \<Rightarrow> None | Some h1 \<Rightarrow> serial_print dev s [10] h1)"

definition serial_set_e9 :: "serial \<Rightarrow> serial" where "serial_set_e9 s = s\<lparr>use_e9 := 1\<rparr>"

section \<open>The chip\<close>

text \<open>
  A 16550 at the port: the divisor behind the latch bit of the line control register, whose low
  bits give the word length, and the loopback bit of the modem control register, which keeps
  what is written from the line.
\<close>

record uart =
  u_div_lo :: u8
  u_div_hi :: u8
  u_ier :: u8
  u_fcr :: u8
  u_lcr :: u8
  u_mcr :: u8
  u_sent :: "u8 list"

definition word_length :: "u8 \<Rightarrow> nat" where "word_length lcr = 5 + unat (lcr AND 3)"

fun uart_event :: "io_event \<Rightarrow> uart \<Rightarrow> uart" where
  "uart_event (Port_out p v) u =
     (if p = 0x3f8 then
        if bit (u_lcr u) 7 then u\<lparr>u_div_lo := v\<rparr>
        else if bit (u_mcr u) 4 then u
        else u\<lparr>u_sent := u_sent u @ [take_bit (word_length (u_lcr u)) v]\<rparr>
      else if p = 0x3f9 then if bit (u_lcr u) 7 then u\<lparr>u_div_hi := v\<rparr> else u\<lparr>u_ier := v\<rparr>
      else if p = 0x3fa then u\<lparr>u_fcr := v\<rparr>
      else if p = 0x3fb then u\<lparr>u_lcr := v\<rparr>
      else if p = 0x3fc then u\<lparr>u_mcr := v\<rparr>
      else u)"
| "uart_event _ u = u"

definition uart_after :: "io \<Rightarrow> uart \<Rightarrow> uart" where "uart_after h u = fold uart_event h u"

text \<open>Ready to send: divisor latch closed, no loopback.\<close>

definition on_line :: "uart \<Rightarrow> bool" where "on_line u \<longleftrightarrow> \<not> bit (u_lcr u) 7 \<and> \<not> bit (u_mcr u) 4"

lemma uart_after_append [simp]: "uart_after (h @ h') u = uart_after h' (uart_after h u)"
  by (simp add: uart_after_def)

lemma uart_after_simps [simp]:
  "uart_after [] u = u" "uart_after (e # h) u = uart_after h (uart_event e u)"
  by (simp_all add: uart_after_def)

lemma uart_polls [simp]: "uart_after (replicate n (Port_in p)) u = u"
  by (induction n) simp_all

section \<open>Initialisation\<close>

text \<open>
  C33. \<open>serial_init\<close> leaves the chip, if its divisor latch was closed, without interrupts, with
  divisor 1, words of seven bits and the FIFOs on, and has sent nothing. When the loopback test
  succeeds the chip is on the line; when it fails the chip stays in loopback, so nothing that
  is printed afterwards is sent, though the driver counts as initialised.
\<close>
theorem serial_init_registers:
  assumes "has_init s = 0" and "\<not> bit (u_lcr (uart_after h u)) 7"
  shows "\<exists>r s' h'. run_state (serial_init dev s) h = ((r, s'), h') \<and> has_init s' = 1 \<and>
     u_div_lo (uart_after h' u) = 1 \<and> u_div_hi (uart_after h' u) = 0 \<and> u_ier (uart_after h' u) = 0 \<and>
     u_fcr (uart_after h' u) = 0xC7 \<and> word_length (u_lcr (uart_after h' u)) = 7 \<and>
     u_sent (uart_after h' u) = u_sent (uart_after h u) \<and>
     (r = 0 \<longleftrightarrow> on_line (uart_after h' u))"
  using assms
  by (auto simp: serial_init_def io_simps SERIAL_PORT_COM1_def word_length_def on_line_def
      simp flip: append_assoc split: if_splits)

section \<open>Printing\<close>

interpretation tx: polling "serial_wait dev" dev "Port_in 0x3fd" "\<lambda>v. ucast (ucast v :: u8) AND (0x20 :: u32) = 0" for dev
  by unfold_locales (subst serial_wait.simps, simp add: is_transmit_empty_def io_simps SERIAL_PORT_COM1_def)

text \<open>A transmitter that sooner or later is empty, however long the run before.\<close>

definition drains :: "device \<Rightarrow> bool" where
  "drains dev \<longleftrightarrow> (\<forall>h. \<exists>n. ucast (ucast (dev (h @ replicate (Suc n) (Port_in 0x3fd))) :: u8) AND (0x20 :: u32) \<noteq> 0)"

lemma serial_write_sends:
  assumes "drains dev" "on_line (uart_after h u)"
  obtains h' where "serial_write dev a h = Some (h @ h')"
    "uart_after h' (uart_after h u) =
       uart_after h u\<lparr>u_sent := u_sent (uart_after h u) @ [take_bit (word_length (u_lcr (uart_after h u))) a]\<rparr>"
proof -
  from assms(1) obtain n where "\<not> ucast (ucast (dev (h @ replicate (Suc n) (Port_in 0x3fd))) :: u8) AND (0x20 :: u32) = 0"
    unfolding drains_def by blast
  then obtain k where "serial_wait dev h = Some (h @ replicate (Suc k) (Port_in 0x3fd))" by (rule tx.loop_returns)
  then have "serial_write dev a h = Some (h @ (replicate (Suc k) (Port_in 0x3fd) @ [Port_out 0x3f8 a]))"
    by (simp add: serial_write_def io_simps SERIAL_PORT_COM1_def)
  from this show ?thesis by (rule that) (use assms(2) in \<open>simp add: on_line_def del: replicate.simps\<close>)
qed

text \<open>What is on the line after a string: its characters, cut to the length of a word.\<close>

definition sends :: "io \<Rightarrow> uart \<Rightarrow> u8 list \<Rightarrow> uart" where
  "sends h u str = uart_after h u\<lparr>u_sent := u_sent (uart_after h u) @ map (take_bit (word_length (u_lcr (uart_after h u)))) str\<rparr>"

lemma write_all_sends:
  assumes "drains dev" "on_line (uart_after h u)"
  shows "\<exists>h'. write_all (serial_write dev) str h = Some h' \<and> uart_after h' u = sends h u str"
  using assms(2)
proof (induction str arbitrary: h)
  case Nil
  then show ?case by (simp add: sends_def)
next
  case (Cons a str)
  obtain h1 where h1: "serial_write dev a h = Some (h @ h1)"
    "uart_after h1 (uart_after h u) =
       uart_after h u\<lparr>u_sent := u_sent (uart_after h u) @ [take_bit (word_length (u_lcr (uart_after h u))) a]\<rparr>"
    by (rule serial_write_sends [OF assms(1) Cons.prems])
  have "on_line (uart_after (h @ h1) u)" using Cons.prems h1(2) by (simp add: on_line_def)
  from Cons.IH [OF this] h1 show ?case by (auto simp: sends_def)
qed

definition serial_ready :: "serial \<Rightarrow> bool" where "serial_ready s \<longleftrightarrow> has_init s \<noteq> 0 \<and> use_e9 s = 0"

lemma serial_print_sends:
  assumes "serial_ready s" "drains dev" "on_line (uart_after h u)"
  shows "\<exists>h'. serial_print dev s str h = Some h' \<and> uart_after h' u = sends h u str"
  using write_all_sends [OF assms(2,3)] assms(1) by (simp add: serial_print_def serial_ready_def)

lemma sends_sends:
  assumes "uart_after h' u = sends h u str" shows "sends h' u str' = sends h u (str @ str')"
  using assms by (simp add: sends_def)

lemma serial_println_sends:
  assumes "serial_ready s" "drains dev" "on_line (uart_after h u)"
  shows "\<exists>h'. serial_println dev s str h = Some h' \<and> uart_after h' u = sends h u (str @ [10])"
proof -
  from serial_print_sends [OF assms, of str] obtain h1 where
    h1: "serial_print dev s str h = Some h1" "uart_after h1 u = sends h u str" by blast
  have "on_line (uart_after h1 u)" using assms(3) h1(2) by (simp add: sends_def on_line_def)
  from serial_print_sends [OF assms(1,2) this, of "[10]"] h1 sends_sends [OF h1(2)] show ?thesis
    by (auto simp: serial_println_def)
qed

section \<open>Witnesses\<close>

definition demo_uart :: uart where
  "demo_uart = \<lparr>u_div_lo = 12, u_div_hi = 0, u_ier = 0, u_fcr = 0, u_lcr = 3, u_mcr = 0, u_sent = []\<rparr>"

theorem serial_init_registers_witness:
  "\<exists>r s' h'. run_state (serial_init (\<lambda>_. 0xAE) serial_reset) [] = ((r, s'), h') \<and> word_length (u_lcr (uart_after h' demo_uart)) = 7"
proof -
  have "has_init serial_reset = 0" "\<not> bit (u_lcr (uart_after [] demo_uart)) 7"
    by (simp_all add: serial_reset_def demo_uart_def bit_numeral_rec)
  from serial_init_registers [OF this, of "\<lambda>_. 0xAE"] show ?thesis by blast
qed

end
