(* ===== verification/Printk.thy ===== *)
theory Printk
  imports PrintfProps Serial
begin

text \<open>
  \<^verbatim>\<open>src/kernel/printk.c\<close>: the kernel log, which formats into a buffer on its stack and prints
  that to the serial port.
\<close>

section \<open>Logging\<close>

definition PRINTK_BUF_SIZE :: u64 where "PRINTK_BUF_SIZE = 2048"

definition printk_vm :: "u8 list \<Rightarrow> io \<Rightarrow> io option" where "printk_vm str h = write_all e9_write str h"

text \<open>The byte before the NUL is read also when the string is empty.\<close>

definition printk_findoutputs :: "device \<Rightarrow> serial \<Rightarrow> u64 \<Rightarrow> mem \<Rightarrow> io \<Rightarrow> io res" where
  "printk_findoutputs dev s str m h =
     bindE (strlen m str) (\<lambda>len.
     bindE (read_string m str) (\<lambda>cs.
       case if m (str + (len - 1)) = 10 then serial_print dev s cs h else serial_println dev s cs h of
         None \<Rightarrow> Inl Diverges | Some h1 \<Rightarrow> Inr h1))"

text \<open>\<open>buf\<close> is the address of the buffer in the stack frame.\<close>

definition printk :: "device \<Rightarrow> serial \<Rightarrow> u64 \<Rightarrow> u64 \<Rightarrow> u64 list \<Rightarrow> mem \<Rightarrow> io \<Rightarrow> (mem \<times> io) res" where
  "printk dev s buf fmt args m h =
     bindE (vsnprintf buf PRINTK_BUF_SIZE fmt args m) (\<lambda>(_, m1).
     bindE (printk_findoutputs dev s buf m1 h) (\<lambda>h1. Inr (m1, h1)))"

section \<open>What is logged\<close>

definition logged :: "u8 list \<Rightarrow> u8 list" where
  "logged str = (if last str = 10 then str else str @ [10])"

lemma printk_logged:
  assumes "serial_ready s" and "drains dev" and "on_line (uart_after h u)"
    and "print_ok buf PRINTK_BUF_SIZE fmt items m" and "rendered items \<noteq> []"
  shows "\<exists>m' h'. printk dev s buf fmt (all_args items) m h = Inr (m', h') \<and>
    u_sent (uart_after h' u) = u_sent (uart_after h u) @
      map (take_bit (word_length (u_lcr (uart_after h u)))) (logged (take 2048 (rendered items)))"
proof -
  define t where "t = take 2048 (rendered items)"
  have n: "unat PRINTK_BUF_SIZE = 2048" by (simp add: PRINTK_BUF_SIZE_def)
  obtain r m' where m': "vsnprintf buf PRINTK_BUF_SIZE fmt (all_args items) m = Inr (r, m')" "cstr m' buf t"
    using vsnprintf_items [OF assms(4)] by (auto simp: out_ok_def n t_def)
  have ne: "t \<noteq> []" using assms(5) by (simp add: t_def)
  have pos: "of_nat (length t) - 1 = (of_nat (length t - 1) :: u64)" using ne by (simp add: of_nat_diff Suc_le_eq)
  have last: "m' (buf + (of_nat (length t) - 1)) = last t"
    unfolding pos using cstr_nth(1) [OF m'(2), of "length t - 1"] ne by (simp add: last_conv_nth del: of_nat_diff)
  have "\<exists>h'. (if last t = 10 then serial_print dev s t h else serial_println dev s t h) = Some h' \<and>
      uart_after h' u = sends h u (logged t)"
    using serial_print_sends [OF assms(1-3), of t] serial_println_sends [OF assms(1-3), of t] by (simp add: logged_def)
  then obtain h' where h': "printk_findoutputs dev s buf m' h = Inr h'" "uart_after h' u = sends h u (logged t)"
    using last by (auto simp: printk_findoutputs_def strlen_cstr [OF m'(2)] read_string_cstr [OF m'(2)])
  have "u_sent (uart_after h' u) = u_sent (uart_after h u) @ map (take_bit (word_length (u_lcr (uart_after h u)))) (logged t)"
    unfolding h'(2) by (simp add: sends_def)
  moreover have "printk dev s buf fmt (all_args items) m h = Inr (m', h')"
    using m'(1) h'(1) by (simp add: printk_def)
  ultimately show ?thesis unfolding t_def by blast
qed


section \<open>Witnesses\<close>


end
