(* ===== verification/Panic.thy ===== *)
theory Panic
  imports Printk OArray
begin

text \<open>
  How the kernel stops: \<^verbatim>\<open>panic.c\<close> and \<^verbatim>\<open>kassert.c\<close>, which log through \<open>printk\<close> and halt the processor,
  and the log output of \<^verbatim>\<open>orderedarray.c\<close>. In the components a stop is the fault \<open>Panic\<close> or
  \<open>Assertion\<close>; here is what it does.
\<close>

section \<open>Stopping\<close>

text \<open>What the code changes of the processor. A halted processor goes on only to serve interrupts.\<close>

record cpu =
  c_rax :: u64
  c_rbx :: u64
  c_rdi :: u64
  c_if :: bool
  c_halted :: bool

text \<open>
  \<open>buf\<close> is the buffer of \<open>printk\<close>. The message is its format, without arguments; interrupts stay
  as they are.
\<close>

definition panic :: "device \<Rightarrow> serial \<Rightarrow> u64 \<Rightarrow> u64 \<Rightarrow> mem \<Rightarrow> io \<Rightarrow> cpu \<Rightarrow> (mem \<times> io \<times> cpu) res" where
  "panic dev s buf msg m h c =
     bindE (printk dev s buf msg [] m h) (\<lambda>(m1, h1). Inr (m1, h1, c\<lparr>c_halted := True\<rparr>))"

text \<open>\<open>fmt\<close> is the address of the format literal; \<open>line\<close> is an \<open>int\<close>.\<close>

definition assert_format :: "u8 list" where
  "assert_format = lit ''assertion failed: '' @ [39] @ lit ''%s'' @ [39] @ lit '' !!! '' @ [10] @ lit ''-->%s (%d)''"

definition assert_try_print :: "device \<Rightarrow> serial \<Rightarrow> u64 \<Rightarrow> u64 \<Rightarrow> u64 \<Rightarrow> u64 \<Rightarrow> u32 \<Rightarrow> mem \<Rightarrow> io \<Rightarrow> (mem \<times> io) res" where
  "assert_try_print dev s buf fmt str file line m h = printk dev s buf fmt [str, file, ucast line] m h"

definition on_fail_assert ::
    "device \<Rightarrow> serial \<Rightarrow> u64 \<Rightarrow> u64 \<Rightarrow> u64 \<Rightarrow> u64 \<Rightarrow> u32 \<Rightarrow> mem \<Rightarrow> io \<Rightarrow> cpu \<Rightarrow> (mem \<times> io \<times> cpu) res" where
  "on_fail_assert dev s buf fmt cond file line m h c =
     bindE (assert_try_print dev s buf fmt cond file line m h) (\<lambda>(m1, h1).
       Inr (m1, h1, c\<lparr>c_rax := 0xdeadbeef, c_rdi := 0xdeadbeef, c_rbx := 0xdeadbeef, c_if := False, c_halted := True\<rparr>))"

text \<open>The interrupt handlers that only log; \<open>msg\<close> is the address of their literal.\<close>

definition spurious_handler :: "device \<Rightarrow> serial \<Rightarrow> u64 \<Rightarrow> u64 \<Rightarrow> mem \<Rightarrow> io \<Rightarrow> (mem \<times> io) res" where
  "spurious_handler dev s buf msg m h = printk dev s buf msg [] m h"

definition test_handler :: "device \<Rightarrow> serial \<Rightarrow> u64 \<Rightarrow> u64 \<Rightarrow> mem \<Rightarrow> io \<Rightarrow> (mem \<times> io) res" where
  "test_handler dev s buf msg m h = printk dev s buf msg [] m h"

text \<open>The messages the kernel panics with.\<close>

definition panic_messages :: "string list" where
  "panic_messages = [''MB MAGIC MISMATCH'', ''PMM Fail - Init Failed'', ''ACPI - RSDP Invalid?!'', ''PMM Fail - No MB MMAP?'',
     ''Can'' @ [CHR 39] @ ''t Recover From Exception'', ''Triple Fault!'', ''virt_get_next_map_level'', ''missing heap header'',
     ''Heap Full or Expansion Failed'', ''heap header insertion failure'', ''lazy acpi v1 support not done'',
     ''acpi_init_madt() - no madt found'', ''ACPI: invalid RSDT Checksum'', ''ACPI: invalid RSDT Sig'', ''No HPET Found'']"

section \<open>Log output of the ordered array\<close>

text \<open>\<open>fmts\<close> are the addresses of the format literals, \<open>print_element\<close> the callback.\<close>

definition oarray_print_info :: "device \<Rightarrow> serial \<Rightarrow> u64 \<Rightarrow> u64 \<times> u64 \<Rightarrow> u64 \<Rightarrow> oarray \<Rightarrow> mem \<Rightarrow> io \<Rightarrow> (mem \<times> io) res" where
  "oarray_print_info dev s buf fmts p a m h =
     bindE (printk dev s buf (fst fmts) [p, ucast (oa_idx a)] m h) (\<lambda>(m1, h1).
       printk dev s buf (snd fmts) [ucast (max_elements a), max_size_bytes a] m1 h1)"

text \<open>The number of the element, which the format asks for, is not passed.\<close>

fun print_elements ::
    "device \<Rightarrow> serial \<Rightarrow> u64 \<Rightarrow> u64 \<Rightarrow> (u64 \<Rightarrow> mem \<Rightarrow> io \<Rightarrow> (mem \<times> io) res) \<Rightarrow> oarray \<Rightarrow> nat list \<Rightarrow> mem \<Rightarrow> io \<Rightarrow> (mem \<times> io) res" where
  "print_elements dev s buf fmt print_element a [] m h = Inr (m, h)"
| "print_elements dev s buf fmt print_element a (i # is) m h =
     bindE (printk dev s buf fmt [] m h) (\<lambda>(m1, h1).
     bindE (item_get a i) (\<lambda>x.
     bindE (print_element x m1 h1) (\<lambda>(m2, h2). print_elements dev s buf fmt print_element a is m2 h2)))"

definition oarray_print_contents ::
    "device \<Rightarrow> serial \<Rightarrow> u64 \<Rightarrow> u64 \<times> u64 \<times> u64 \<Rightarrow> (u64 \<Rightarrow> mem \<Rightarrow> io \<Rightarrow> (mem \<times> io) res) \<Rightarrow> u64 \<Rightarrow> oarray \<Rightarrow> mem \<Rightarrow> io \<Rightarrow> (mem \<times> io) res" where
  "oarray_print_contents dev s buf fmts print_element p a m h =
     (case fmts of (f1, f2, f3) \<Rightarrow>
        bindE (printk dev s buf f1 [p, ucast (oa_idx a)] m h) (\<lambda>(m1, h1).
        bindE (print_elements dev s buf f2 print_element a [0..<unat (oa_idx a)] m1 h1) (\<lambda>(m2, h2).
          printk dev s buf f3 [] m2 h2)))"

section \<open>What reaches the line\<close>

text \<open>A message without conversions, which the formatter prints as it is.\<close>

definition plain :: "u8 list \<Rightarrow> bool" where
  "plain t \<longleftrightarrow> t \<noteq> [] \<and> 0 \<notin> set t \<and> of_char (CHR ''%'') \<notin> set t"

lemma plain_items:
  "format_of (map Plain t) = t" "rendered (map Plain t) = t" "all_args (map Plain t) = []"
  by (induction t) (simp_all add: format_of_def rendered_def all_args_def)

lemma items_append [simp]:
  "format_of (xs @ ys) = format_of xs @ format_of ys" "rendered (xs @ ys) = rendered xs @ rendered ys"
  "all_args (xs @ ys) = all_args xs @ all_args ys"
  by (simp_all add: format_of_def rendered_def all_args_def)

lemma plain_ok:
  assumes "buf \<noteq> 0" "plain t" "length t < 2048" "cstr m p t" "apart buf 2049 p (length t + 1)"
  shows "print_ok buf PRINTK_BUF_SIZE p (map Plain t) m"
  using assms by (auto simp: print_ok_def format_ok_def plain_items PRINTK_BUF_SIZE_def PRINTF_BUF_def plain_def)

text \<open>Words of seven bits or more keep characters below 128.\<close>

lemma ascii_kept:
  assumes "7 \<le> n" "\<forall>b\<in>set t. b < (128 :: u8)"
  shows "map (take_bit n) t = t"
proof (rule map_idI)
  fix b :: u8 assume "b \<in> set t"
  then have "b < 128" using assms(2) by blast
  then have "unat b < 2 ^ 7" by (simp add: word_less_nat_alt)
  also have "(2 :: nat) ^ 7 \<le> 2 ^ n" using assms(1) by (rule power_increasing) simp
  finally show "take_bit n b = b" by (simp add: word_unat_eq_iff unsigned_take_bit_eq take_bit_nat_eq_self)
qed

lemma printk_plain:
  assumes "serial_ready s" "drains dev" "on_line (uart_after h u)"
    and "buf \<noteq> 0" "plain t" "length t < 2048" "cstr m p t" "apart buf 2049 p (length t + 1)"
  shows "\<exists>m' h'. printk dev s buf p [] m h = Inr (m', h') \<and>
    u_sent (uart_after h' u) = u_sent (uart_after h u) @ map (take_bit (word_length (u_lcr (uart_after h u)))) (logged t)"
proof -
  have "rendered (map Plain t) \<noteq> []" using assms(5) by (simp add: plain_items plain_def)
  from printk_logged [OF assms(1-3) plain_ok [OF assms(4-8)] this] obtain m' h' where
    "printk dev s buf p [] m h = Inr (m', h')"
    "u_sent (uart_after h' u) = u_sent (uart_after h u) @
       map (take_bit (word_length (u_lcr (uart_after h u)))) (logged (take 2048 t))"
    unfolding plain_items by blast
  then show ?thesis using assms(6) by simp
qed

text \<open>A handler that only logs ends, so the interrupt it serves is acknowledged after it.\<close>

lemma handlers_log:
  assumes "serial_ready s" "drains dev" "on_line (uart_after h u)"
    and "buf \<noteq> 0" "plain t" "length t < 2048" "cstr m p t" "apart buf 2049 p (length t + 1)"
  obtains m' h' where "test_handler dev s buf p m h = Inr (m', h')" "spurious_handler dev s buf p m h = Inr (m', h')"
    "u_sent (uart_after h' u) = u_sent (uart_after h u) @ map (take_bit (word_length (u_lcr (uart_after h u)))) (logged t)"
  using printk_plain [OF assms] by (auto simp: test_handler_def spurious_handler_def)

lemma panic_prints:
  assumes "serial_ready s" "drains dev" "on_line (uart_after h u)"
    and "buf \<noteq> 0" "plain t" "length t < 2048" "cstr m p t" "apart buf 2049 p (length t + 1)"
  shows "\<exists>m' h'. panic dev s buf p m h c = Inr (m', h', c\<lparr>c_halted := True\<rparr>) \<and>
    u_sent (uart_after h' u) = u_sent (uart_after h u) @ map (take_bit (word_length (u_lcr (uart_after h u)))) (logged t)"
  using printk_plain [OF assms] by (auto simp: panic_def)

lemma panic_messages_plain:
  "\<forall>msg\<in>set panic_messages. plain (lit msg) \<and> length (lit msg) < 2048 \<and> (\<forall>b\<in>set (lit msg). b < 128) \<and> last (lit msg) \<noteq> 10"
  by code_simp

lemma panic_silent:
  assumes "has_init s = 0" "buf \<noteq> 0" "plain t" "length t < 2048" "cstr m p t" "apart buf 2049 p (length t + 1)"
  shows "\<exists>m'. panic dev s buf p m h c = Inr (m', h, c\<lparr>c_halted := True\<rparr>)"
proof -
  obtain r m' where "vsnprintf buf PRINTK_BUF_SIZE p [] m = Inr (r, m')" "cstr m' buf t"
    using vsnprintf_items [OF plain_ok [OF assms(2-6)]] assms(4) by (auto simp: out_ok_def plain_items PRINTK_BUF_SIZE_def)
  then show ?thesis
    using assms(1) by (simp add: panic_def printk_def printk_findoutputs_def strlen_cstr read_string_cstr serial_println_def serial_print_def)
qed

text \<open>
  C17. The kernel says why it stops: once the serial port works, each of the messages the kernel
  panics with is sent whole and ended by a newline, and the processor is halted; interrupts are
  left as they were. Before the port is initialised the processor is halted too, but nothing is
  sent.
\<close>
theorem panic_reports:
  assumes "msg \<in> set panic_messages" and "cstr m p (lit msg)" and "apart buf 2049 p (length msg + 1)" and "buf \<noteq> 0"
    and "drains dev" and "on_line (uart_after h u)" and "7 \<le> word_length (u_lcr (uart_after h u))" and "use_e9 s = 0"
  shows "\<exists>m' h'. panic dev s buf p m h c = Inr (m', h', c\<lparr>c_halted := True\<rparr>) \<and>
    (if has_init s = 0 then h' = h else u_sent (uart_after h' u) = u_sent (uart_after h u) @ lit msg @ [10])"
proof -
  have msg: "plain (lit msg)" "length (lit msg) < 2048" "\<forall>b\<in>set (lit msg). b < 128" "last (lit msg) \<noteq> 10"
    using assms(1) panic_messages_plain by blast+
  have ap: "apart buf 2049 p (length (lit msg) + 1)" using assms(3) by (simp add: lit_def)
  show ?thesis
  proof (cases "has_init s = 0")
    case True
    then show ?thesis using panic_silent [OF True assms(4) msg(1,2) assms(2) ap] by simp
  next
    case False
    then have ready: "serial_ready s" using assms(8) by (simp add: serial_ready_def)
    have "\<forall>b\<in>set (logged (lit msg)). b < (128 :: u8)" "logged (lit msg) = lit msg @ [10]"
      using msg(3,4) by (auto simp: logged_def)
    with ascii_kept [OF assms(7), of "logged (lit msg)"]
    have "map (take_bit (word_length (u_lcr (uart_after h u)))) (logged (lit msg)) = lit msg @ [10]" by simp
    then show ?thesis
      using panic_prints [OF ready assms(5,6,4) msg(1,2) assms(2) ap, of c] False by simp
  qed
qed

section \<open>Assertions\<close>

text \<open>The line a failed assertion logs.\<close>

definition assert_text :: "u8 list \<Rightarrow> u8 list \<Rightarrow> u32 \<Rightarrow> u8 list" where
  "assert_text cond file line = lit ''assertion failed: '' @ [39] @ cond @ [39] @ lit '' !!! '' @ [10] @ lit ''-->'' @ file @
     lit '' ('' @ signed_text 10 line @ lit '')''"

definition assert_items :: "u64 \<Rightarrow> u8 list \<Rightarrow> u64 \<Rightarrow> u8 list \<Rightarrow> u32 \<Rightarrow> item list" where
  "assert_items pc cond pf file line = map Plain (lit ''assertion failed: '' @ [39]) @ [Str pc cond] @
     map Plain ([39] @ lit '' !!! '' @ [10] @ lit ''-->'') @ [Str pf file] @ map Plain (lit '' ('') @ [Dec 100 (ucast line)] @
     map Plain (lit '')'')"

lemma assert_items_facts:
  "format_of (assert_items pc cond pf file line) = assert_format"
  "rendered (assert_items pc cond pf file line) = assert_text cond file line"
  "all_args (assert_items pc cond pf file line) = [pc, pf, ucast line]"
proof -
  have up: "ucast (ucast line :: u64) = line" by (simp add: ucast_up_ucast_id is_up)
  show "format_of (assert_items pc cond pf file line) = assert_format"
    by (simp add: assert_items_def assert_format_def format_of_def lit_def)
  show "rendered (assert_items pc cond pf file line) = assert_text cond file line"
    by (simp add: assert_items_def assert_text_def rendered_def lit_def up)
  show "all_args (assert_items pc cond pf file line) = [pc, pf, ucast line]"
    by (simp add: assert_items_def all_args_def lit_def)
qed

text \<open>
  C18. A failed assertion says which one: once the serial port works, the condition, the file and
  the line are sent, as much of them as fits the buffer of the log, and the processor is halted
  with interrupts off and the three marked registers.
\<close>
theorem assert_reports:
  assumes "cstr m pf file" "cstr m pc cond" "cstr m fmt assert_format" and "length file < 2 ^ 32" "length cond < 2 ^ 32"
    and "apart buf 2049 pf (length file + 1)" "apart buf 2049 pc (length cond + 1)" "apart buf 2049 fmt 39" and "buf \<noteq> 0"
    and "serial_ready s" and "drains dev" and "on_line (uart_after h u)"
  shows "\<exists>m' h'. on_fail_assert dev s buf fmt pc pf line m h c =
      Inr (m', h', \<lparr>c_rax = 0xdeadbeef, c_rbx = 0xdeadbeef, c_rdi = 0xdeadbeef, c_if = False, c_halted = True\<rparr>) \<and>
    u_sent (uart_after h' u) = u_sent (uart_after h u) @ map (take_bit (word_length (u_lcr (uart_after h u))))
      (logged (take 2048 (assert_text cond file line)))"
proof -
  let ?is = "assert_items pc cond pf file line"
  have len: "length assert_format = 38" by (simp add: assert_format_def lit_def)
  have "\<forall>it\<in>set ?is. item_ok (apart buf 2049) m it"
    using assms(1,2,4-7) by (auto simp: assert_items_def lit_def)
  then have ok: "print_ok buf PRINTK_BUF_SIZE fmt ?is m"
    using assms(3,8,9) len by (simp add: print_ok_def format_ok_def assert_items_facts PRINTK_BUF_SIZE_def PRINTF_BUF_def)
  have "rendered ?is \<noteq> []" by (simp add: assert_items_facts assert_text_def lit_def)
  from printk_logged [OF assms(10-12) ok this] show ?thesis
    unfolding assert_items_facts by (auto simp: on_fail_assert_def assert_try_print_def)
qed

section \<open>Witnesses\<close>

definition demo_cpu :: cpu where "demo_cpu = \<lparr>c_rax = 1, c_rbx = 2, c_rdi = 3, c_if = True, c_halted = False\<rparr>"

text \<open>Text at 256 and 512, the buffer at 4096; the port as \<open>serial_init\<close> leaves it.\<close>

theorem panic_reports_witness:
  "\<exists>m' h'. panic (\<lambda>_. 0x20) \<lparr>has_init = 1, use_e9 = 0\<rparr> 4096 256 (store_bytes 256 (lit ''No HPET Found'' @ [0]) (\<lambda>_. 0)) [] demo_cpu =
      Inr (m', h', demo_cpu\<lparr>c_halted := True\<rparr>) \<and>
    u_sent (uart_after h' (demo_uart\<lparr>u_lcr := 2\<rparr>)) = lit ''No HPET Found'' @ [10]"
proof -
  let ?u = "demo_uart\<lparr>u_lcr := 2\<rparr>" and ?m = "store_bytes 256 (lit ''No HPET Found'' @ [0]) (\<lambda>_. 0) :: mem"
  have msg: "''No HPET Found'' \<in> set panic_messages" by (simp add: panic_messages_def)
  have m: "cstr ?m 256 (lit ''No HPET Found'')" by (simp add: cstr_def lit_def load_bytes_def store_bytes_def upt_rec)
  have "apart 4096 2049 256 (length ''No HPET Found'' + 1)" by (simp add: apart_def)
  moreover have "drains (\<lambda>_. 0x20)" by (simp add: drains_def)
  moreover have "on_line (uart_after [] ?u)" by (simp add: on_line_def demo_uart_def bit_numeral_rec)
  moreover have "7 \<le> word_length (u_lcr (uart_after [] ?u))" by (simp add: word_length_def)
  moreover have "u_sent (uart_after [] ?u) = []" by (simp add: demo_uart_def)
  ultimately show ?thesis
    using panic_reports [OF msg m, of 4096 "\<lambda>_. 0x20" "[]" ?u "\<lparr>has_init = 1, use_e9 = 0\<rparr>" demo_cpu] by simp
qed

theorem assert_reports_witness:
  "\<exists>m' h'. on_fail_assert (\<lambda>_. 0x20) \<lparr>has_init = 1, use_e9 = 0\<rparr> 4096 256 512 520 35
      (store_bytes 256 (assert_format @ [0]) (store_bytes 512 (lit ''page'' @ [0]) (store_bytes 520 (lit ''virtmem.c'' @ [0]) (\<lambda>_. 0)))) [] demo_cpu =
      Inr (m', h', \<lparr>c_rax = 0xdeadbeef, c_rbx = 0xdeadbeef, c_rdi = 0xdeadbeef, c_if = False, c_halted = True\<rparr>) \<and>
    u_sent (uart_after h' (demo_uart\<lparr>u_lcr := 2\<rparr>)) =
      lit ''assertion failed: '' @ [39] @ lit ''page'' @ [39] @ lit '' !!! '' @ [10] @ lit ''-->virtmem.c (35)'' @ [10]"
proof -
  let ?u = "demo_uart\<lparr>u_lcr := 2\<rparr>"
  let ?m = "store_bytes 256 (assert_format @ [0]) (store_bytes 512 (lit ''page'' @ [0]) (store_bytes 520 (lit ''virtmem.c'' @ [0]) (\<lambda>_. 0))) :: mem"
  have m: "cstr ?m 520 (lit ''virtmem.c'')" "cstr ?m 512 (lit ''page'')" "cstr ?m 256 assert_format"
    by (simp_all add: cstr_def assert_format_def lit_def load_bytes_def store_bytes_def upt_rec)
  have s: "length (lit ''virtmem.c'') < 2 ^ 32" "length (lit ''page'') < 2 ^ 32" "apart 4096 2049 520 (length (lit ''virtmem.c'') + 1)"
    "apart 4096 2049 512 (length (lit ''page'') + 1)" "apart 4096 2049 256 39" "(4096 :: u64) \<noteq> 0"
    by (simp_all add: lit_def apart_def)
  have d: "serial_ready \<lparr>has_init = 1, use_e9 = 0\<rparr>" "drains (\<lambda>_. 0x20)" "on_line (uart_after [] ?u)"
    by (simp_all add: serial_ready_def drains_def on_line_def demo_uart_def bit_numeral_rec)
  have "map (take_bit (word_length (u_lcr (uart_after [] ?u)))) (logged (take 2048 (assert_text (lit ''page'') (lit ''virtmem.c'') 35))) =
      lit ''assertion failed: '' @ [39] @ lit ''page'' @ [39] @ lit '' !!! '' @ [10] @ lit ''-->virtmem.c (35)'' @ [10]"
    by code_simp
  then show ?thesis
    using assert_reports [OF m s d, of 35 demo_cpu] by (simp add: demo_uart_def)
qed

end
