(* ===== verification/Cmdline.thy ===== *)
theory Cmdline
  imports CStrings
begin

text \<open>
  \<^verbatim>\<open>src/boot/cmdline.c\<close>: the command line the boot loader passes, parsed into names and numbers.
  The global \<open>cmdline\<close> lies in memory at the address \<open>cl\<close>: sixteen rows of sixteen characters,
  sixteen 32-bit values and the count. The two local buffers are lists of their declared sizes;
  a store past the end of one, or past the sixteenth row, is the fault \<open>Out_of_bounds\<close>.
\<close>

section \<open>The model\<close>

definition CMDLINE_MAX_ARG :: nat where "CMDLINE_MAX_ARG = 16"
definition CMDLINE_MAX_ARG_LEN :: nat where "CMDLINE_MAX_ARG_LEN = 16"
definition CMDLINE_NO_ARG :: u32 where "CMDLINE_NO_ARG = - 1"
definition ARG_SEP :: u8 where "ARG_SEP = 61"
definition ARGIDX_NONE :: u64 where "ARGIDX_NONE = 0xff"

definition cl_arg :: "u64 \<Rightarrow> nat \<Rightarrow> u64" where "cl_arg cl i = cl + of_nat (CMDLINE_MAX_ARG_LEN * i)"
definition cl_val :: "u64 \<Rightarrow> nat \<Rightarrow> u64" where "cl_val cl i = cl + of_nat (256 + 4 * i)"
definition cl_num_args :: "u64 \<Rightarrow> u64" where "cl_num_args cl = cl + of_nat 320"
definition sizeof_cmdline :: u64 where "sizeof_cmdline = 328"

definition cmdline_numargs :: "u64 \<Rightarrow> mem \<Rightarrow> u64" where
  "cmdline_numargs cl m = load64 m (cl_num_args cl)"

text \<open>\<open>struct multiboot_tag_string\<close>.\<close>

definition tag_size :: "mem \<Rightarrow> u64 \<Rightarrow> u32" where "tag_size m tag = load32 m (tag + 4)"
definition tag_string :: "u64 \<Rightarrow> u64" where "tag_string tag = tag + 8"

text \<open>What \<open>strncpy\<close> copies from a local buffer, and \<open>atou\<close> of one.\<close>

definition strncpy_bytes :: "nat \<Rightarrow> u8 list \<Rightarrow> u8 list" where
  "strncpy_bytes mx bs = (let s = take mx (until_nul bs) in s @ replicate (mx - length s) 0)"

fun atou_bytes :: "u8 list \<Rightarrow> u32 \<Rightarrow> u32" where
  "atou_bytes [] r = r"
| "atou_bytes (c # cs) r =
     (if 48 \<le> sint c \<and> sint c \<le> 57 then atou_bytes cs (r * 10 + ucast (c - 48)) else - 1)"

record parse =
  p_idx :: nat
  p_bdx :: nat
  p_buf :: "u8 list"
  p_num :: nat
  p_mem :: mem

function val_loop :: "mem \<Rightarrow> u64 \<Rightarrow> nat \<Rightarrow> nat \<Rightarrow> u8 list \<Rightarrow> (nat \<times> u8 list) res" where
  "val_loop m str len idx sval =
     (let c = m (str + of_nat idx)
      in if c \<noteq> 32 \<and> c \<noteq> 0 \<and> idx < len
         then if 32 \<le> length sval then Inl Out_of_bounds else val_loop m str len (Suc idx) (sval @ [c])
         else Inr (idx, sval))"
  by auto
termination by (relation "measure (\<lambda>(m, str, len, idx, sval). len - idx)") auto

declare val_loop.simps [simp del]

text \<open>The body of the \<open>if\<close>: the index is at the separator.\<close>

definition take_arg :: "u64 \<Rightarrow> u64 \<Rightarrow> nat \<Rightarrow> parse \<Rightarrow> parse res" where
  "take_arg cl str len st =
     (let idx = p_idx st + 1
      in if 64 \<le> p_bdx st then Inl Out_of_bounds
         else let buf = (p_buf st)[p_bdx st := 0]
              in if CMDLINE_MAX_ARG \<le> p_num st then Inl Out_of_bounds
                 else let m1 = store_bytes (cl_arg cl (p_num st)) (strncpy_bytes 16 buf) (p_mem st)
                      in bindE (val_loop m1 str len idx []) (\<lambda>(idx2, sval).
                           let idx3 = (if m1 (str + of_nat idx2) = 32 then idx2 + 1 else idx2)
                           in if 32 \<le> length sval then Inl Out_of_bounds
                              else let val = atou_bytes sval 0;
                                       m2 = store32 (cl_val cl (p_num st)) val m1
                                   in Inr (st\<lparr>p_idx := idx3, p_bdx := 0, p_buf := replicate 64 0,
                                              p_num := p_num st + 1, p_mem := m2\<rparr>)))"

lemma val_loop_advances: "val_loop m str len idx sval = Inr (i, s) \<Longrightarrow> idx \<le> i"
  by (induction m str len idx sval rule: val_loop.induct)
    (subst (asm) (2) val_loop.simps, force simp: Let_def split: if_splits)

lemma take_arg_advances: "take_arg cl str len st = Inr st' \<Longrightarrow> p_idx st < p_idx st'"
  by (auto simp: take_arg_def Let_def fault_simps split: if_splits prod.splits dest!: val_loop_advances)

function parse_loop :: "u64 \<Rightarrow> u64 \<Rightarrow> nat \<Rightarrow> parse \<Rightarrow> parse res" where
  "parse_loop cl str len st =
     (if p_idx st < len
      then bindE (if p_mem st (str + of_nat (p_idx st)) = ARG_SEP then take_arg cl str len st else Inr st) (\<lambda>st1.
             if 64 \<le> p_bdx st1 then Inl Out_of_bounds
             else parse_loop cl str len
                    (st1\<lparr>p_buf := (p_buf st1)[p_bdx st1 := p_mem st1 (str + of_nat (p_idx st1))],
                         p_bdx := p_bdx st1 + 1, p_idx := p_idx st1 + 1\<rparr>))
      else Inr st)"
  by auto
termination
proof (relation "measure (\<lambda>(cl, str, len, st). len - p_idx st)", goal_cases)
  case (2 cl str len st st1)
  then have "p_idx st \<le> p_idx st1" by (auto split: if_splits dest: take_arg_advances)
  then show ?case using 2 by auto
qed simp

declare parse_loop.simps [simp del]

definition cmdline_parse :: "u64 \<Rightarrow> u64 \<Rightarrow> mem \<Rightarrow> (u32 \<times> mem) res" where
  "cmdline_parse cl stag m =
     (let m0 = snd (memset cl 0 sizeof_cmdline m);
          stag_len = sint (ucast (ucast (tag_size m0 stag) - 8 :: u64) :: u32)
      in if stag_len \<le> 0 then Inr (0, m0)
         else bindE (parse_loop cl (tag_string stag) (nat stag_len)
                \<lparr>p_idx = 0, p_bdx = 0, p_buf = replicate 64 0, p_num = 0, p_mem = m0\<rparr>) (\<lambda>st.
              Inr (of_nat (p_num st), store64 (cl_num_args cl) (of_nat (p_num st)) (p_mem st))))"

section \<open>Looking an argument up\<close>

function arg_loop :: "u64 \<Rightarrow> u64 \<Rightarrow> mem \<Rightarrow> nat \<Rightarrow> u64 res" where
  "arg_loop cl arg m i =
     (if of_nat i < cmdline_numargs cl m
      then if CMDLINE_MAX_ARG \<le> i then Inl Out_of_bounds
           else if m arg \<noteq> m (cl_arg cl i) then arg_loop cl arg m (Suc i)
           else bindE (strcmp m arg (cl_arg cl i)) (\<lambda>r.
                if r = 0 then Inr (of_nat i) else arg_loop cl arg m (Suc i))
      else Inr ARGIDX_NONE)"
  by auto
termination by (relation "measure (\<lambda>(cl, arg, m, i). CMDLINE_MAX_ARG - i)") auto

declare arg_loop.simps [simp del]

definition get_arg_idx :: "u64 \<Rightarrow> u64 \<Rightarrow> mem \<Rightarrow> u64 res" where
  "get_arg_idx cl arg m = arg_loop cl arg m 0"

definition cmdline_hasarg :: "u64 \<Rightarrow> u64 \<Rightarrow> mem \<Rightarrow> bool res" where
  "cmdline_hasarg cl arg m = bindE (get_arg_idx cl arg m) (\<lambda>idx. Inr (idx \<noteq> ARGIDX_NONE))"

definition cmdline_getarg :: "u64 \<Rightarrow> u64 \<Rightarrow> mem \<Rightarrow> u32 res" where
  "cmdline_getarg cl arg m =
     bindE (get_arg_idx cl arg m) (\<lambda>idx.
       if idx = ARGIDX_NONE then Inr CMDLINE_NO_ARG else Inr (load32 m (cl_val cl (unat idx))))"

definition cmdline_is_true :: "u64 \<Rightarrow> u64 \<Rightarrow> mem \<Rightarrow> bool res" where
  "cmdline_is_true cl arg m =
     bindE (cmdline_getarg cl arg m) (\<lambda>val. Inr (val \<noteq> 0 \<and> val \<noteq> CMDLINE_NO_ARG))"

section \<open>Strings and numbers in local buffers\<close>

lemma atou_loop_cstr: "cstr m a bs \<Longrightarrow> atou_loop m a r = Some (atou_bytes bs r)"
proof (induction bs arbitrary: a r)
  case Nil
  then show ?case by (subst atou_loop.simps) (simp add: cstr_Nil Let_def)
next
  case (Cons b bs)
  then show ?case using cstr_Cons [OF Cons.prems] by (subst atou_loop.simps) (simp add: Let_def)
qed

text \<open>Parsing a local buffer is \<open>atou\<close> of the string in memory.\<close>

lemma atou_cstr: "cstr m a bs \<Longrightarrow> atou m a = Inr (atou_bytes bs 0)"
  by (simp add: atou_def atou_loop_cstr)

lemma strncpy_bytes_pad:
  "0 \<notin> set k \<Longrightarrow> length k \<le> n \<Longrightarrow> strncpy_bytes n (k @ replicate j 0) = k @ replicate (n - length k) 0"
  by (simp add: strncpy_bytes_def)

lemma cstr_drop: "cstr m a (xs @ ys) \<Longrightarrow> cstr m (a + of_nat (length xs)) ys"
proof (induction xs arbitrary: a)
  case (Cons x xs)
  then have "cstr m (a + 1) (xs @ ys)" using cstr_Cons [of m a x "xs @ ys"] by simp
  from Cons.IH [OF this] show ?case by (simp add: add.assoc)
qed simp

text \<open>A string is kept by a change elsewhere.\<close>

lemma cstr_agree:
  assumes "cstr m a bs" "\<And>i. i \<le> length bs \<Longrightarrow> m' (a + of_nat i) = m (a + of_nat i)"
  shows "cstr m' a bs"
  using assms by (intro cstrI) (auto simp: cstr_nth, auto simp: cstr_def)

lemma cstr_step:
  "cstr m (str + of_nat i) (c # bs) \<Longrightarrow>
     m (str + of_nat i) = c \<and> c \<noteq> 0 \<and> cstr m (str + of_nat (Suc i)) bs"
  using cstr_Cons [of m "str + of_nat i" c bs] by (simp add: algebra_simps)

section \<open>The command line as text\<close>

text \<open>Arguments separated by one space each; what one argument and what all of them store.\<close>

type_synonym arg = "u8 list \<times> u8 list"

fun render :: "arg list \<Rightarrow> u8 list" where
  "render [] = []"
| "render [(k, v)] = k @ ARG_SEP # v"
| "render ((k, v) # kvs) = k @ ARG_SEP # v @ 32 # render kvs"

definition ok_arg :: "arg \<Rightarrow> bool" where
  "ok_arg kv \<longleftrightarrow> fst kv \<noteq> [] \<and> length (fst kv) < 16 \<and> 0 \<notin> set (fst kv) \<and> ARG_SEP \<notin> set (fst kv) \<and>
     length (snd kv) < 32 \<and> 0 \<notin> set (snd kv) \<and> 32 \<notin> set (snd kv)"

definition put_arg :: "u64 \<Rightarrow> nat \<Rightarrow> arg \<Rightarrow> mem \<Rightarrow> mem" where
  "put_arg cl n kv m = store32 (cl_val cl n) (atou_bytes (snd kv) 0)
     (store_bytes (cl_arg cl n) (fst kv @ replicate (16 - length (fst kv)) 0) m)"

fun put_args :: "u64 \<Rightarrow> nat \<Rightarrow> arg list \<Rightarrow> mem \<Rightarrow> mem" where
  "put_args cl n [] m = m"
| "put_args cl n (kv # kvs) m = put_args cl (Suc n) kvs (put_arg cl n kv m)"

lemma store_inside:
  assumes "j + length bs \<le> 328" "328 \<le> unat (x - cl)"
  shows "store_bytes (cl + of_nat j) bs m x = m x"
proof -
  have u: "unat (of_nat j :: u64) = j" using assms(1) by (simp add: unat_of_nat_small)
  have "x - (cl + of_nat j) = (x - cl) - of_nat j" by simp
  also have "unat \<dots> = unat (x - cl) - j"
    using assms u by (subst unat_sub) (simp_all add: word_le_nat_alt)
  finally have d: "unat (x - (cl + of_nat j)) = unat (x - cl) - j" .
  have "\<not> unat (x - cl) - j < length bs" using assms by linarith
  then show ?thesis using d by (simp add: store_bytes_def)
qed

lemma put_arg_outside:
  assumes "n < 16" "length (fst kv) < 16" "328 \<le> unat (x - cl)"
  shows "store_bytes (cl_arg cl n) (fst kv @ replicate (16 - length (fst kv)) 0) m x = m x"
    "put_arg cl n kv m x = m x"
  using assms unfolding put_arg_def cl_arg_def cl_val_def store32_def CMDLINE_MAX_ARG_LEN_def
  by (simp_all add: store_inside del: of_nat_add of_nat_mult)

lemma put_args_outside:
  assumes "n + length kvs \<le> 16" "\<forall>kv\<in>set kvs. length (fst kv) < 16" "328 \<le> unat (x - cl)"
  shows "put_args cl n kvs m x = m x"
  using assms by (induction kvs arbitrary: n m) (auto simp: put_arg_outside)

section \<open>Parsing\<close>

definition key_buf :: "u8 list \<Rightarrow> u8 list" where
  "key_buf k = k @ replicate (64 - length k) 0"

lemma key_buf_update: "length k < 64 \<Longrightarrow> (key_buf k)[length k := c] = k @ c # replicate (63 - length k) 0"
proof -
  assume "length k < 64"
  then have "64 - length k = Suc (63 - length k)" by simp
  then show ?thesis by (simp add: key_buf_def list_update_append)
qed

lemma key_buf_snoc: "length k < 64 \<Longrightarrow> (key_buf k)[length k := c] = key_buf (k @ [c])"
  by (simp add: key_buf_update) (simp add: key_buf_def)

lemma key_buf_zero: "length k < 64 \<Longrightarrow> (key_buf k)[length k := 0] = key_buf k"
  by (simp add: key_buf_update) (simp add: key_buf_def flip: replicate_Suc)

lemma key_buf_Nil: "key_buf [] = replicate 64 0" by (simp add: key_buf_def)

lemma parse_key:
  assumes "cstr (p_mem st) (str + of_nat (p_idx st)) (k @ rest)" "ARG_SEP \<notin> set k"
    "p_idx st + length k \<le> len" "length pre + length k \<le> 64" "p_bdx st = length pre" "p_buf st = key_buf pre"
  shows "parse_loop cl str len st = parse_loop cl str len
    (st\<lparr>p_idx := p_idx st + length k, p_bdx := length (pre @ k), p_buf := key_buf (pre @ k)\<rparr>)"
  using assms
proof (induction k arbitrary: st pre)
  case (Cons c k)
  let ?st = "st\<lparr>p_buf := key_buf (pre @ [c]), p_bdx := length (pre @ [c]), p_idx := p_idx st + 1\<rparr>"
  have c: "p_mem st (str + of_nat (p_idx st)) = c" "cstr (p_mem st) (str + of_nat (Suc (p_idx st))) (k @ rest)"
    using cstr_step [of "p_mem st" str "p_idx st" c "k @ rest"] Cons.prems(1) by simp_all
  have "c \<noteq> ARG_SEP" using Cons.prems(2) by auto
  then have "parse_loop cl str len st = parse_loop cl str len ?st"
    using Cons.prems c(1) key_buf_snoc [of pre c] by (subst parse_loop.simps) simp
  also have "\<dots> = parse_loop cl str len (?st\<lparr>p_idx := p_idx ?st + length k,
      p_bdx := length ((pre @ [c]) @ k), p_buf := key_buf ((pre @ [c]) @ k)\<rparr>)"
    by (rule Cons.IH) (use Cons.prems c(2) in auto)
  finally show ?case by simp
next
  case Nil
  then have "st\<lparr>p_bdx := length pre, p_buf := key_buf pre\<rparr> = st" by (cases st) simp
  then show ?case by simp
qed

lemma val_loop_value:
  assumes "cstr m (str + of_nat idx) (v @ rest)" "32 \<notin> set v" "idx + length v < len"
    "length sval + length v \<le> 32" "rest = [] \<or> (\<exists>t. rest = 32 # t)"
  shows "val_loop m str len idx sval = Inr (idx + length v, sval @ v)"
  using assms(1-4)
proof (induction v arbitrary: idx sval)
  case Nil
  then have "m (str + of_nat idx) = 0 \<or> m (str + of_nat idx) = 32"
    using assms(5) by (auto simp: cstr_Nil dest: cstr_Cons)
  then show ?case by (subst val_loop.simps) auto
next
  case (Cons c v)
  have c: "m (str + of_nat idx) = c \<and> c \<noteq> 0" "cstr m (str + of_nat (Suc idx)) (v @ rest)"
    using cstr_step [of m str idx c "v @ rest"] Cons.prems(1) by simp_all
  then have "val_loop m str len idx sval = val_loop m str len (Suc idx) (sval @ [c])"
    using Cons.prems by (subst val_loop.simps) auto
  then show ?case using Cons.IH [OF c(2), of "sval @ [c]"] Cons.prems by simp
qed

definition away :: "u64 \<Rightarrow> u64 \<Rightarrow> nat \<Rightarrow> bool" where
  "away cl str len \<longleftrightarrow> (\<forall>i<len. 328 \<le> unat (str + of_nat i - cl))"

lemma cstr_away:
  assumes "cstr m (str + of_nat idx) bs" "away cl str len" "idx + length bs < len"
    "\<And>x. 328 \<le> unat (x - cl) \<Longrightarrow> m' x = m x"
  shows "cstr m' (str + of_nat idx) bs"
proof (rule cstr_agree [OF assms(1)])
  fix i assume "i \<le> length bs"
  then have "idx + i < len" using assms(3) by linarith
  then have "328 \<le> unat (str + of_nat (idx + i) - cl)" using assms(2) unfolding away_def by blast
  from assms(4) [OF this] show "m' (str + of_nat idx + of_nat i) = m (str + of_nat idx + of_nat i)"
    by (simp add: add.assoc)
qed

lemma take_arg_ok:
  assumes c: "cstr (p_mem st) (str + of_nat (p_idx st)) (ARG_SEP # v @ rest)" and ok: "ok_arg (k, v)"
    and rest: "rest = [] \<or> (\<exists>t. rest = 32 # t)" and len: "p_idx st + length v + length rest + 1 < len"
    and b: "p_bdx st = length k" "p_buf st = key_buf k" and n: "p_num st < 16" and aw: "away cl str len"
  shows "take_arg cl str len st = Inr (st\<lparr>p_idx := p_idx st + 1 + length v + (if rest = [] then 0 else 1),
    p_bdx := 0, p_buf := key_buf [], p_num := p_num st + 1, p_mem := put_arg cl (p_num st) (k, v) (p_mem st)\<rparr>)"
proof -
  let ?m1 = "store_bytes (cl_arg cl (p_num st)) (k @ replicate (16 - length k) 0) (p_mem st)"
  have k: "length k < 16" "0 \<notin> set k" and v: "32 \<notin> set v" "length v < 32" using ok by (auto simp: ok_arg_def)
  have buf: "(key_buf k)[length k := 0] = key_buf k" using k(1) by (intro key_buf_zero) simp
  have row: "strncpy_bytes 16 (key_buf k) = k @ replicate (16 - length k) 0"
    unfolding key_buf_def using k by (intro strncpy_bytes_pad) simp_all
  have "cstr (p_mem st) (str + of_nat (p_idx st + 1)) (v @ rest)"
    using cstr_step [OF c] by simp
  then have c1: "cstr ?m1 (str + of_nat (p_idx st + 1)) (v @ rest)"
    by (rule cstr_away [OF _ aw]) (use len put_arg_outside(1) [OF n, of "(k, v)"] k(1) in auto)
  have val: "val_loop ?m1 str len (p_idx st + 1) [] = Inr (p_idx st + 1 + length v, v)"
    using val_loop_value [OF c1 v(1) _ _ rest, of len "[]"] len v(2) by simp
  have "cstr ?m1 (str + of_nat (p_idx st + 1 + length v)) rest"
    using cstr_drop [OF c1] by (simp add: add.assoc)
  then have sp: "?m1 (str + of_nat (p_idx st + 1 + length v)) = 32 \<longleftrightarrow> rest \<noteq> []"
    using rest by (auto simp: cstr_Nil dest: cstr_Cons)
  show ?thesis
    using k(1) n b val sp v(2) buf row
    by (simp add: take_arg_def Let_def CMDLINE_MAX_ARG_def put_arg_def key_buf_Nil del: of_nat_add of_nat_Suc)
qed

fun rest_text :: "arg list \<Rightarrow> u8 list" where
  "rest_text [] = []"
| "rest_text kvs = 32 # render kvs"

lemma render_Cons: "render ((k, v) # kvs) = k @ ARG_SEP # v @ rest_text kvs"
  by (cases kvs) auto

lemma parse_args:
  assumes "cstr (p_mem st) (str + of_nat (p_idx st)) (post @ ARG_SEP # v @ rest_text kvs)"
    and "p_idx st + length (post @ ARG_SEP # v @ rest_text kvs) + 1 = len"
    and "ok_arg (pre @ post, v)" "\<forall>kv\<in>set kvs. ok_arg kv" "p_num st + length kvs < 16"
    and "p_bdx st = length pre" "p_buf st = key_buf pre" and aw: "away cl str len"
  shows "\<exists>st'. parse_loop cl str len st = Inr st' \<and> p_num st' = p_num st + 1 + length kvs \<and>
    p_mem st' = put_args cl (p_num st) ((pre @ post, v) # kvs) (p_mem st)"
  using assms(1-7)
proof (induction kvs arbitrary: st pre post v)
  case (Nil st pre post v)
  let ?k = "pre @ post"
  let ?st = "st\<lparr>p_idx := p_idx st + length post, p_bdx := length ?k, p_buf := key_buf ?k\<rparr>"
  have k: "ARG_SEP \<notin> set post" "length ?k < 16" using Nil.prems(3) by (auto simp: ok_arg_def)
  let ?s1 = "?st\<lparr>p_idx := p_idx st + length post + 1 + length v, p_bdx := 0, p_buf := key_buf [],
    p_num := p_num st + 1, p_mem := put_arg cl (p_num st) (?k, v) (p_mem st)\<rparr>"
  have len: "p_idx ?s1 + 1 = len" using Nil.prems(2) by simp
  have 1: "parse_loop cl str len st = parse_loop cl str len ?st"
    by (rule parse_key [OF Nil.prems(1) k(1) _ _ Nil.prems(6,7)]) (use Nil.prems(2) k(2) in auto)
  have c: "cstr (p_mem ?st) (str + of_nat (p_idx ?st)) (ARG_SEP # v @ [])"
    using cstr_drop [OF Nil.prems(1)] by (simp add: add.assoc)
  have take: "take_arg cl str len ?st = Inr ?s1"
    using take_arg_ok [OF c Nil.prems(3) _ _ _ _ _ aw] len Nil.prems(5) by simp
  have sep: "p_mem ?st (str + of_nat (p_idx ?st)) = ARG_SEP" using cstr_step [OF c] by simp
  have "p_idx ?st < len" using len by simp
  then have 2: "parse_loop cl str len ?st = parse_loop cl str len
      (?s1\<lparr>p_buf := (p_buf ?s1)[p_bdx ?s1 := p_mem ?s1 (str + of_nat (p_idx ?s1))],
         p_bdx := p_bdx ?s1 + 1, p_idx := p_idx ?s1 + 1\<rparr>)"
    using sep take by (subst parse_loop.simps) (simp del: of_nat_add of_nat_Suc)
  also have "\<dots> = Inr (?s1\<lparr>p_buf := (p_buf ?s1)[p_bdx ?s1 := p_mem ?s1 (str + of_nat (p_idx ?s1))],
         p_bdx := p_bdx ?s1 + 1, p_idx := p_idx ?s1 + 1\<rparr>)"
    using len by (subst parse_loop.simps) simp
  finally show ?case using 1 by simp
next
  case (Cons kv kvs st pre post v)
  obtain k2 v2 where kv: "kv = (k2, v2)" by (cases kv)
  then have ok2: "ok_arg (k2, v2)" using Cons.prems(4) by simp
  then obtain c k2' where k2: "k2 = c # k2'" by (cases k2) (auto simp: ok_arg_def)
  let ?k = "pre @ post" and ?t = "render ((k2, v2) # kvs)"
  let ?st = "st\<lparr>p_idx := p_idx st + length post, p_bdx := length ?k, p_buf := key_buf ?k\<rparr>"
  let ?m = "put_arg cl (p_num st) (?k, v) (p_mem st)"
  let ?i = "p_idx st + length post + 1 + length v + 1"
  let ?s1 = "?st\<lparr>p_idx := ?i, p_bdx := 0, p_buf := key_buf [], p_num := p_num st + 1, p_mem := ?m\<rparr>"
  let ?s2 = "?st\<lparr>p_idx := ?i + 1, p_bdx := length [c], p_buf := key_buf [c], p_num := p_num st + 1, p_mem := ?m\<rparr>"
  have k: "ARG_SEP \<notin> set post" "length ?k < 16" using Cons.prems(3) by (auto simp: ok_arg_def)
  have len: "?i + length ?t + 1 = len" using Cons.prems(2) by (simp add: kv)
  have 1: "parse_loop cl str len st = parse_loop cl str len ?st"
    by (rule parse_key [OF Cons.prems(1) k(1) _ _ Cons.prems(6,7)]) (use Cons.prems(2) k(2) in auto)
  have c: "cstr (p_mem ?st) (str + of_nat (p_idx ?st)) (ARG_SEP # v @ 32 # ?t)"
    using cstr_drop [OF Cons.prems(1)] by (simp add: add.assoc kv)
  have take: "take_arg cl str len ?st = Inr ?s1"
    using take_arg_ok [OF c Cons.prems(3) _ _ _ _ _ aw] len Cons.prems(5) by simp
  have "cstr (p_mem st) (str + of_nat (?i)) ?t"
    using cstr_drop [of "p_mem st" "str + of_nat (p_idx ?st)" "ARG_SEP # v @ [32]" ?t] c by (simp add: ac_simps)
  then have c2: "cstr ?m (str + of_nat ?i) ?t"
    by (rule cstr_away [OF _ aw]) (use len put_arg_outside(2) [of "p_num st" "(?k, v)"] k(2) Cons.prems(5) in auto)
  then have c3: "?m (str + of_nat ?i) = c" "cstr ?m (str + of_nat (?i + 1)) (k2' @ ARG_SEP # v2 @ rest_text kvs)"
    using cstr_step [of ?m str ?i c "k2' @ ARG_SEP # v2 @ rest_text kvs"] by (simp_all add: render_Cons k2)
  have sep: "p_mem ?st (str + of_nat (p_idx ?st)) = ARG_SEP" using cstr_step [OF c] by simp
  have "p_idx ?st < len" using len by simp
  then have "parse_loop cl str len ?st = parse_loop cl str len
      (?s1\<lparr>p_buf := (p_buf ?s1)[p_bdx ?s1 := p_mem ?s1 (str + of_nat (p_idx ?s1))],
         p_bdx := p_bdx ?s1 + 1, p_idx := p_idx ?s1 + 1\<rparr>)"
    using sep take by (subst parse_loop.simps) (simp del: of_nat_add of_nat_Suc)
  also have "?s1\<lparr>p_buf := (p_buf ?s1)[p_bdx ?s1 := p_mem ?s1 (str + of_nat (p_idx ?s1))],
         p_bdx := p_bdx ?s1 + 1, p_idx := p_idx ?s1 + 1\<rparr> = ?s2"
    using c3(1) key_buf_snoc [of "[]" c] by (simp del: of_nat_add of_nat_Suc)
  finally have 2: "parse_loop cl str len ?st = parse_loop cl str len ?s2" .
  have "\<exists>st'. parse_loop cl str len ?s2 = Inr st' \<and> p_num st' = p_num ?s2 + 1 + length kvs \<and>
      p_mem st' = put_args cl (p_num ?s2) (([c] @ k2', v2) # kvs) (p_mem ?s2)"
    by (rule Cons.IH) (use c3(2) len ok2 Cons.prems(4,5) in \<open>simp_all add: k2 render_Cons\<close>)
  then show ?case using 1 2 by (simp add: kv k2)
qed

section \<open>What the parser leaves in memory\<close>

lemma put_arg_row:
  assumes "n < 16" "i < 16" "length (fst kv) < 16"
  shows "load_bytes (put_arg cl n kv m) (cl_arg cl i) 16 =
      (if i = n then fst kv @ replicate (16 - length (fst kv)) 0 else load_bytes m (cl_arg cl i) 16)"
    "load32 (put_arg cl n kv m) (cl_val cl i) =
      (if i = n then atou_bytes (snd kv) 0 else load32 m (cl_val cl i))"
proof -
  let ?row = "fst kv @ replicate (16 - length (fst kv)) 0"
  have vr: "apart (cl_val cl n) 4 (cl_arg cl i) 16"
    unfolding cl_val_def cl_arg_def CMDLINE_MAX_ARG_LEN_def by (rule apart_offsets) (use assms in auto)
  have rr: "apart (cl_arg cl n) 16 (cl_arg cl i) 16" if "i \<noteq> n"
    unfolding cl_arg_def CMDLINE_MAX_ARG_LEN_def by (rule apart_offsets) (use assms that in auto)
  have rv: "apart (cl_arg cl n) 16 (cl_val cl i) 4"
    unfolding cl_val_def cl_arg_def CMDLINE_MAX_ARG_LEN_def by (rule apart_offsets) (use assms in auto)
  have vv: "apart (cl_val cl n) 4 (cl_val cl i) 4" if "i \<noteq> n"
    unfolding cl_val_def by (rule apart_offsets) (use assms that in auto)
  have len: "length ?row = 16" using assms(3) by simp
  have "load_bytes (put_arg cl n kv m) (cl_arg cl i) 16 = load_bytes (store_bytes (cl_arg cl n) ?row m) (cl_arg cl i) 16"
    using vr by (simp add: put_arg_def store32_def load_store_bytes_apart)
  also have "\<dots> = (if i = n then ?row else load_bytes m (cl_arg cl i) 16)"
    using rr len by (auto simp: load_store_bytes_apart load_store_bytes_same)
  finally show "load_bytes (put_arg cl n kv m) (cl_arg cl i) 16 =
      (if i = n then ?row else load_bytes m (cl_arg cl i) 16)" .
  have "load32 (store_bytes (cl_arg cl n) ?row m) (cl_val cl i) = load32 m (cl_val cl i)"
    using rv len by (simp add: load32_def load_store_bytes_apart)
  then show "load32 (put_arg cl n kv m) (cl_val cl i) =
      (if i = n then atou_bytes (snd kv) 0 else load32 m (cl_val cl i))"
    using vv by (auto simp: put_arg_def mem_simps)
qed

lemma put_args_before:
  assumes "n + length kvs \<le> 16" "\<forall>kv\<in>set kvs. length (fst kv) < 16" "i < n"
  shows "load_bytes (put_args cl n kvs m) (cl_arg cl i) 16 = load_bytes m (cl_arg cl i) 16"
    "load32 (put_args cl n kvs m) (cl_val cl i) = load32 m (cl_val cl i)"
  using assms by (induction kvs arbitrary: n m) (simp_all add: put_arg_row)

lemma put_args_rows:
  assumes "n + length kvs \<le> 16" "\<forall>kv\<in>set kvs. length (fst kv) < 16" "i < length kvs"
  shows "load_bytes (put_args cl n kvs m) (cl_arg cl (n + i)) 16 =
      fst (kvs ! i) @ replicate (16 - length (fst (kvs ! i))) 0"
    "load32 (put_args cl n kvs m) (cl_val cl (n + i)) = atou_bytes (snd (kvs ! i)) 0"
  using assms
proof (induction kvs arbitrary: n i m)
  case (Cons kv kvs)
  {
    case 1
    then show ?case
      using Cons.IH(1) [of "Suc n" "i - 1"] by (cases i) (simp_all add: put_args_before put_arg_row)
  next
    case 2
    then show ?case
      using Cons.IH(2) [of "Suc n" "i - 1"] by (cases i) (simp_all add: put_args_before put_arg_row)
  }
qed simp_all

lemma row_cstr:
  assumes "load_bytes m a 16 = k @ replicate (16 - length k) 0" "0 \<notin> set k" "length k < 16"
  shows "cstr m a k"
proof (rule cstrI)
  have byte: "m (a + of_nat i) = (k @ replicate (16 - length k) 0) ! i" if "i < 16" for i
    using assms(1) nth_load_bytes [OF that, of m a] by simp
  show "m (a + of_nat i) = k ! i" if "i < length k" for i
    using byte [of i] that assms(3) by (simp add: nth_append)
  show "m (a + of_nat (length k)) = 0"
    using byte [of "length k"] assms(3) by (simp add: nth_append)
qed (use assms in auto)

text \<open>The structure holds the arguments \<open>kvs\<close>.\<close>

definition holds_args :: "u64 \<Rightarrow> mem \<Rightarrow> arg list \<Rightarrow> bool" where
  "holds_args cl m kvs \<longleftrightarrow> length kvs \<le> 16 \<and> cmdline_numargs cl m = of_nat (length kvs) \<and>
     (\<forall>i<length kvs. cstr m (cl_arg cl i) (fst (kvs ! i)) \<and>
        load32 m (cl_val cl i) = atou_bytes (snd (kvs ! i)) 0)"

lemma holds_put_args:
  assumes "length kvs \<le> 16" "\<forall>kv\<in>set kvs. ok_arg kv"
  shows "holds_args cl (store64 (cl_num_args cl) (of_nat (length kvs)) (put_args cl 0 kvs m)) kvs"
proof -
  let ?m = "put_args cl 0 kvs m"
  have key: "\<forall>kv\<in>set kvs. length (fst kv) < 16" using assms(2) by (auto simp: ok_arg_def)
  have "cstr (store64 (cl_num_args cl) (of_nat (length kvs)) ?m) (cl_arg cl i) (fst (kvs ! i)) \<and>
      load32 (store64 (cl_num_args cl) (of_nat (length kvs)) ?m) (cl_val cl i) = atou_bytes (snd (kvs ! i)) 0"
    if i: "i < length kvs" for i
  proof -
    have ok: "ok_arg (kvs ! i)" using assms(2) i by (meson nth_mem)
    have "apart (cl_num_args cl) 8 (cl_arg cl i) 16"
      unfolding cl_num_args_def cl_arg_def CMDLINE_MAX_ARG_LEN_def by (rule apart_offsets) (use i assms(1) in auto)
    moreover have "apart (cl_num_args cl) 8 (cl_val cl i) 4"
      unfolding cl_num_args_def cl_val_def by (rule apart_offsets) (use i assms(1) in auto)
    ultimately show ?thesis
      using put_args_rows [of 0 kvs i cl m] key i assms(1) ok
      by (auto simp: ok_arg_def store64_def load_store_bytes_apart load32_def intro!: row_cstr)
  qed
  then show ?thesis using assms(1) by (simp add: holds_args_def cmdline_numargs_def mem_simps)
qed

section \<open>Lookup\<close>

lemma arg_loop_lookup:
  assumes h: "holds_args cl m kvs" and c: "cstr m arg bs" and "i \<le> length kvs"
  shows "(arg_loop cl arg m i = Inr ARGIDX_NONE \<and> map_of (drop i kvs) bs = None) \<or>
    (\<exists>j<length kvs. arg_loop cl arg m i = Inr (of_nat j) \<and> map_of (drop i kvs) bs = Some (snd (kvs ! j)))"
  using assms(3)
proof (induction "length kvs - i" arbitrary: i)
  case 0
  have "\<not> (of_nat i :: u64) < of_nat (length kvs)"
    using 0 h by (simp add: holds_args_def word_less_nat_alt unat_of_nat_small)
  then show ?case using 0 h by (subst arg_loop.simps) (simp add: holds_args_def)
next
  case (Suc d)
  then have i: "i < length kvs" by simp
  have n: "cmdline_numargs cl m = of_nat (length kvs)" "length kvs \<le> 16" and r: "cstr m (cl_arg cl i) (fst (kvs ! i))"
    using h i by (auto simp: holds_args_def)
  have lt: "(of_nat i :: u64) < of_nat (length kvs)"
    using i n(2) by (simp add: word_less_nat_alt unat_of_nat_small)
  have eq: "m arg = m (cl_arg cl i)" if "bs = fst (kvs ! i)"
    using c r that cstr_nth [OF c] cstr_nth [OF r] by (cases bs) (force dest: cstr_Cons simp: cstr_Nil)+
  obtain q where q: "strcmp m arg (cl_arg cl i) = Inr q" "q = 0 \<longleftrightarrow> bs = fst (kvs ! i)"
    using strcmp_zero_iff [OF c r] by auto
  have step: "arg_loop cl arg m i = (if bs = fst (kvs ! i) then Inr (of_nat i) else arg_loop cl arg m (Suc i))"
    using lt n i q eq by (subst arg_loop.simps) (auto simp: CMDLINE_MAX_ARG_def)
  have "drop i kvs = kvs ! i # drop (Suc i) kvs" using i by (simp add: Cons_nth_drop_Suc)
  then show ?case using step Suc.hyps(1) [of "Suc i"] Suc.hyps(2) Suc.prems i by (cases "kvs ! i") auto
qed

lemma getarg_lookup:
  assumes h: "holds_args cl m kvs" and c: "cstr m arg bs"
  shows "cmdline_getarg cl arg m = Inr (case map_of kvs bs of None \<Rightarrow> CMDLINE_NO_ARG | Some v \<Rightarrow> atou_bytes v 0)"
    "cmdline_hasarg cl arg m = Inr (map_of kvs bs \<noteq> None)"
proof -
  have j: "(of_nat j :: u64) \<noteq> ARGIDX_NONE \<and> unat (of_nat j :: u64) = j \<and>
      load32 m (cl_val cl j) = atou_bytes (snd (kvs ! j)) 0" if "j < length kvs" for j
  proof -
    have "j < 16" using h that by (simp add: holds_args_def)
    then have u: "unat (of_nat j :: u64) = j" by (simp add: unat_of_nat_small)
    have "unat ARGIDX_NONE = 255" by (simp add: ARGIDX_NONE_def)
    with u \<open>j < 16\<close> have "(of_nat j :: u64) \<noteq> ARGIDX_NONE" by (metis less_irrefl_nat numeral_less_iff order.strict_trans semiring_norm(76) semiring_norm(78) semiring_norm(81))
    then show ?thesis using u h that by (simp add: holds_args_def)
  qed
  show "cmdline_getarg cl arg m = Inr (case map_of kvs bs of None \<Rightarrow> CMDLINE_NO_ARG | Some v \<Rightarrow> atou_bytes v 0)"
    "cmdline_hasarg cl arg m = Inr (map_of kvs bs \<noteq> None)"
    using arg_loop_lookup [OF h c, of 0] j by (auto simp: cmdline_getarg_def cmdline_hasarg_def get_arg_idx_def)
qed

section \<open>Properties\<close>

lemma stag_len_eq:
  assumes "n < 2 ^ 31"
  shows "sint (ucast (ucast (of_nat (8 + n) :: u32) - 8 :: u64) :: u32) = int n"
proof -
  have "unat (of_nat (8 + n) :: u32) = 8 + n" using assms by (intro unat_of_nat_small) simp
  then have "(ucast (of_nat (8 + n) :: u32) :: u64) = of_nat (8 + n)"
    by (metis of_nat_unat)
  then have "(ucast (of_nat (8 + n) :: u32) - 8 :: u64) = of_nat n" by simp
  moreover have "unat (of_nat n :: u64) = n" using assms by (intro unat_of_nat_small) simp
  then have "(ucast (of_nat n :: u64) :: u32) = of_nat n" by (metis of_nat_unat)
  moreover have "sint (of_nat n :: u32) = int n"
    using assms by (simp add: signed_of_nat signed_take_bit_int_eq_self)
  ultimately show ?thesis by simp
qed

text \<open>A boot tag with the command line \<open>text\<close>, away from the kernel's structure.\<close>

definition cmdline_tag :: "u64 \<Rightarrow> u64 \<Rightarrow> mem \<Rightarrow> u8 list \<Rightarrow> bool" where
  "cmdline_tag cl stag m text \<longleftrightarrow> length text + 1 < 2 ^ 31 \<and>
     tag_size m stag = of_nat (8 + (length text + 1)) \<and> cstr m (tag_string stag) text \<and>
     away cl stag (8 + (length text + 1))"

lemma parse_start:
  assumes "cmdline_tag cl stag m text"
  obtains m0 where "cmdline_parse cl stag m = bindE (parse_loop cl (tag_string stag) (length text + 1)
        \<lparr>p_idx = 0, p_bdx = 0, p_buf = key_buf [], p_num = 0, p_mem = m0\<rparr>) (\<lambda>st.
      Inr (of_nat (p_num st), store64 (cl_num_args cl) (of_nat (p_num st)) (p_mem st)))"
    "cstr m0 (tag_string stag) text" "away cl (tag_string stag) (length text + 1)"
proof -
  let ?m0 = "\<lambda>x. if unat (x - cl) < 328 then 0 else m x" and ?n = "length text + 1"
  have n: "?n < 2 ^ 31" and sz: "tag_size m stag = of_nat (8 + ?n)" and c: "cstr m (tag_string stag) text"
    and aw: "\<And>i. i < 8 + ?n \<Longrightarrow> 328 \<le> unat (stag + of_nat i - cl)"
    using assms by (auto simp: cmdline_tag_def away_def)
  have m0: "snd (memset cl 0 sizeof_cmdline m) = ?m0" by (simp add: memset_eq sizeof_cmdline_def)
  have "load_bytes ?m0 (stag + 4) 4 = load_bytes m (stag + 4) 4"
  proof (rule load_bytes_cong)
    fix i :: nat assume "i < 4"
    then have "328 \<le> unat (stag + of_nat (4 + i) - cl)" by (intro aw) simp
    then show "?m0 (stag + 4 + of_nat i) = m (stag + 4 + of_nat i)" by (simp add: add.assoc)
  qed
  then have "tag_size ?m0 stag = tag_size m stag" by (simp add: tag_size_def load32_def)
  then have len: "sint (ucast (ucast (tag_size ?m0 stag) - 8 :: u64) :: u32) = int ?n"
    using stag_len_eq [OF n] sz by simp
  have aw2: "away cl (tag_string stag) ?n"
    unfolding away_def tag_string_def
  proof (intro allI impI)
    fix i assume "i < ?n"
    then have "328 \<le> unat (stag + of_nat (8 + i) - cl)" by (intro aw) simp
    then show "328 \<le> unat (stag + 8 + of_nat i - cl)" by (simp add: add.assoc)
  qed
  have c0: "cstr ?m0 (tag_string stag) text"
    using cstr_away [of m "tag_string stag" 0 "text" cl ?n ?m0] c aw2 by simp
  have "cmdline_parse cl stag m = bindE (parse_loop cl (tag_string stag) ?n
        \<lparr>p_idx = 0, p_bdx = 0, p_buf = key_buf [], p_num = 0, p_mem = ?m0\<rparr>) (\<lambda>st.
      Inr (of_nat (p_num st), store64 (cl_num_args cl) (of_nat (p_num st)) (p_mem st)))"
    unfolding cmdline_parse_def m0 Let_def len by (simp add: key_buf_Nil nat_add_distrib)
  then show ?thesis using that c0 aw2 by blast
qed

lemma cmdline_parse_args:
  assumes "cmdline_tag cl stag m (render kvs)" and "kvs \<noteq> []" and "length kvs \<le> 16" and "\<forall>kv\<in>set kvs. ok_arg kv"
  shows "\<exists>m'. cmdline_parse cl stag m = Inr (of_nat (length kvs), m') \<and>
     (\<forall>arg bs. cstr m' arg bs \<longrightarrow>
        cmdline_getarg cl arg m' =
          Inr (case map_of kvs bs of None \<Rightarrow> CMDLINE_NO_ARG | Some v \<Rightarrow> atou_bytes v 0) \<and>
        cmdline_hasarg cl arg m' = Inr (map_of kvs bs \<noteq> None))"
proof -
  obtain k v rest where kvs: "kvs = (k, v) # rest" using assms(2) by (cases kvs) auto
  obtain m0 where m0: "cmdline_parse cl stag m = bindE (parse_loop cl (tag_string stag) (length (render kvs) + 1)
        \<lparr>p_idx = 0, p_bdx = 0, p_buf = key_buf [], p_num = 0, p_mem = m0\<rparr>) (\<lambda>st.
      Inr (of_nat (p_num st), store64 (cl_num_args cl) (of_nat (p_num st)) (p_mem st)))"
    "cstr m0 (tag_string stag) (render kvs)" "away cl (tag_string stag) (length (render kvs) + 1)"
    using parse_start [OF assms(1)] .
  obtain st' where "parse_loop cl (tag_string stag) (length (render kvs) + 1)
        \<lparr>p_idx = 0, p_bdx = 0, p_buf = key_buf [], p_num = 0, p_mem = m0\<rparr> = Inr st'"
    "p_num st' = length kvs" "p_mem st' = put_args cl 0 kvs m0"
    using parse_args [of "\<lparr>p_idx = 0, p_bdx = 0, p_buf = key_buf [], p_num = 0, p_mem = m0\<rparr>" "tag_string stag"
        k v rest "length (render kvs) + 1" "[]" cl] m0(2,3) assms(3,4) by (auto simp: kvs render_Cons)
  then have "cmdline_parse cl stag m = Inr (of_nat (length kvs),
      store64 (cl_num_args cl) (of_nat (length kvs)) (put_args cl 0 kvs m0))"
    using m0(1) by simp
  then show ?thesis
    using getarg_lookup [OF holds_put_args [OF assms(3,4)]] by (intro exI conjI allI impI)
qed

text \<open>Without a separator nothing is taken: the empty command line and one of flags that fit the buffer.\<close>

lemma cmdline_parse_flags:
  assumes "cmdline_tag cl stag m text" and "ARG_SEP \<notin> set text" and "length text < 64"
  shows "\<exists>m'. cmdline_parse cl stag m = Inr (0, m') \<and> cmdline_numargs cl m' = 0"
proof -
  let ?str = "tag_string stag" and ?len = "length text + 1"
  obtain m0 where m0: "cmdline_parse cl stag m = bindE (parse_loop cl ?str ?len
        \<lparr>p_idx = 0, p_bdx = 0, p_buf = key_buf [], p_num = 0, p_mem = m0\<rparr>) (\<lambda>st.
      Inr (of_nat (p_num st), store64 (cl_num_args cl) (of_nat (p_num st)) (p_mem st)))"
    "cstr m0 ?str text" by (rule parse_start [OF assms(1)])
  let ?st = "\<lparr>p_idx = length text, p_bdx = length text, p_buf = key_buf text, p_num = 0, p_mem = m0\<rparr>"
  let ?st' = "\<lparr>p_idx = ?len, p_bdx = ?len, p_buf = (key_buf text)[length text := 0], p_num = 0, p_mem = m0\<rparr>"
  have z: "m0 (?str + of_nat (length text)) = 0" by (rule cstr_nth(2) [OF m0(2)])
  have 1: "parse_loop cl ?str ?len \<lparr>p_idx = 0, p_bdx = 0, p_buf = key_buf [], p_num = 0, p_mem = m0\<rparr> = parse_loop cl ?str ?len ?st"
    using parse_key [of "\<lparr>p_idx = 0, p_bdx = 0, p_buf = key_buf [], p_num = 0, p_mem = m0\<rparr>" ?str "text" "[]" ?len "[]" cl] m0(2) assms(2,3)
    by simp
  have 2: "parse_loop cl ?str ?len ?st = parse_loop cl ?str ?len ?st'"
    using z assms(3) by (subst parse_loop.simps) (simp add: ARG_SEP_def)
  have 3: "parse_loop cl ?str ?len ?st' = Inr ?st'" by (subst parse_loop.simps) simp
  have "cmdline_parse cl stag m = Inr (0, store64 (cl_num_args cl) 0 m0)" unfolding m0(1) 1 2 3 by simp
  moreover have "cmdline_numargs cl (store64 (cl_num_args cl) 0 m0) = 0" by (simp add: cmdline_numargs_def mem_simps)
  ultimately show ?thesis by blast
qed

lemma no_args_found:
  "cmdline_numargs cl m = 0 \<Longrightarrow> cmdline_getarg cl arg m = Inr CMDLINE_NO_ARG \<and> cmdline_hasarg cl arg m = Inr False"
  unfolding cmdline_getarg_def cmdline_hasarg_def get_arg_idx_def by (subst (1 2) arg_loop.simps) simp


lemma val_loop_overflow:
  assumes "cstr m (str + of_nat idx) (v @ rest)" "32 \<notin> set v" "idx + length v < len"
    "32 < length sval + length v" "length sval \<le> 32"
  shows "val_loop m str len idx sval = Inl Out_of_bounds"
  using assms
proof (induction v arbitrary: idx sval)
  case (Cons c v)
  have c: "m (str + of_nat idx) = c \<and> c \<noteq> 0" "cstr m (str + of_nat (Suc idx)) (v @ rest)"
    using cstr_step [of m str idx c "v @ rest"] Cons.prems(1) by simp_all
  then have "val_loop m str len idx sval =
      (if 32 \<le> length sval then Inl Out_of_bounds else val_loop m str len (Suc idx) (sval @ [c]))"
    using Cons.prems by (subst val_loop.simps) auto
  then show ?case using Cons.IH [OF c(2), of "sval @ [c]"] Cons.prems by auto
qed simp

text \<open>
  C40. The local buffer of the value is not guarded: a first argument with a value of 32 characters
  or more is written past the end of \<open>sval\<close>.
\<close>
theorem cmdline_long_value_overflows:
  assumes "cmdline_tag cl stag m (k @ ARG_SEP # v)" and "ok_arg (k, [])" and "32 \<le> length v" and "32 \<notin> set v"
  shows "cmdline_parse cl stag m = Inl Out_of_bounds"
proof -
  let ?t = "k @ ARG_SEP # v" and ?str = "tag_string stag"
  obtain m0 where m0: "cmdline_parse cl stag m = bindE (parse_loop cl ?str (length ?t + 1)
        \<lparr>p_idx = 0, p_bdx = 0, p_buf = key_buf [], p_num = 0, p_mem = m0\<rparr>) (\<lambda>st.
      Inr (of_nat (p_num st), store64 (cl_num_args cl) (of_nat (p_num st)) (p_mem st)))"
    "cstr m0 ?str ?t" "away cl ?str (length ?t + 1)"
    using parse_start [OF assms(1)] .
  let ?st = "\<lparr>p_idx = length k, p_bdx = length k, p_buf = key_buf k, p_num = 0, p_mem = m0\<rparr>"
  let ?m1 = "store_bytes (cl_arg cl 0) (k @ replicate (16 - length k) 0) m0"
  have k: "ARG_SEP \<notin> set k" "0 \<notin> set k" "length k < 16" using assms(2) by (auto simp: ok_arg_def)
  have 1: "parse_loop cl ?str (length ?t + 1) \<lparr>p_idx = 0, p_bdx = 0, p_buf = key_buf [], p_num = 0, p_mem = m0\<rparr> =
      parse_loop cl ?str (length ?t + 1) ?st"
    using parse_key [of "\<lparr>p_idx = 0, p_bdx = 0, p_buf = key_buf [], p_num = 0, p_mem = m0\<rparr>" ?str k "ARG_SEP # v"
        "length ?t + 1" "[]" cl] m0(2) k by simp
  have c: "cstr m0 (?str + of_nat (length k)) (ARG_SEP # v)" by (rule cstr_drop [OF m0(2)])
  then have "cstr m0 (?str + of_nat (Suc (length k))) v" using cstr_step by blast
  then have "cstr ?m1 (?str + of_nat (Suc (length k))) (v @ [])"
    using cstr_away [OF _ m0(3), of m0 "Suc (length k)" v ?m1] put_arg_outside(1) [of 0 "(k, [])"] k(3) by simp
  then have val: "val_loop ?m1 ?str (length ?t + 1) (Suc (length k)) [] = Inl Out_of_bounds \<or> length v = 32"
    using val_loop_overflow [of ?m1 ?str "Suc (length k)" v "[]" "length ?t + 1" "[]"] assms(3,4) by auto
  have row: "strncpy_bytes 16 ((key_buf k)[length k := 0]) = k @ replicate (16 - length k) 0"
    using strncpy_bytes_pad [of k 16 "64 - length k"] k key_buf_zero [of k] by (simp add: key_buf_def)
  have v32: "val_loop ?m1 ?str (length ?t + 1) (Suc (length k)) [] = Inr (Suc (length k) + 32, v)" if "length v = 32"
    using val_loop_value [of ?m1 ?str "Suc (length k)" v "[]" "length ?t + 1" "[]"]
      \<open>cstr ?m1 (?str + of_nat (Suc (length k))) (v @ [])\<close> assms(4) that by simp
  have "take_arg cl ?str (length ?t + 1) ?st = Inl Out_of_bounds"
    using val v32 k row by (auto simp: take_arg_def Let_def CMDLINE_MAX_ARG_def)
  then show ?thesis
    using m0(1) 1 cstr_step [OF c] by (subst (asm) parse_loop.simps) simp
qed

section \<open>What the parser does not touch\<close>

lemma strncpy_bytes_length [simp]: "length (strncpy_bytes n bs) = n"
  by (simp add: strncpy_bytes_def)

lemma take_arg_frame:
  assumes "take_arg cl str len st = Inr st'" "328 \<le> unat (x - cl)"
  shows "p_mem st' x = p_mem st x"
proof -
  have n: "p_num st < 16" and m: "\<exists>bs v. length bs = 16 \<and>
      p_mem st' = store32 (cl_val cl (p_num st)) v (store_bytes (cl_arg cl (p_num st)) bs (p_mem st))"
    using assms(1) by (auto simp: take_arg_def Let_def CMDLINE_MAX_ARG_def fault_simps split: if_splits prod.splits
        intro!: exI [of _ "strncpy_bytes 16 bs" for bs])
  then obtain bs v where bs: "length bs = 16"
    "p_mem st' = store32 (cl_val cl (p_num st)) v (store_bytes (cl_arg cl (p_num st)) bs (p_mem st))" by blast
  show ?thesis
    unfolding bs(2) cl_arg_def cl_val_def store32_def CMDLINE_MAX_ARG_LEN_def
    using assms(2) n bs(1) by (subst store_inside; simp add: store_inside del: of_nat_add of_nat_mult)
qed

lemma parse_loop_frame:
  "parse_loop cl str len st = Inr st' \<Longrightarrow> 328 \<le> unat (x - cl) \<Longrightarrow> p_mem st' x = p_mem st x"
proof (induction cl str len st rule: parse_loop.induct)
  case (1 cl str len st)
  show ?case
  proof (cases "p_idx st < len")
    case True
    then obtain st1 where st1: "(if p_mem st (str + of_nat (p_idx st)) = ARG_SEP then take_arg cl str len st else Inr st) = Inr st1"
      "\<not> 64 \<le> p_bdx st1"
      "parse_loop cl str len (st1\<lparr>p_buf := (p_buf st1)[p_bdx st1 := p_mem st1 (str + of_nat (p_idx st1))],
                         p_bdx := p_bdx st1 + 1, p_idx := p_idx st1 + 1\<rparr>) = Inr st'"
      using 1(2) by (subst (asm) parse_loop.simps) (auto simp: fault_simps)
    have "p_mem st' x = p_mem st1 x" using "1.IH" [OF True st1] 1(3) by simp
    also have "\<dots> = p_mem st x" using st1(1) take_arg_frame 1(3) by (auto split: if_splits)
    finally show ?thesis .
  next
    case False
    then show ?thesis using 1(2) by (subst (asm) parse_loop.simps) simp
  qed
qed

lemma cmdline_parse_frame:
  assumes "cmdline_parse cl stag m = Inr (n, m')" "328 \<le> unat (x - cl)"
  shows "m' x = m x"
proof -
  have m0: "snd (memset cl 0 sizeof_cmdline m) x = m x"
    using assms(2) by (simp add: memset_eq sizeof_cmdline_def)
  have "store64 (cl_num_args cl) v m1 x = m1 x" for v m1
    unfolding store64_def cl_num_args_def using assms(2) by (intro store_inside) simp_all
  then show ?thesis
    using assms m0 parse_loop_frame
    by (auto simp: cmdline_parse_def Let_def fault_simps split: if_splits)
qed

section \<open>Witnesses\<close>

text \<open>The command lines ``a=1 b=20'' and ``a='' with a value of 32 ones, at \<open>0x2000\<close>.\<close>

definition demo_line :: "u8 list \<Rightarrow> mem" where
  "demo_line line = store_bytes 0x2008 (line @ [0]) (store32 0x2004 (of_nat (9 + length line)) (\<lambda>_. 0))"

lemma demo_line_tag:
  assumes "length line < 1000" "0 \<notin> set line"
  shows "cmdline_tag 0x1000 0x2000 (demo_line line) line"
proof -
  have "328 \<le> unat (0x2000 + of_nat i - 0x1000 :: u64)" if "i < 2000" for i
  proof -
    have "0x2000 + of_nat i - 0x1000 = (0x1000 + of_nat i :: u64)" by simp
    then show ?thesis using that unat_add_of_nat [of "0x1000" i] by simp
  qed
  moreover have "cstr (demo_line line) 0x2008 line"
    unfolding demo_line_def by (rule cstr_store) (use assms in auto)
  moreover have "apart 0x2008 (length (line @ [0 :: u8])) (0x2004 :: u64) 4"
    by (rule apart_nat) (use assms in auto)
  then have "load_bytes (demo_line line) 0x2004 4 = to_le 4 (of_nat (9 + length line) :: u32)"
    by (simp add: demo_line_def load_store_bytes_apart store32_def load_store_bytes_same)
  then have "tag_size (demo_line line) 0x2000 = of_nat (9 + length line)"
    by (simp add: tag_size_def load32_def)
  ultimately show ?thesis
    using assms by (auto simp: cmdline_tag_def away_def tag_string_def)
qed


theorem cmdline_long_value_overflows_witness:
  "cmdline_parse 0x1000 0x2000 (demo_line (97 # 61 # replicate 32 49)) = Inl Out_of_bounds"
  using cmdline_long_value_overflows [of "0x1000" "0x2000" "demo_line (97 # 61 # replicate 32 49)" "[97]" "replicate 32 49"]
    demo_line_tag [of "97 # 61 # replicate 32 49"]
  by (simp add: ARG_SEP_def ok_arg_def)

end
