(* ===== verification/Boot.thy ===== *)
theory Boot
  imports Cmdline Acpi PhysMem KBoot
begin

text \<open>
  The first half of \<open>kmain\<close> in \<^verbatim>\<open>src/kernel/kernel.c\<close>: the loop over the tags of the boot loader,
  with the structures of \<^verbatim>\<open>boot/multiboot2.h\<close>. The boot information, the command line structure
  and the string literals are in one memory, which only \<open>cmdline_parse\<close> writes. Log output is
  left out.
\<close>

section \<open>Boot information\<close>

definition MULTIBOOT2_BOOTLOADER_MAGIC :: u64 where "MULTIBOOT2_BOOTLOADER_MAGIC = 0x36d76289"

definition tag_type :: "mem \<Rightarrow> u64 \<Rightarrow> u32" where "tag_type m tag = load32 m tag"

text \<open>The next tag: \<open>(size + 7) & ~7\<close> is computed in 32 bits.\<close>

definition next_tag :: "mem \<Rightarrow> u64 \<Rightarrow> u64" where
  "next_tag m tag = tag + ucast ((tag_size m tag + 7) AND NOT 7)"

definition tagfb_addr :: "mem \<Rightarrow> u64 \<Rightarrow> u64" where "tagfb_addr m tag = load64 m (tag + 8)"
definition tagfb_pitch :: "mem \<Rightarrow> u64 \<Rightarrow> u32" where "tagfb_pitch m tag = load32 m (tag + 16)"
definition tagfb_width :: "mem \<Rightarrow> u64 \<Rightarrow> u32" where "tagfb_width m tag = load32 m (tag + 20)"
definition tagfb_height :: "mem \<Rightarrow> u64 \<Rightarrow> u32" where "tagfb_height m tag = load32 m (tag + 24)"
definition tagfb_bpp :: "mem \<Rightarrow> u64 \<Rightarrow> u8" where "tagfb_bpp m tag = m (tag + 28)"

definition tagmm_entry_size :: "mem \<Rightarrow> u64 \<Rightarrow> u32" where "tagmm_entry_size m tag = load32 m (tag + 8)"
definition sizeof_tag_mmap :: u64 where "sizeof_tag_mmap = 16"

text \<open>The array is read with the stride of the structure, 24 bytes.\<close>

definition mmap_entries :: "mem \<Rightarrow> u64 \<Rightarrow> nat \<Rightarrow> mmap_entry list" where
  "mmap_entries m tag n = map (\<lambda>i. let e = tag + sizeof_tag_mmap + 24 * of_nat i
     in \<lparr>mm_addr = load64 m e, mm_len = load64 m (e + 8), mm_type = load32 m (e + 16)\<rparr>) [0..<n]"

definition acpi_tag_rsdp :: "u64 \<Rightarrow> u64" where "acpi_tag_rsdp tag = tag + 8"

section \<open>State\<close>

text \<open>
  The parameters: the address of \<open>cmdline\<close>, the value of an undefined shift in the page
  allocator, and the addresses of three literals.
\<close>

record boot_env =
  e_cl :: u64
  e_ub :: int_shl
  e_serial :: u64
  e_dbg :: u64
  e_dumpmem :: u64

record boot_state =
  b_kboot :: kernel_boot_t
  b_rsdp :: u64
  b_total :: u64
  b_pmm :: physmem
  b_mem :: mem

definition kboot_zero :: kernel_boot_t where
  "kboot_zero = \<lparr>dbg_use_serial = 0, dbg_use_vm = 0, dbg_level = 0, kmb_first_tag = 0, kmb_mmap = 0,
     kmb_mmap_size = 0, fb_ptr = 0, fb_addr = 0, fb_w = 0, fb_h = 0, fb_pitch = 0, fb_bpp = 0,
     is_legacy_bios = False\<rparr>"

section \<open>The tags\<close>

definition tag_cmdline :: "boot_env \<Rightarrow> u64 \<Rightarrow> boot_state \<Rightarrow> boot_state res" where
  "tag_cmdline e tag s =
     bindE (cmdline_parse (e_cl e) tag (b_mem s)) (\<lambda>(n, m).
       let s1 = s\<lparr>b_mem := m\<rparr>
       in if n \<noteq> 0
          then bindE (cmdline_getarg (e_cl e) (e_serial e) m) (\<lambda>ser.
               bindE (cmdline_hasarg (e_cl e) (e_dbg e) m) (\<lambda>has.
               bindE (if has then cmdline_getarg (e_cl e) (e_dbg e) m else Inr 0) (\<lambda>lvl.
               Inr (s1\<lparr>b_kboot := (b_kboot s1)
                 \<lparr>dbg_use_serial := (if ser \<noteq> CMDLINE_NO_ARG then 1 else 0), dbg_level := ucast lvl\<rparr>\<rparr>))))
          else Inr s1)"

definition tag_framebuffer :: "u64 \<Rightarrow> boot_state \<Rightarrow> boot_state" where
  "tag_framebuffer tag s =
     (let m = b_mem s
      in if tagfb_addr m tag = 0 \<or> 0x100000000000 < tagfb_addr m tag \<or> tagfb_width m tag < 64 \<or>
            tagfb_height m tag < 64
         then s
         else s\<lparr>b_kboot := (b_kboot s)\<lparr>fb_ptr := 0, fb_addr := tagfb_addr m tag, fb_w := ucast (tagfb_width m tag),
                fb_h := ucast (tagfb_height m tag), fb_pitch := ucast (tagfb_pitch m tag),
                fb_bpp := ucast (tagfb_bpp m tag)\<rparr>\<rparr>)"

definition tag_mmap :: "boot_env \<Rightarrow> u64 \<Rightarrow> boot_state \<Rightarrow> boot_state res" where
  "tag_mmap e tag s =
     (let m = b_mem s
      in if tagmm_entry_size m tag = 0 then Inl Div_zero
         else let n = (ucast (tag_size m tag) - sizeof_tag_mmap) div ucast (tagmm_entry_size m tag);
                  s1 = s\<lparr>b_kboot := (b_kboot s)\<lparr>kmb_mmap_size := n\<rparr>\<rparr>
              in bindE (if cmdline_numargs (e_cl e) m \<noteq> 0 then cmdline_hasarg (e_cl e) (e_dumpmem e) m else Inr False) (\<lambda>_.
                 bindE (physmem_init (e_ub e) (mmap_entries m tag (unat n))) (\<lambda>(tot, ph).
                 if tot = 0 then Inl (Panic ''PMM Fail - Init Failed'')
                 else Inr (s1\<lparr>b_total := tot, b_pmm := ph\<rparr>))))"

definition tag_acpi :: "u64 \<Rightarrow> boot_state \<Rightarrow> boot_state res" where
  "tag_acpi tag s =
     (let m = b_mem s; new = acpi_tag_rsdp tag
      in if b_rsdp s \<noteq> 0 \<and> rsdp_revision m new < rsdp_revision m (b_rsdp s) then Inr s
         else if \<not> acpi_validate_rsdp m new then Inl (Panic ''ACPI - RSDP Invalid?!'')
         else Inr (s\<lparr>b_rsdp := new\<rparr>))"

text \<open>The case of the boot loader's name has no \<open>continue\<close> and runs into the next.\<close>

definition tag_step :: "boot_env \<Rightarrow> u64 \<Rightarrow> boot_state \<Rightarrow> boot_state res" where
  "tag_step e tag s =
     (let t = tag_type (b_mem s) tag
      in if t = 1 then tag_cmdline e tag s
         else if t = 2 \<or> t = 8 then Inr (tag_framebuffer tag s)
         else if t = 6 then tag_mmap e tag s
         else if t = 18 \<or> t = 17 \<or> t = 11 \<or> t = 12
         then Inr (s\<lparr>b_kboot := (b_kboot s)\<lparr>is_legacy_bios := False\<rparr>\<rparr>)
         else if t = 15 \<or> t = 14 then tag_acpi tag s
         else Inr s)"

text \<open>A tag of size zero is its own successor, so the loop need not end.\<close>

partial_function (option) tag_loop :: "boot_env \<Rightarrow> u64 \<Rightarrow> boot_state \<Rightarrow> boot_state res option" where
  "tag_loop e tag s =
     (if tag_type (b_mem s) tag = 0 then Some (Inr s)
      else case tag_step e tag s of Inl x \<Rightarrow> Some (Inl x)
           | Inr s1 \<Rightarrow> tag_loop e (next_tag (b_mem s1) tag) s1)"

text \<open>\<open>is_legacy_bios\<close> is set to true first, and cleared with the rest of \<open>kboot\<close>.\<close>

definition boot_start :: "physmem \<Rightarrow> mem \<Rightarrow> boot_state" where
  "boot_start pm m = \<lparr>b_kboot = kboot_zero, b_rsdp = 0, b_total = 0, b_pmm = pm, b_mem = m\<rparr>"

definition boot_parse :: "boot_env \<Rightarrow> u64 \<Rightarrow> u64 \<Rightarrow> physmem \<Rightarrow> mem \<Rightarrow> boot_state res" where
  "boot_parse e header magic pm m =
     (if magic \<noteq> MULTIBOOT2_BOOTLOADER_MAGIC then Inl (Panic ''MB MAGIC MISMATCH'')
      else case tag_loop e (header + 8) (boot_start pm m) of None \<Rightarrow> Inl Diverges
              | Some r \<Rightarrow> bindE r (\<lambda>s. if b_total s = 0 then Inl (Panic ''PMM Fail - No MB MMAP?'') else Inr s))"

section \<open>Invariants of the loop\<close>

text \<open>Outside the command line structure memory is as it was.\<close>

definition same_info :: "u64 \<Rightarrow> mem \<Rightarrow> mem \<Rightarrow> bool" where
  "same_info cl m m' \<longleftrightarrow> (\<forall>x. 328 \<le> unat (x - cl) \<longrightarrow> m' x = m x)"

lemma tag_mmap_cases:
  assumes "tag_mmap e tag s = Inr s'"
  obtains n tot ph mmaps where "s' = s\<lparr>b_kboot := (b_kboot s)\<lparr>kmb_mmap_size := n\<rparr>, b_total := tot, b_pmm := ph\<rparr>"
    "physmem_init (e_ub e) mmaps = Inr (tot, ph)" "tot \<noteq> 0"
  using assms by (auto simp: tag_mmap_def Let_def fault_simps split: if_splits prod.splits)

lemma tag_step_cases:
  assumes "tag_step e tag s = Inr s'"
  obtains (cmdline) n kb m where "s' = s\<lparr>b_kboot := kb, b_mem := m\<rparr>" "cmdline_parse (e_cl e) tag (b_mem s) = Inr (n, m)"
      "is_legacy_bios kb = is_legacy_bios (b_kboot s)" "tag_type (b_mem s) tag = 1"
  | (kboot) kb where "s' = s\<lparr>b_kboot := kb\<rparr>" "is_legacy_bios kb \<longrightarrow> is_legacy_bios (b_kboot s)"
      "tag_type (b_mem s) tag \<notin> {14, 15}"
  | (mmap) n tot ph mmaps where "s' = s\<lparr>b_kboot := (b_kboot s)\<lparr>kmb_mmap_size := n\<rparr>, b_total := tot, b_pmm := ph\<rparr>"
      "physmem_init (e_ub e) mmaps = Inr (tot, ph)" "tot \<noteq> 0" "tag_type (b_mem s) tag = 6"
  | (acpi) "tag_acpi tag s = Inr s'" "tag_type (b_mem s) tag \<in> {14, 15}"
proof -
  let ?t = "tag_type (b_mem s) tag"
  consider "?t = 1" | "?t = 6" | "?t \<in> {14, 15}" | "?t = 2 \<or> ?t = 8" | "?t = 18 \<or> ?t = 17 \<or> ?t = 11 \<or> ?t = 12"
    | "?t \<notin> {1, 2, 6, 8, 11, 12, 14, 15, 17, 18}" by auto
  then show ?thesis
  proof cases
    case 1
    then have "tag_cmdline e tag s = Inr s'" using assms by (simp add: tag_step_def)
    then obtain n m kb where "cmdline_parse (e_cl e) tag (b_mem s) = Inr (n, m)" "s' = s\<lparr>b_kboot := kb, b_mem := m\<rparr>"
      "is_legacy_bios kb = is_legacy_bios (b_kboot s)"
      by (cases s) (auto simp: tag_cmdline_def Let_def fault_simps split: if_splits prod.splits)
    then show ?thesis using cmdline 1 by blast
  next
    case 2
    then have "tag_mmap e tag s = Inr s'" using assms by (simp add: tag_step_def)
    then show ?thesis by (rule tag_mmap_cases) (use mmap 2 in blast)
  next
    case 3
    then show ?thesis using assms acpi by (auto simp: tag_step_def)
  next
    case 4
    then have "s' = tag_framebuffer tag s" "?t \<notin> {14, 15}" using assms by (auto simp: tag_step_def)
    moreover have "\<exists>kb. tag_framebuffer tag s = s\<lparr>b_kboot := kb\<rparr> \<and> (is_legacy_bios kb \<longrightarrow> is_legacy_bios (b_kboot s))"
      by (cases s) (auto simp: tag_framebuffer_def Let_def)
    ultimately show ?thesis using kboot by blast
  next
    case 5
    then show ?thesis using assms by (intro kboot) (auto simp: tag_step_def)
  next
    case 6
    then show ?thesis using assms by (intro kboot [of "b_kboot s"]) (auto simp: tag_step_def)
  qed
qed

lemma tag_acpi_same:
  "tag_acpi tag s = Inr s' \<Longrightarrow> b_mem s' = b_mem s \<and> b_kboot s' = b_kboot s \<and> b_total s' = b_total s \<and> b_pmm s' = b_pmm s"
  by (auto simp: tag_acpi_def Let_def split: if_splits)

lemma tag_step_same_info: "tag_step e tag s = Inr s' \<Longrightarrow> same_info (e_cl e) (b_mem s) (b_mem s')"
  by (erule tag_step_cases) (auto simp: same_info_def dest: cmdline_parse_frame tag_acpi_same)

text \<open>An invariant of the steps holds when the loop ends, whatever the tags are.\<close>

lemma tag_loop_invariant:
  assumes step: "\<And>tag s s'. I s \<Longrightarrow> tag_step e tag s = Inr s' \<Longrightarrow> I s'"
    and "tag_loop e tag s = Some (Inr s')" "I s"
  shows "I s'"
proof -
  have "\<And>tag s y. tag_loop e' tag s = Some y \<Longrightarrow> e' = e \<longrightarrow> I s \<longrightarrow> (\<forall>s'. y = Inr s' \<longrightarrow> I s')" for e'
    by (erule tag_loop.raw_induct [rotated]) (auto split: if_splits sum.splits dest: step)
  then show ?thesis using assms(2,3) by blast
qed

definition boot_inv :: "u64 \<Rightarrow> mem \<Rightarrow> boot_state \<Rightarrow> bool" where
  "boot_inv cl m s \<longleftrightarrow> same_info cl m (b_mem s) \<and> \<not> is_legacy_bios (b_kboot s) \<and>
     (b_total s \<noteq> 0 \<longrightarrow> pmm_wf (b_pmm s) \<and> (\<forall>p<16. page_used (pmm (b_pmm s)) p))"

lemma boot_inv_step: "boot_inv (e_cl e) m s \<Longrightarrow> tag_step e tag s = Inr s' \<Longrightarrow> boot_inv (e_cl e) m s'"
proof -
  assume i: "boot_inv (e_cl e) m s" and st: "tag_step e tag s = Inr s'"
  have same: "same_info (e_cl e) m (b_mem s')"
    using i tag_step_same_info [OF st] by (simp add: boot_inv_def same_info_def)
  from st show "boot_inv (e_cl e) m s'"
  proof (cases rule: tag_step_cases)
    case (mmap n tot ph mmaps)
    then show ?thesis using i same physmem_init_result [OF mmap(2)] by (simp add: boot_inv_def)
  next
    case acpi
    then show ?thesis using i same tag_acpi_same [OF acpi(1)] by (simp add: boot_inv_def)
  qed (use i same in \<open>auto simp: boot_inv_def\<close>)
qed

text \<open>
  C13. Whatever the boot loader passes: if the tags are read to the end, the page allocator is
  initialised with the first 16 pages reserved, there is memory, nothing but the command line
  structure has been written, and \<open>is_legacy_bios\<close> is false, also when no EFI tag was seen.
\<close>
theorem boot_parse_result:
  assumes "boot_parse e header magic pm m = Inr s"
  shows "magic = MULTIBOOT2_BOOTLOADER_MAGIC \<and> b_total s \<noteq> 0 \<and> pmm_wf (b_pmm s) \<and>
    (\<forall>p<16. page_used (pmm (b_pmm s)) p) \<and> (\<forall>x. b_mem s x = m x \<or> unat (x - e_cl e) < 328) \<and>
    \<not> is_legacy_bios (b_kboot s)"
proof -
  have l: "tag_loop e (header + 8) (boot_start pm m) = Some (Inr s)" and t: "b_total s \<noteq> 0" and g: "magic = MULTIBOOT2_BOOTLOADER_MAGIC"
    using assms by (auto simp: boot_parse_def Let_def fault_simps split: if_splits option.splits)
  have "boot_inv (e_cl e) m (boot_start pm m)" by (simp add: boot_inv_def same_info_def kboot_zero_def boot_start_def)
  then have "boot_inv (e_cl e) m s"
    using tag_loop_invariant [of "boot_inv (e_cl e) m" e, OF _ l] boot_inv_step by blast
  then show ?thesis using t g by (auto simp: boot_inv_def same_info_def not_le [symmetric])
qed

section \<open>Choosing the RSDP\<close>

text \<open>
  The tags from \<open>p\<close> to the end tag are at the addresses \<open>ts\<close>, and what the loop reads of them is
  away from the command line structure.
\<close>

fun boot_tags :: "u64 \<Rightarrow> mem \<Rightarrow> u64 \<Rightarrow> u64 list \<Rightarrow> bool" where
  "boot_tags cl m p [] \<longleftrightarrow> tag_type m p = 0 \<and> away cl p 8"
| "boot_tags cl m p (t # ts) \<longleftrightarrow> t = p \<and> tag_type m p \<noteq> 0 \<and> away cl p 8 \<and>
     (tag_type m p \<in> {14, 15} \<longrightarrow> away cl (acpi_tag_rsdp p) 20) \<and> boot_tags cl m (next_tag m p) ts"

definition acpi_rsdps :: "mem \<Rightarrow> u64 list \<Rightarrow> u64 list" where
  "acpi_rsdps m ts = map acpi_tag_rsdp (filter (\<lambda>t. tag_type m t \<in> {14, 15}) ts)"

text \<open>The choice among the candidates seen: the last of those with the highest revision.\<close>

definition best_rsdp :: "mem \<Rightarrow> u64 list \<Rightarrow> u64 \<Rightarrow> bool" where
  "best_rsdp m as r \<longleftrightarrow> (\<exists>xs ys. as = xs @ r # ys \<and> acpi_validate_rsdp m r \<and>
     (\<forall>a\<in>set xs. rsdp_revision m a \<le> rsdp_revision m r) \<and>
     (\<forall>a\<in>set ys. rsdp_revision m a < rsdp_revision m r))"

lemma same_info_away:
  assumes "same_info cl m m'" "away cl p n" "j + k \<le> n"
  shows "load_bytes m' (p + of_nat j) k = load_bytes m (p + of_nat j) k"
proof (rule load_bytes_cong)
  fix i assume "i < k"
  then have "j + i < n" using assms(3) by linarith
  then have "328 \<le> unat (p + of_nat (j + i) - cl)" using assms(2) unfolding away_def by blast
  then have "m' (p + of_nat (j + i)) = m (p + of_nat (j + i))" using assms(1) by (simp add: same_info_def)
  then show "m' (p + of_nat j + of_nat i) = m (p + of_nat j + of_nat i)" by (simp add: add.assoc)
qed

lemma same_tag:
  assumes "same_info cl m m'" "away cl p 8"
  shows "tag_type m' p = tag_type m p" "next_tag m' p = next_tag m p"
  using same_info_away [OF assms, of 0 4] same_info_away [OF assms, of 4 4]
  by (simp_all add: tag_type_def next_tag_def tag_size_def load32_def)

lemma same_rsdp:
  assumes "same_info cl m m'" "away cl p 20"
  shows "acpi_validate_rsdp m' p = acpi_validate_rsdp m p" "rsdp_revision m' p = rsdp_revision m p"
proof -
  have "load_bytes m' (p + of_nat 0) 20 = load_bytes m (p + of_nat 0) 20" by (rule same_info_away [OF assms]) simp
  then have b: "load_bytes m' p 20 = load_bytes m p 20" by simp
  then show "acpi_validate_rsdp m' p = acpi_validate_rsdp m p"
    by (simp add: acpi_validate_rsdp_def sum_bytes_eq RSDP_CHECKSUM_VALIDATE_SIZE_def)
  have "load_bytes m' p 20 ! 15 = load_bytes m p 20 ! 15" using b by simp
  then show "rsdp_revision m' p = rsdp_revision m p" by (simp add: rsdp_revision_def)
qed

text \<open>The candidates \<open>as\<close> seen so far and the pointer kept.\<close>

definition rsdp_inv :: "u64 \<Rightarrow> mem \<Rightarrow> u64 list \<Rightarrow> boot_state \<Rightarrow> bool" where
  "rsdp_inv cl m as s \<longleftrightarrow> same_info cl m (b_mem s) \<and> (\<forall>a\<in>set as. away cl a 20) \<and>
     (as = [] \<and> b_rsdp s = 0 \<or> b_rsdp s \<noteq> 0 \<and> best_rsdp m as (b_rsdp s))"

lemma best_rsdp_mem: "best_rsdp m as r \<Longrightarrow> r \<in> set as" by (auto simp: best_rsdp_def)

lemma best_rsdp_le: "best_rsdp m as r \<Longrightarrow> a \<in> set as \<Longrightarrow> rsdp_revision m a \<le> rsdp_revision m r"
  by (auto simp: best_rsdp_def le_less)

lemma rsdp_inv_acpi:
  assumes i: "rsdp_inv cl m as s" and st: "tag_acpi tag s = Inr s'" and aw: "away cl (acpi_tag_rsdp tag) 20"
  shows "rsdp_inv cl m (as @ [acpi_tag_rsdp tag]) s'"
proof -
  let ?n = "acpi_tag_rsdp tag" and ?r = "b_rsdp s"
  have same: "same_info cl m (b_mem s)" using i by (simp add: rsdp_inv_def)
  note n = same_rsdp [OF same aw]
  have r: "?r \<noteq> 0 \<Longrightarrow> rsdp_revision (b_mem s) ?r = rsdp_revision m ?r"
    using i same_rsdp(2) [OF same] best_rsdp_mem by (auto simp: rsdp_inv_def)
  show ?thesis
  proof (cases "?r \<noteq> 0 \<and> rsdp_revision m ?n < rsdp_revision m ?r")
    case True
    then have "s' = s" using st r n by (simp add: tag_acpi_def Let_def)
    moreover have "best_rsdp m (as @ [?n]) ?r"
    proof -
      obtain xs ys where "as = xs @ ?r # ys" "acpi_validate_rsdp m ?r"
        "\<forall>a\<in>set xs. rsdp_revision m a \<le> rsdp_revision m ?r" "\<forall>a\<in>set ys. rsdp_revision m a < rsdp_revision m ?r"
        using True i by (auto simp: rsdp_inv_def best_rsdp_def)
      then show ?thesis unfolding best_rsdp_def
        by (intro exI [of _ xs] exI [of _ "ys @ [?n]"]) (use True in auto)
    qed
    ultimately show ?thesis using True i aw by (simp add: rsdp_inv_def)
  next
    case False
    then have s': "s' = s\<lparr>b_rsdp := ?n\<rparr>" and v: "acpi_validate_rsdp m ?n"
      using st r n by (auto simp: tag_acpi_def Let_def split: if_splits)
    have "as = [] \<or> best_rsdp m as ?r \<and> rsdp_revision m ?r \<le> rsdp_revision m ?n"
      using False i by (auto simp: rsdp_inv_def)
    then have "\<forall>a\<in>set as. rsdp_revision m a \<le> rsdp_revision m ?n"
      using best_rsdp_le by fastforce
    then have "best_rsdp m (as @ [?n]) ?n"
      unfolding best_rsdp_def using v by (intro exI [of _ as] exI [of _ "[]"]) auto
    moreover have "?n \<noteq> 0" using v by (auto simp: acpi_validate_rsdp_def)
    ultimately show ?thesis using i aw by (simp add: rsdp_inv_def s')
  qed
qed

lemma rsdp_inv_step:
  assumes i: "rsdp_inv cl m as s" and st: "tag_step e p s = Inr s'" and "cl = e_cl e" "away cl p 8"
    and acpi: "tag_type m p \<in> {14, 15} \<longrightarrow> away cl (acpi_tag_rsdp p) 20"
  shows "rsdp_inv cl m (as @ acpi_rsdps m [p]) s'"
proof -
  have ty: "tag_type (b_mem s) p = tag_type m p" using i assms(4) same_tag by (auto simp: rsdp_inv_def)
  have same: "same_info cl m (b_mem s')"
    using i tag_step_same_info [OF st] assms(3) by (simp add: rsdp_inv_def same_info_def)
  from st show ?thesis
  proof (cases rule: tag_step_cases)
    case acpi: acpi
    then show ?thesis using rsdp_inv_acpi [OF i acpi(1)] assms(5) ty by (simp add: acpi_rsdps_def)
  qed (use i same ty in \<open>auto simp: rsdp_inv_def acpi_rsdps_def\<close>)
qed

text \<open>
  On a well formed list the loop ends, and what every step on a tag of the list keeps, with the
  tag added to those seen, holds at the end for the whole list.
\<close>

lemma boot_tags_at:
  "boot_tags cl m p ts \<Longrightarrow> t \<in> set ts \<Longrightarrow>
     tag_type m t \<noteq> 0 \<and> away cl t 8 \<and> (tag_type m t \<in> {14, 15} \<longrightarrow> away cl (acpi_tag_rsdp t) 20)"
  by (induction ts arbitrary: p) auto

lemma tag_loop_collects:
  assumes "boot_tags cl m p ts" "I as s" and same: "\<And>as s. I as s \<Longrightarrow> same_info cl m (b_mem s)"
    and step: "\<And>as s s' t. I as s \<Longrightarrow> t \<in> set ts \<Longrightarrow> tag_step e t s = Inr s' \<Longrightarrow> I (as @ [t]) s'"
  shows "\<exists>r. tag_loop e p s = Some r \<and> (\<forall>s'. r = Inr s' \<longrightarrow> I (as @ ts) s')"
  using assms(1,2) step
proof (induction ts arbitrary: p as s)
  case Nil
  then have "tag_type (b_mem s) p = 0" using same_tag(1) [OF same [OF Nil.prems(2)]] by simp
  then show ?case using Nil by (subst tag_loop.simps) simp
next
  case (Cons t ts)
  have t: "t = p" "tag_type m p \<noteq> 0" "away cl p 8" "boot_tags cl m (next_tag m p) ts" using Cons.prems(1) by auto
  have ty: "tag_type (b_mem s) p \<noteq> 0" using same_tag(1) [OF same [OF Cons.prems(2)] t(3)] t(2) by simp
  show ?case
  proof (cases "tag_step e p s")
    case (Inl x)
    then show ?thesis using ty by (subst tag_loop.simps) simp
  next
    case (Inr s1)
    have i: "I (as @ [p]) s1" using Cons.prems(3) [OF Cons.prems(2) _ Inr] t(1) by simp
    then have "next_tag (b_mem s1) p = next_tag m p" using same_tag(2) [OF same t(3)] by blast
    then have "tag_loop e p s = tag_loop e (next_tag m p) s1" using ty Inr by (subst tag_loop.simps) simp
    moreover have "\<exists>r. tag_loop e (next_tag m p) s1 = Some r \<and> (\<forall>s'. r = Inr s' \<longrightarrow> I ((as @ [p]) @ ts) s')"
      by (rule Cons.IH [OF t(4) i]) (use Cons.prems(3) in simp)
    ultimately show ?thesis using t(1) by simp
  qed
qed

lemma tag_loop_rsdp:
  assumes "boot_tags cl m p ts" "cl = e_cl e"
  shows "\<exists>r. tag_loop e p (boot_start pm m) = Some r \<and> (\<forall>s'. r = Inr s' \<longrightarrow> rsdp_inv cl m (acpi_rsdps m ts) s')"
proof -
  let ?I = "\<lambda>as s. rsdp_inv cl m (acpi_rsdps m as) s"
  have start: "?I [] (boot_start pm m)" by (simp add: rsdp_inv_def same_info_def boot_start_def acpi_rsdps_def)
  have same: "same_info cl m (b_mem s)" if "?I as s" for as s using that by (simp add: rsdp_inv_def)
  have step: "?I (as @ [t]) s'" if "?I as s" "t \<in> set ts" "tag_step e t s = Inr s'" for as s s' t
    using rsdp_inv_step [OF that(1,3) assms(2)] boot_tags_at [OF assms(1) that(2)] by (simp add: acpi_rsdps_def)
  from tag_loop_collects [where I = ?I, OF assms(1) start same step] show ?thesis by simp
qed

text \<open>
  On a well formed list of tags the loop ends, and if it ends without a fault it has kept
  the right RSDP: none when no ACPI tag was seen, and otherwise the last of those with the
  highest revision, which has been checked.
\<close>
theorem boot_selects_rsdp:
  assumes "boot_tags (e_cl e) m (header + 8) ts"
  shows "\<exists>r. tag_loop e (header + 8) (boot_start pm m) = Some r \<and>
    (case r of Inl x \<Rightarrow> True
     | Inr s \<Rightarrow> if acpi_rsdps m ts = [] then b_rsdp s = 0 else best_rsdp m (acpi_rsdps m ts) (b_rsdp s))"
proof -
  from tag_loop_rsdp [OF assms refl, of pm] obtain r where r: "tag_loop e (header + 8) (boot_start pm m) = Some r"
    "\<forall>s. r = Inr s \<longrightarrow> rsdp_inv (e_cl e) m (acpi_rsdps m ts) s" by blast
  then show ?thesis by (cases r) (auto simp: rsdp_inv_def best_rsdp_def)
qed

text \<open>
  The tag with the boot loader's name is taken for a framebuffer tag: the first eight
  characters of the name become the framebuffer address and the following ones its pitch and
  size, unless the ranges tested exclude it.
\<close>
theorem boot_loader_name_is_framebuffer:
  assumes "tag_type (b_mem s) tag = 2" and "load64 (b_mem s) (tag_string tag) \<noteq> 0"
    and "load64 (b_mem s) (tag_string tag) \<le> 0x100000000000"
    and "64 \<le> load32 (b_mem s) (tag_string tag + 12)" and "64 \<le> load32 (b_mem s) (tag_string tag + 16)"
  shows "\<exists>s'. tag_step e tag s = Inr s' \<and> fb_addr (b_kboot s') = load64 (b_mem s) (tag_string tag) \<and>
    fb_w (b_kboot s') = ucast (load32 (b_mem s) (tag_string tag + 12)) \<and>
    fb_h (b_kboot s') = ucast (load32 (b_mem s) (tag_string tag + 16))"
  using assms
  by (simp add: tag_step_def tag_framebuffer_def Let_def tagfb_addr_def tagfb_width_def tagfb_height_def tag_string_def
      not_less [symmetric] add.assoc)

section \<open>Witnesses\<close>

text \<open>
  Boot information at \<open>0x100\<close>: an old ACPI tag with revision 0, a new one with revision 2, and the
  end. At \<open>0x200\<close> there is a tag with a short name, at \<open>0x308\<close> a memory map of 256 MiB.
\<close>

definition demo_info :: mem where
  "demo_info = (\<lambda>_. 0)(0x108 := 14, 0x10c := 28, 0x128 := 15, 0x12c := 44, 0x13f := 2, 0x130 := 254,
     0x200 := 2, 0x208 := 65, 0x215 := 1, 0x219 := 1,
     0x308 := 6, 0x30c := 40, 0x310 := 24, 0x323 := 0x10, 0x328 := 1)"

definition demo_env :: boot_env where
  "demo_env = \<lparr>e_cl = 0x10000, e_ub = (\<lambda>_. 0), e_serial = 0x8000, e_dbg = 0x8010, e_dumpmem = 0x8020\<rparr>"

lemma away_below: "unat p + n \<le> 0x10000 \<Longrightarrow> away 0x10000 p n"
  unfolding away_def
proof (intro allI impI)
  fix i assume le: "unat p + n \<le> 0x10000" and i: "i < n"
  then have u: "unat (p + of_nat i) = unat p + i" by (intro unat_add_of_nat) simp
  have "p + of_nat i - 0x10000 = - (0x10000 - (p + of_nat i))" by simp
  moreover have "unat (0x10000 - (p + of_nat i)) = 0x10000 - (unat p + i)"
    using le i u by (subst unat_sub) (simp_all add: word_le_nat_alt)
  moreover have "p + of_nat i \<noteq> 0x10000" using u le i by auto
  ultimately have "unat (p + of_nat i - 0x10000) + (0x10000 - (unat p + i)) = 2 ^ 64"
    using unat_sub_flip [of "p + of_nat i" "0x10000"] by simp
  then show "328 \<le> unat (p + of_nat i - 0x10000)" by simp
qed

lemma demo_info_tags:
  "tag_type demo_info 0x108 = 14" "next_tag demo_info 0x108 = 0x128"
  "tag_type demo_info 0x128 = 15" "next_tag demo_info 0x128 = 0x158" "tag_type demo_info 0x158 = 0"
  by (simp_all add: tag_type_def next_tag_def tag_size_def load32_def load_bytes_def upt_rec demo_info_def)

lemma demo_info_rsdps:
  "acpi_validate_rsdp demo_info 0x110" "rsdp_revision demo_info 0x110 = 0"
  "acpi_validate_rsdp demo_info 0x130" "rsdp_revision demo_info 0x130 = 2"
  by (simp_all add: acpi_validate_rsdp_def RSDP_CHECKSUM_VALIDATE_SIZE_def rsdp_revision_def sum_bytes_eq
      load_bytes_def upt_rec demo_info_def)

lemma demo_boot:
  "tag_loop demo_env 0x108 (boot_start pm demo_info) = Some (Inr (boot_start pm demo_info\<lparr>b_rsdp := 0x130\<rparr>))"
  using demo_info_tags demo_info_rsdps
  by (subst tag_loop.simps, simp add: boot_start_def tag_step_def tag_acpi_def acpi_tag_rsdp_def Let_def,
      subst tag_loop.simps, simp add: tag_step_def tag_acpi_def acpi_tag_rsdp_def Let_def, subst tag_loop.simps, simp)

theorem boot_selects_rsdp_witness:
  "\<exists>s. tag_loop demo_env 0x108 (boot_start undefined demo_info) = Some (Inr s) \<and> best_rsdp demo_info [0x110, 0x130] (b_rsdp s)"
proof -
  have "boot_tags (e_cl demo_env) demo_info (0x100 + 8) [0x108, 0x128]"
    using demo_info_tags by (simp add: demo_env_def acpi_tag_rsdp_def away_below)
  note sel = boot_selects_rsdp [OF this, of undefined]
  have "acpi_rsdps demo_info [0x108, 0x128] = [0x110, 0x130]"
    using demo_info_tags by (simp add: acpi_rsdps_def acpi_tag_rsdp_def)
  with sel show ?thesis using demo_boot [of undefined] by simp
qed

lemma demo_map:
  "tag_type demo_info 0x308 = 6" "tag_size demo_info 0x308 = 40" "tagmm_entry_size demo_info 0x308 = 24"
  "next_tag demo_info 0x308 = 0x330" "tag_type demo_info 0x330 = 0" "cmdline_numargs 0x10000 demo_info = 0"
  "mmap_entries demo_info 0x308 1 = [\<lparr>mm_addr = 0, mm_len = 0x10000000, mm_type = 1\<rparr>]"
  by (simp_all add: tag_type_def next_tag_def tag_size_def tagmm_entry_size_def mmap_entries_def sizeof_tag_mmap_def
      cmdline_numargs_def cl_num_args_def load32_def load64_def load_bytes_def upt_rec demo_info_def)

theorem boot_parse_result_witness:
  "\<exists>s. boot_parse demo_env 0x300 MULTIBOOT2_BOOTLOADER_MAGIC undefined demo_info = Inr s \<and> pmm_wf (b_pmm s) \<and>
     page_used (pmm (b_pmm s)) 15"
proof -
  let ?mm = "[\<lparr>mm_addr = 0, mm_len = 0x10000000, mm_type = 1\<rparr>] :: mmap_entry list"
  have sum: "sum_avail ?mm 0 0 = (0x10000000, 0x10000000)" by (simp add: MULTIBOOT_MEMORY_AVAILABLE_def)
  have "map_fits ?mm" by (simp add: map_fits_def)
  then obtain ph where "physmem_init (\<lambda>_. 0) ?mm = Inr (0x10000000, ph)"
    using physmem_init_defined [of ?mm "\<lambda>_. 0"] sum by auto
  then have "\<exists>s. boot_parse demo_env 0x300 MULTIBOOT2_BOOTLOADER_MAGIC undefined demo_info = Inr s"
    unfolding boot_parse_def using demo_map
    by (subst tag_loop.simps, simp add: boot_start_def tag_step_def tag_mmap_def demo_env_def Let_def sizeof_tag_mmap_def,
        subst tag_loop.simps, simp)
  then show ?thesis using boot_parse_result by fastforce
qed

theorem boot_loader_name_is_framebuffer_witness:
  "\<exists>s'. tag_step demo_env 0x200 (boot_start undefined demo_info) = Inr s' \<and> fb_addr (b_kboot s') = 65 \<and>
     fb_w (b_kboot s') = 256 \<and> fb_h (b_kboot s') = 256"
proof -
  let ?s = "boot_start undefined demo_info"
  have "tag_type (b_mem ?s) 0x200 = 2" "load64 (b_mem ?s) (tag_string 0x200) = 65"
    "load32 (b_mem ?s) (tag_string 0x200 + 12) = 256" "load32 (b_mem ?s) (tag_string 0x200 + 16) = 256"
    by (simp_all add: tag_type_def tag_string_def load32_def load64_def load_bytes_def upt_rec boot_start_def demo_info_def)
  then show ?thesis using boot_loader_name_is_framebuffer [of ?s "0x200" demo_env] by simp
qed

end
