(* ===== verification/Isr.thy ===== *)
theory Isr
  imports PortIO
begin

text \<open>
  \<^verbatim>\<open>src/kernel/isr/isr.c\<close> with \<^verbatim>\<open>isr.h\<close> and \<^verbatim>\<open>isr_exceptions.h\<close>: what the kernel does on an exception or
  a hardware interrupt. The handlers are code addresses; those of the kernel only write to the
  log, so a call is recorded. Register dumps and other log lines are left out, the name printed
  for an exception is not.
\<close>

section \<open>State\<close>

record registers_t =
  r_ds :: u64
  r_r15 :: u64
  r_r14 :: u64
  r_r13 :: u64
  r_r12 :: u64
  r_r11 :: u64
  r_r10 :: u64
  r_r9 :: u64
  r_r8 :: u64
  r_rbp :: u64
  r_rsi :: u64
  r_rdi :: u64
  r_rbx :: u64
  r_rdx :: u64
  r_rcx :: u64
  r_cr3 :: u64
  r_rax :: u64
  int_no :: u64
  err_code :: u64
  r_rip :: u64
  r_cs :: u64
  r_rflags :: u64
  r_rsp :: u64
  r_ss :: u64

definition IRQ0 :: u64 where "IRQ0 = 32"
definition IRQ15 :: u64 where "IRQ15 = 47"

definition ISR_InvalidOpcode :: u64 where "ISR_InvalidOpcode = 6"
definition ISR_GeneralProtectionFault :: u64 where "ISR_GeneralProtectionFault = 13"
definition ISR_PageFault :: u64 where "ISR_PageFault = 14"

definition exception_names :: "string list" where
  "exception_names =
     [''ISR_DivisionError'', ''ISR_Debug'', ''ISR_NonMaskableInterrupt'', ''ISR_Breakpoint'', ''ISR_Overflow'',
      ''ISR_BoundRangeExceeded'', ''ISR_InvalidOpcode'', ''ISR_DeviceNotAvailable'', ''ISR_DoubleFault'',
      ''ISR_CoProcessorLegacy'', ''ISR_InvalidTSS'', ''ISR_SegmentNotPresent'', ''ISR_StackSegmentFault'',
      ''ISR_GeneralProtectionFault'', ''ISR_PageFault'', ''ISR_Reserved'', ''ISR_Reserved'',
      ''ISR_x87FloatingPoint'', ''ISR_AlignmentCheck'', ''ISR_MachineCheck'', ''ISR_SIMDFloatingPoint'',
      ''ISR_VirtualizationException'', ''ISR_ControlProtectionException'', ''ISR_Reserved'', ''ISR_Reserved'',
      ''ISR_Reserved'', ''ISR_Reserved'', ''ISR_Reserved'', ''ISR_HypervisorInjection'',
      ''ISR_VMMCommException'', ''ISR_SecurityException'']"

text \<open>The counters are \<open>int\<close>s; they stop the kernel long before they could overflow.\<close>

record isr_state =
  interupt_handlers :: "u64 list"
  last_num :: int
  num_pfs :: int
  num_gpfs :: int
  i_called :: "u64 list"
  i_names :: "string list"
  i_io :: io

definition isr_boot :: isr_state where
  "isr_boot = \<lparr>interupt_handlers = replicate 256 0, last_num = - 1, num_pfs = 0, num_gpfs = 0,
     i_called = [], i_names = [], i_io = []\<rparr>"

section \<open>Exceptions\<close>

definition handle_error_generic :: "registers_t \<Rightarrow> bool \<Rightarrow> isr_state \<Rightarrow> isr_state res" where
  "handle_error_generic regs recover s =
     (let num = sint (ucast (int_no regs) :: u32)
      in bindE (if 0 \<le> num \<and> num < 32
                then if length exception_names \<le> nat num then Inl Out_of_bounds
                     else Inr (s\<lparr>i_names := i_names s @ [exception_names ! nat num]\<rparr>)
                else Inr s) (\<lambda>s1.
         if num = last_num s1 \<or> \<not> recover then Inl (Panic ''Can't Recover From Exception'')
         else Inr (s1\<lparr>last_num := num\<rparr>)))"

definition handle_pagefault :: "registers_t \<Rightarrow> isr_state \<Rightarrow> isr_state res" where
  "handle_pagefault regs s =
     (if 3 < num_pfs s then Inl (Panic ''Triple Fault!'') else Inr (s\<lparr>num_pfs := num_pfs s + 1\<rparr>))"

definition handle_gpf :: "registers_t \<Rightarrow> isr_state \<Rightarrow> isr_state res" where
  "handle_gpf regs s =
     (let s1 = s\<lparr>num_gpfs := num_gpfs s + 1\<rparr>
      in if 1 < num_gpfs s1 then Inl (Panic ''Triple Fault!'') else Inr s1)"

definition isr_handler :: "registers_t \<Rightarrow> isr_state \<Rightarrow> isr_state res" where
  "isr_handler regs s =
     (let recoverable = (int_no regs \<noteq> ISR_InvalidOpcode)
      in if int_no regs = ISR_PageFault then handle_pagefault regs s
         else if int_no regs = ISR_GeneralProtectionFault then handle_gpf regs s
         else handle_error_generic regs recoverable s)"

section \<open>Hardware interrupts\<close>

definition APIC_EOI_REG :: u32 where "APIC_EOI_REG = 0xb0"

definition lapic_write :: "u64 \<Rightarrow> u32 \<Rightarrow> u32 \<Rightarrow> unit io_prog" where
  "lapic_write base reg data = mmio_write32 (base + ucast reg) data"

definition lapic_sendEOI :: "u64 \<Rightarrow> unit io_prog" where
  "lapic_sendEOI base = lapic_write base APIC_EOI_REG 0"

text \<open>The test masks the number to eight bits, the access does not.\<close>

definition irq_handler :: "u64 \<Rightarrow> registers_t \<Rightarrow> isr_state \<Rightarrow> isr_state res" where
  "irq_handler lapic regs s =
     bindE (if interupt_handlers s ! unat (ucast (int_no regs AND 0xff) :: u8) \<noteq> 0
            then if length (interupt_handlers s) \<le> unat (int_no regs) then Inl Out_of_bounds
                 else Inr (s\<lparr>i_called := i_called s @ [interupt_handlers s ! unat (int_no regs)]\<rparr>)
            else Inr s) (\<lambda>s1.
       Inr (s1\<lparr>i_io := snd (run_state (lapic_sendEOI lapic) (i_io s1))\<rparr>))"

definition register_interupt_handler :: "u8 \<Rightarrow> u64 \<Rightarrow> isr_state \<Rightarrow> isr_state" where
  "register_interupt_handler n handler_fn s =
     s\<lparr>interupt_handlers := (interupt_handlers s)[unat n := handler_fn]\<rparr>"

section \<open>Runs\<close>

text \<open>What happens to the kernel, in any order: exceptions, interrupts, registrations.\<close>

datatype isr_event = Exception registers_t | Irq registers_t | Register u8 u64

fun isr_step :: "u64 \<Rightarrow> isr_event \<Rightarrow> isr_state \<Rightarrow> isr_state res" where
  "isr_step lapic (Exception r) s = isr_handler r s"
| "isr_step lapic (Irq r) s = irq_handler lapic r s"
| "isr_step lapic (Register n f) s = Inr (register_interupt_handler n f s)"

fun isr_run :: "u64 \<Rightarrow> isr_event list \<Rightarrow> isr_state \<Rightarrow> isr_state res" where
  "isr_run lapic [] s = Inr s"
| "isr_run lapic (ev # evs) s = bindE (isr_step lapic ev s) (isr_run lapic evs)"

text \<open>The stubs push the vector: below 32 for an exception, below 256 for an interrupt.\<close>

fun stub_event :: "isr_event \<Rightarrow> bool" where
  "stub_event (Exception r) \<longleftrightarrow> unat (int_no r) < 32"
| "stub_event (Irq r) \<longleftrightarrow> unat (int_no r) < 256"
| "stub_event (Register n f) \<longleftrightarrow> True"

fun vectors :: "isr_event list \<Rightarrow> nat list" where
  "vectors [] = []"
| "vectors (Exception r # evs) = unat (int_no r) # vectors evs"
| "vectors (_ # evs) = vectors evs"

text \<open>The exceptions a kernel survives, and what the interrupts do to the devices.\<close>

definition generic :: "nat \<Rightarrow> bool" where "generic n \<longleftrightarrow> n \<noteq> 13 \<and> n \<noteq> 14"

definition survivable :: "nat list \<Rightarrow> bool" where
  "survivable ns \<longleftrightarrow> count_list ns 14 \<le> 4 \<and> count_list ns 13 \<le> 1 \<and> 6 \<notin> set ns \<and> 31 \<notin> set ns \<and>
     distinct_adj (filter generic ns)"

fun irq_calls :: "isr_event list \<Rightarrow> (u8 \<Rightarrow> u64) \<Rightarrow> u64 list" where
  "irq_calls [] f = []"
| "irq_calls (Exception r # evs) f = irq_calls evs f"
| "irq_calls (Irq r # evs) f = (if f (ucast (int_no r)) = 0 then [] else [f (ucast (int_no r))]) @ irq_calls evs f"
| "irq_calls (Register n g # evs) f = irq_calls evs (f(n := g))"

definition irqs :: "isr_event list \<Rightarrow> nat" where
  "irqs evs = length (filter (\<lambda>e. case e of Irq r \<Rightarrow> True | _ \<Rightarrow> False) evs)"

section \<open>One event\<close>

lemma small_int_no:
  assumes "unat (x :: u64) < 2 ^ 31"
  shows "sint (ucast x :: u32) = int (unat x)"
proof -
  have "(ucast x :: u32) = of_nat (unat x)" by (metis of_nat_unat)
  then show ?thesis using assms by (simp only:) (simp add: signed_of_nat signed_take_bit_int_eq_self del: of_nat_unat)
qed

lemma exception_names_length: "length exception_names = 31" by (simp add: exception_names_def)

lemma isr_handler_ok:
  assumes n: "unat (int_no r) < 32"
  shows "isr_handler r s =
    (let k = unat (int_no r)
     in if k = 14 then if 3 < num_pfs s then Inl (Panic ''Triple Fault!'') else Inr (s\<lparr>num_pfs := num_pfs s + 1\<rparr>)
        else if k = 13 then if 0 < num_gpfs s then Inl (Panic ''Triple Fault!'') else Inr (s\<lparr>num_gpfs := num_gpfs s + 1\<rparr>)
        else if k = 31 then Inl Out_of_bounds
        else if int k = last_num s \<or> k = 6 then Inl (Panic ''Can't Recover From Exception'')
        else Inr (s\<lparr>i_names := i_names s @ [exception_names ! k], last_num := int k\<rparr>))"
proof -
  have eq: "int_no r = 14 \<longleftrightarrow> unat (int_no r) = 14" "int_no r = 13 \<longleftrightarrow> unat (int_no r) = 13"
    "int_no r = 6 \<longleftrightarrow> unat (int_no r) = 6" by (simp_all add: word_unat_eq_iff)
  have sn: "sint (ucast (int_no r) :: u32) = int (unat (int_no r))" using n by (intro small_int_no) simp
  have 31: "31 \<le> unat (int_no r) \<longleftrightarrow> unat (int_no r) = 31" using n by linarith
  have "int (unat (int_no r)) < 32" using n by linarith
  then have "uint (int_no r) < 32" by simp
  then show ?thesis
    using n 31 unfolding isr_handler_def handle_pagefault_def handle_gpf_def handle_error_generic_def Let_def
      ISR_PageFault_def ISR_GeneralProtectionFault_def ISR_InvalidOpcode_def eq sn
    by (auto simp: exception_names_length)
qed

lemma irq_handler_ok:
  assumes n: "unat (int_no r) < 256" and len: "length (interupt_handlers s) = 256"
  shows "irq_handler lapic r s = (let h = interupt_handlers s ! unat (int_no r)
     in Inr (s\<lparr>i_called := i_called s @ (if h = 0 then [] else [h]), i_io := i_io s @ [Mmio_write (lapic + 0xb0) 0]\<rparr>))"
proof -
  have m: "(0xff :: u64) = mask 8" by (simp add: mask_eq_exp_minus_1)
  have "unat (ucast (int_no r AND 0xff) :: u8) = unat (int_no r) mod 256"
    unfolding m by (simp add: unsigned_ucast_eq unsigned_and_eq take_bit_eq_mod unat_mod_distrib flip: take_bit_eq_mask)
  then have "unat (ucast (int_no r AND 0xff) :: u8) = unat (int_no r)" using n by simp
  then show ?thesis using n len
    by (simp add: irq_handler_def Let_def lapic_sendEOI_def lapic_write_def APIC_EOI_REG_def io_simps)
qed

section \<open>Runs of events\<close>

lemma isr_step_handlers:
  assumes "isr_step lapic ev s = Inr s'" "stub_event ev" "length (interupt_handlers s) = 256"
  shows "length (interupt_handlers s') = 256"
  using assms isr_handler_ok irq_handler_ok
  by (cases ev) (auto simp: Let_def register_interupt_handler_def split: if_splits)

lemma isr_run_survives:
  assumes "\<forall>ev\<in>set evs. stub_event ev" "length (interupt_handlers s) = 256" "0 \<le> num_pfs s" "0 \<le> num_gpfs s"
    "num_pfs s \<le> 4" "num_gpfs s \<le> 1"
  shows "(\<exists>s'. isr_run lapic evs s = Inr s') \<longleftrightarrow>
    num_pfs s + int (count_list (vectors evs) 14) \<le> 4 \<and> num_gpfs s + int (count_list (vectors evs) 13) \<le> 1 \<and>
    6 \<notin> set (vectors evs) \<and> 31 \<notin> set (vectors evs) \<and>
    distinct_adj (last_num s # map int (filter generic (vectors evs)))"
  using assms
proof (induction evs arbitrary: s)
  case (Cons ev evs)
  have rest: "\<forall>ev\<in>set evs. stub_event ev" using Cons.prems(1) by simp
  show ?case
  proof (cases ev)
    case (Exception r)
    then have n: "unat (int_no r) < 32" using Cons.prems(1) by simp
    let ?k = "unat (int_no r)"
    show ?thesis
      using isr_handler_ok [OF n, of s] Cons.prems rest Exception
        Cons.IH [of "s\<lparr>num_pfs := num_pfs s + 1\<rparr>"] Cons.IH [of "s\<lparr>num_gpfs := num_gpfs s + 1\<rparr>"]
        Cons.IH [of "s\<lparr>i_names := i_names s @ [exception_names ! ?k], last_num := int ?k\<rparr>"]
      by (auto simp: Let_def generic_def)
  next
    case (Irq r)
    then have n: "unat (int_no r) < 256" using Cons.prems(1) by simp
    show ?thesis
      using irq_handler_ok [OF n Cons.prems(2)] Cons.prems rest Irq by (simp add: Let_def Cons.IH)
  next
    case (Register n f)
    then show ?thesis using Cons.prems rest by (simp add: register_interupt_handler_def Cons.IH)
  qed
qed simp

text \<open>
  C8. The kernel survives exactly the runs of exceptions it should: in any order of exceptions,
  interrupts and registrations since boot, it does not stop if and only if there were at most
  four page faults and one general protection fault, no invalid opcode, no vector 31 (for which
  the table of names has no entry), and no two equal other exceptions in a row.
\<close>
theorem isr_run_survivable:
  assumes "\<forall>ev\<in>set evs. stub_event ev"
  shows "(\<exists>s. isr_run lapic evs isr_boot = Inr s) \<longleftrightarrow> survivable (vectors evs)"
proof -
  have "distinct_adj (- 1 # map int ns) \<longleftrightarrow> distinct_adj ns" for ns
  proof -
    have "distinct_adj (map int ns) \<longleftrightarrow> distinct_adj ns" by (rule distinct_adj_map_iff) simp
    then show ?thesis by (cases ns) auto
  qed
  then show ?thesis
    using isr_run_survives [OF assms, of isr_boot lapic] by (simp add: isr_boot_def survivable_def)
qed

lemma isr_handler_frame:
  "isr_handler r s = Inr s' \<Longrightarrow>
     interupt_handlers s' = interupt_handlers s \<and> i_called s' = i_called s \<and> i_io s' = i_io s"
  unfolding isr_handler_def handle_pagefault_def handle_gpf_def handle_error_generic_def Let_def
  by (auto simp: fault_simps split: if_splits)

lemma isr_run_devices:
  assumes "\<forall>ev\<in>set evs. stub_event ev" "length (interupt_handlers s) = 256" "isr_run lapic evs s = Inr s'"
  shows "i_called s' = i_called s @ irq_calls evs (\<lambda>n. interupt_handlers s ! unat n) \<and>
    i_io s' = i_io s @ replicate (irqs evs) (Mmio_write (lapic + 0xb0) 0)"
  using assms
proof (induction evs arbitrary: s)
  case (Cons ev evs)
  obtain s1 where s1: "isr_step lapic ev s = Inr s1" "isr_run lapic evs s1 = Inr s'"
    using Cons.prems(3) by (cases "isr_step lapic ev s") auto
  have ih: "i_called s' = i_called s1 @ irq_calls evs (\<lambda>n. interupt_handlers s1 ! unat n) \<and>
      i_io s' = i_io s1 @ replicate (irqs evs) (Mmio_write (lapic + 0xb0) 0)"
    by (rule Cons.IH) (use Cons.prems(1) isr_step_handlers [OF s1(1) _ Cons.prems(2)] s1(2) in simp_all)
  show ?case
  proof (cases ev)
    case (Exception r)
    then show ?thesis using ih isr_handler_frame [of r s s1] s1(1) by (simp add: irqs_def)
  next
    case (Irq r)
    then have n: "unat (int_no r) < 256" using Cons.prems(1) by simp
    then have u: "unat (ucast (int_no r) :: u8) = unat (int_no r)" by (simp add: unsigned_ucast_eq take_bit_eq_mod)
    let ?h = "interupt_handlers s ! unat (int_no r)"
    have "s1 = s\<lparr>i_called := i_called s @ (if ?h = 0 then [] else [?h]),
        i_io := i_io s @ [Mmio_write (lapic + 0xb0) 0]\<rparr>"
      using s1(1) irq_handler_ok [OF n Cons.prems(2)] Irq by (simp add: Let_def)
    then show ?thesis using ih u by (simp add: Irq irqs_def)
  next
    case (Register n f)
    have "(\<lambda>k. (interupt_handlers s)[unat n := f] ! unat k) = (\<lambda>k. interupt_handlers s ! unat k)(n := f)"
    proof
      fix k
      have "unat n < length (interupt_handlers s)" using Cons.prems(2) unsigned_less [of n] by simp
      then show "(interupt_handlers s)[unat n := f] ! unat k = ((\<lambda>k. interupt_handlers s ! unat k)(n := f)) k"
        by (cases "k = n") (simp_all add: word_unat_eq_iff)
    qed
    moreover have "s1 = register_interupt_handler n f s" using s1(1) Register by simp
    ultimately show ?thesis using ih by (simp add: Register irqs_def register_interupt_handler_def)
  qed
qed (simp add: irqs_def)

text \<open>
  C20. Interrupts reach their handlers: in every run that does not stop the kernel, the handlers
  called are, for each interrupt in order, the one registered last for its vector, if any, and
  each interrupt is acknowledged to the local APIC exactly once.
\<close>
theorem irqs_reach_handlers:
  assumes "\<forall>ev\<in>set evs. stub_event ev" and "isr_run lapic evs isr_boot = Inr s"
  shows "i_called s = irq_calls evs (\<lambda>_. 0) \<and> i_io s = replicate (irqs evs) (Mmio_write (lapic + 0xb0) 0)"
proof -
  have "(\<lambda>n :: u8. replicate 256 0 ! unat n) = (\<lambda>_. 0 :: u64)"
  proof
    fix n :: u8
    have "unat n < 256" using unsigned_less [of n] by simp
    then show "replicate 256 0 ! unat n = (0 :: u64)" by (rule nth_replicate)
  qed
  then show ?thesis using isr_run_devices [OF assms(1) _ assms(2)] by (simp add: isr_boot_def)
qed

section \<open>Witnesses\<close>

definition demo_regs :: "u64 \<Rightarrow> registers_t" where
  "demo_regs n = \<lparr>r_ds = 0, r_r15 = 0, r_r14 = 0, r_r13 = 0, r_r12 = 0, r_r11 = 0, r_r10 = 0, r_r9 = 0,
     r_r8 = 0, r_rbp = 0, r_rsi = 0, r_rdi = 0, r_rbx = 0, r_rdx = 0, r_rcx = 0, r_cr3 = 0, r_rax = 0,
     int_no = n, err_code = 0, r_rip = 0, r_cs = 8, r_rflags = 0, r_rsp = 0, r_ss = 0\<rparr>"

theorem isr_run_survivable_witness:
  "(\<exists>s. isr_run 0xfee00000 [Exception (demo_regs 3), Exception (demo_regs 14), Exception (demo_regs 1)] isr_boot = Inr s) \<and>
     \<not> (\<exists>s. isr_run 0xfee00000 [Exception (demo_regs 3), Exception (demo_regs 14), Exception (demo_regs 3)] isr_boot = Inr s)"
  using isr_run_survivable [of "[Exception (demo_regs 3), Exception (demo_regs 14), Exception (demo_regs 1)]" "0xfee00000"]
    isr_run_survivable [of "[Exception (demo_regs 3), Exception (demo_regs 14), Exception (demo_regs 3)]" "0xfee00000"]
  by (simp add: demo_regs_def survivable_def generic_def)

theorem irqs_reach_handlers_witness:
  "\<exists>s. isr_run 0xfee00000 [Register 47 0x1234, Irq (demo_regs 47), Irq (demo_regs 46)] isr_boot = Inr s \<and>
     i_called s = [0x1234] \<and> length (i_io s) = 2"
proof -
  let ?evs = "[Register 47 0x1234, Irq (demo_regs 47), Irq (demo_regs 46)]"
  have st: "\<forall>ev\<in>set ?evs. stub_event ev" by (simp add: demo_regs_def)
  obtain s where s: "isr_run 0xfee00000 ?evs isr_boot = Inr s"
    using isr_run_survives [OF st, of isr_boot] by (auto simp: isr_boot_def)
  then show ?thesis using irqs_reach_handlers [OF st s] by (simp add: demo_regs_def irqs_def)
qed

end
