(* ===== verification/Pic.thy ===== *)
theory Pic
  imports PortIO PhysMem
begin

text \<open>
  \<^verbatim>\<open>src/kernel/apic/pic.c\<close> with \<^verbatim>\<open>pic.h\<close>: the two legacy interrupt controllers, which the kernel moves
  out of the way of the exceptions and then masks. A model of the controller as its manual
  describes it reads the writes and says what state they leave it in.
\<close>

section \<open>The driver\<close>

definition PIC1_REMAP_OFFSET :: u8 where "PIC1_REMAP_OFFSET = 0x20"
definition PIC2_REMAP_OFFSET :: u8 where "PIC2_REMAP_OFFSET = 0x28"
definition PIC1_COMMAND :: u16 where "PIC1_COMMAND = 0x20"
definition PIC1_DATA :: u16 where "PIC1_DATA = 0x21"
definition PIC2_COMMAND :: u16 where "PIC2_COMMAND = 0xA0"
definition PIC2_DATA :: u16 where "PIC2_DATA = 0xA1"
definition PIC_EOI :: u8 where "PIC_EOI = 0x20"
definition PIC_READ_IRR :: u8 where "PIC_READ_IRR = 0x0a"
definition PIC_READ_ISR :: u8 where "PIC_READ_ISR = 0x0b"
definition ICW1_ICW4 :: u8 where "ICW1_ICW4 = 0x01"
definition ICW1_INIT :: u8 where "ICW1_INIT = 0x10"
definition ICW4_8086 :: u8 where "ICW4_8086 = 0x01"

definition PIC_sendEOI :: "u8 \<Rightarrow> unit io_prog" where
  "PIC_sendEOI irq = do {
     (if 8 \<le> irq then port_byte_out PIC2_COMMAND PIC_EOI else State_Monad.return ());
     port_byte_out PIC1_COMMAND PIC_EOI }"

text \<open>The two reads are in one expression; they are taken from left to right.\<close>

definition pic_get_irq_req :: "device \<Rightarrow> u8 \<Rightarrow> u16 io_prog" where
  "pic_get_irq_req dev ocw3 = do {
     port_byte_out PIC1_COMMAND ocw3;
     port_byte_out PIC2_COMMAND ocw3;
     hi \<leftarrow> port_byte_in dev PIC2_COMMAND;
     lo \<leftarrow> port_byte_in dev PIC1_COMMAND;
     State_Monad.return (push_bit 8 (ucast hi) OR ucast lo) }"

definition pic_get_irr :: "device \<Rightarrow> u16 io_prog" where "pic_get_irr dev = pic_get_irq_req dev PIC_READ_IRR"
definition pic_get_isr :: "device \<Rightarrow> u16 io_prog" where "pic_get_isr dev = pic_get_irq_req dev PIC_READ_ISR"

definition PIC_disable :: "unit io_prog" where
  "PIC_disable = do { port_byte_out PIC1_DATA 0xff; port_byte_out PIC2_DATA 0xff }"

definition PIC_enable :: "unit io_prog" where
  "PIC_enable = do { port_byte_out PIC1_DATA 0; port_byte_out PIC2_DATA 0 }"

text \<open>\<open>1 << irq\<close> is an \<open>int\<close> shift; \<open>ub\<close> is its value where C leaves it undefined.\<close>

definition mask_port :: "u8 \<Rightarrow> u16 \<times> u8" where
  "mask_port irq = (if irq < 8 then (PIC1_DATA, irq) else (PIC2_DATA, irq - 8))"

definition PIC_set_mask :: "int_shl \<Rightarrow> device \<Rightarrow> u8 \<Rightarrow> unit io_prog" where
  "PIC_set_mask ub dev irq0 = do {
     let (port, irq) = mask_port irq0;
     v \<leftarrow> port_byte_in dev port;
     let value = (ucast (ucast v OR int_shl1 ub (unat irq)) :: u8);
     port_byte_out port value }"

definition PIC_clear_mask :: "int_shl \<Rightarrow> device \<Rightarrow> u8 \<Rightarrow> unit io_prog" where
  "PIC_clear_mask ub dev irq0 = do {
     let (port, irq) = mask_port irq0;
     v \<leftarrow> port_byte_in dev port;
     let value = (ucast (ucast v AND NOT (int_shl1 ub (unat irq))) :: u8);
     port_byte_out port value }"

definition PIC_remap :: "int_shl \<Rightarrow> device \<Rightarrow> u8 \<Rightarrow> u8 \<Rightarrow> unit io_prog" where
  "PIC_remap ub dev off1 off2 = do {
     a1 \<leftarrow> port_byte_in dev PIC1_DATA;
     a2 \<leftarrow> port_byte_in dev PIC2_DATA;
     PIC_disable;
     port_byte_out PIC1_COMMAND (ICW1_INIT OR ICW1_ICW4); io_wait;
     port_byte_out PIC2_COMMAND (ICW1_INIT OR ICW1_ICW4); io_wait;
     port_byte_out PIC1_DATA off1; io_wait;
     port_byte_out PIC2_DATA off2; io_wait;
     port_byte_out PIC1_DATA 0x04; io_wait;
     port_byte_out PIC2_DATA 0x02; io_wait;
     port_byte_out PIC1_DATA ICW4_8086; io_wait;
     port_byte_out PIC2_DATA ICW4_8086; io_wait;
     port_byte_out PIC1_DATA 0; io_wait;
     port_byte_out PIC2_DATA 0; io_wait;
     PIC_clear_mask ub dev 0x20;
     PIC_clear_mask ub dev 0x21 }"

section \<open>The controller\<close>

text \<open>
  The 8259A: a command byte with bit 4 set starts the initialisation and clears the mask; the
  data bytes after it are the vector offset, the cascade wiring and, if announced, the mode.
  Otherwise a data byte is the interrupt mask.
\<close>

datatype pic_phase = Ready | Want_icw2 | Want_icw3 | Want_icw4

record pic8259 =
  pic_phase :: pic_phase
  pic_icw4 :: bool
  pic_vector :: u8
  pic_cascade :: u8
  pic_imr :: u8

definition pic_command :: "u8 \<Rightarrow> pic8259 \<Rightarrow> pic8259" where
  "pic_command v c = (if bit v 4 then c\<lparr>pic_phase := Want_icw2, pic_icw4 := bit v 0, pic_imr := 0\<rparr> else c)"

definition pic_data :: "u8 \<Rightarrow> pic8259 \<Rightarrow> pic8259" where
  "pic_data v c = (case pic_phase c of
       Ready \<Rightarrow> c\<lparr>pic_imr := v\<rparr>
     | Want_icw2 \<Rightarrow> c\<lparr>pic_vector := v, pic_phase := Want_icw3\<rparr>
     | Want_icw3 \<Rightarrow> c\<lparr>pic_cascade := v, pic_phase := (if pic_icw4 c then Want_icw4 else Ready)\<rparr>
     | Want_icw4 \<Rightarrow> c\<lparr>pic_phase := Ready\<rparr>)"

definition pic_event :: "u16 \<Rightarrow> u16 \<Rightarrow> io_event \<Rightarrow> pic8259 \<Rightarrow> pic8259" where
  "pic_event cmd dat e c = (case e of
       Port_out p v \<Rightarrow> if p = cmd then pic_command v c else if p = dat then pic_data v c else c
     | _ \<Rightarrow> c)"

definition pic_after :: "u16 \<Rightarrow> u16 \<Rightarrow> io \<Rightarrow> pic8259 \<Rightarrow> pic8259" where
  "pic_after cmd dat h c = fold (pic_event cmd dat) h c"

definition pic1_after :: "io \<Rightarrow> pic8259 \<Rightarrow> pic8259" where "pic1_after = pic_after PIC1_COMMAND PIC1_DATA"
definition pic2_after :: "io \<Rightarrow> pic8259 \<Rightarrow> pic8259" where "pic2_after = pic_after PIC2_COMMAND PIC2_DATA"

lemmas pic_ports = PIC1_COMMAND_def PIC1_DATA_def PIC2_COMMAND_def PIC2_DATA_def
lemmas pic_chip = pic_event_def pic_command_def pic_data_def

lemma pic_after_append: "pic_after cmd dat (h @ es) c = fold (pic_event cmd dat) es (pic_after cmd dat h c)"
  by (simp add: pic_after_def)

text \<open>What a mask operation appends.\<close>

lemma run_clear_mask:
  "\<exists>v. run_state (PIC_clear_mask ub dev irq) h =
     ((), h @ [Port_in (fst (mask_port irq)), Port_out (fst (mask_port irq)) v])"
  by (simp add: PIC_clear_mask_def io_simps split_def Let_def)

text \<open>The remapping, for whatever the devices answer.\<close>

lemma run_PIC_remap:
  "\<exists>v w. run_state (PIC_remap ub dev off1 off2) h = ((), h @
     [Port_in 0x21, Port_in 0xA1, Port_out 0x21 0xff, Port_out 0xA1 0xff,
      Port_out 0x20 0x11, Port_out 0x80 0, Port_out 0xA0 0x11, Port_out 0x80 0,
      Port_out 0x21 off1, Port_out 0x80 0, Port_out 0xA1 off2, Port_out 0x80 0,
      Port_out 0x21 4, Port_out 0x80 0, Port_out 0xA1 2, Port_out 0x80 0,
      Port_out 0x21 1, Port_out 0x80 0, Port_out 0xA1 1, Port_out 0x80 0,
      Port_out 0x21 0, Port_out 0x80 0, Port_out 0xA1 0, Port_out 0x80 0,
      Port_in 0xA1, Port_out 0xA1 v, Port_in 0xA1, Port_out 0xA1 w])"
proof -
  have m: "fst (mask_port 0x20) = 0xA1" "fst (mask_port 0x21) = 0xA1" by (simp_all add: mask_port_def pic_ports)
  obtain f where f: "\<And>irq h. run_state (PIC_clear_mask ub dev irq) h =
      ((), h @ [Port_in (fst (mask_port irq)), Port_out (fst (mask_port irq)) (f irq h)])"
    using run_clear_mask by metis
  show ?thesis
    by (simp add: PIC_remap_def PIC_disable_def f m pic_ports ICW1_INIT_def ICW1_ICW4_def ICW4_8086_def io_simps)
qed

text \<open>
  C32. As \<open>apic_init\<close> calls it, the remapping followed by the masking leaves both controllers,
  whatever state they were in and whatever the devices answer, initialised for the 8086, with
  the given vector offsets and the cascade wiring of a PC, and with every interrupt masked.
\<close>
theorem pic_remap_then_disable:
  "let h' = snd (run_state (do { PIC_remap ub dev off1 off2; PIC_disable }) h)
   in pic1_after h' c = \<lparr>pic_phase = Ready, pic_icw4 = True, pic_vector = off1, pic_cascade = 4, pic_imr = 0xff\<rparr> \<and>
      pic2_after h' c = \<lparr>pic_phase = Ready, pic_icw4 = True, pic_vector = off2, pic_cascade = 2, pic_imr = 0xff\<rparr>"
proof -
  obtain v w where r: "run_state (PIC_remap ub dev off1 off2) h = ((), h @
     [Port_in 0x21, Port_in 0xA1, Port_out 0x21 0xff, Port_out 0xA1 0xff,
      Port_out 0x20 0x11, Port_out 0x80 0, Port_out 0xA0 0x11, Port_out 0x80 0,
      Port_out 0x21 off1, Port_out 0x80 0, Port_out 0xA1 off2, Port_out 0x80 0,
      Port_out 0x21 4, Port_out 0x80 0, Port_out 0xA1 2, Port_out 0x80 0,
      Port_out 0x21 1, Port_out 0x80 0, Port_out 0xA1 1, Port_out 0x80 0,
      Port_out 0x21 0, Port_out 0x80 0, Port_out 0xA1 0, Port_out 0x80 0,
      Port_in 0xA1, Port_out 0xA1 v, Port_in 0xA1, Port_out 0xA1 w])"
    using run_PIC_remap by blast
  show ?thesis
    by (cases "pic_phase (pic1_after h c)"; cases "pic_phase (pic2_after h c)")
      (simp_all add: r io_simps PIC_disable_def pic1_after_def pic2_after_def pic_ports pic_after_append pic_chip Let_def)
qed

text \<open>
  The two calls at the end of the remapping are given vectors where the function expects a line
  of the controller: the shifted bit is above the byte and the write changes nothing.
\<close>

lemma clear_mask_vector:
  assumes "16 \<le> irq" "irq < 40"
  shows "run_state (PIC_clear_mask ub dev irq) h =
     ((), h @ [Port_in PIC2_DATA, Port_out PIC2_DATA (ucast (dev (h @ [Port_in PIC2_DATA])))])"
proof -
  have i: "\<not> irq < 8" "8 \<le> unat (irq - 8)" "unat (irq - 8) < 32"
    using assms by (auto simp: word_less_nat_alt word_le_nat_alt unat_sub)
  have "ucast (ucast x AND NOT (int_shl1 ub (unat (irq - 8)))) = x" for x :: u8
    by (rule bit_word_eqI) (use i in \<open>auto simp: bit_simps int_shl1_def\<close>)
  then show ?thesis using i by (simp add: PIC_clear_mask_def mask_port_def io_simps)
qed

end
