(* ===== verification/Apic.thy ===== *)
theory Apic
  imports Acpi Isr Pic
begin

text \<open>
  \<^verbatim>\<open>src/kernel/apic/apic.c\<close> and \<^verbatim>\<open>src/kernel/apic/ioapic.c\<close> with their headers: the local APIC and the
  I/O APIC. Registers are reached through memory the device answers for (theory \<open>PortIO\<close>); the
  MADT entries are read through the pointers the theory \<open>Acpi\<close> records.
\<close>

section \<open>The local APIC\<close>

definition APIC_SPURIOUS_VECTOR_REG :: u32 where "APIC_SPURIOUS_VECTOR_REG = 0xf0"
definition APIC_ENABLE :: u32 where "APIC_ENABLE = 0x100"
definition SPURIOUS_INT :: u32 where "SPURIOUS_INT = 0xff"
definition LAPIC_ID_REG :: u32 where "LAPIC_ID_REG = 0x20"

record lapic_t =
  lapic_id :: u64
  lapic_base :: u64

definition lapic_read :: "device \<Rightarrow> u64 \<Rightarrow> u32 \<Rightarrow> u32 io_prog" where
  "lapic_read dev base reg = mmio_read32 dev (base + ucast reg)"

definition get_lapic_id :: "device \<Rightarrow> u64 \<Rightarrow> u8 io_prog" where
  "get_lapic_id dev base = do { v \<leftarrow> lapic_read dev base LAPIC_ID_REG; State_Monad.return (ucast v) }"

definition lapic_enable :: "u64 \<Rightarrow> unit io_prog" where
  "lapic_enable base = lapic_write base APIC_SPURIOUS_VECTOR_REG (APIC_ENABLE OR SPURIOUS_INT)"

text \<open>The entries recorded for a kind, and the fields of those the drivers use.\<close>

definition madt_entry :: "acpi_state \<Rightarrow> madt_kind \<Rightarrow> nat \<Rightarrow> u64" where
  "madt_entry s k i = load64 (h_mem (a_heap s)) (ac_tbl (acpi s) k + 8 * of_nat i)"

definition lapic_apic_id :: "mem \<Rightarrow> u64 \<Rightarrow> u8" where "lapic_apic_id m p = m (p + 3)"
definition ioapic_addr :: "mem \<Rightarrow> u64 \<Rightarrow> u32" where "ioapic_addr m p = load32 m (p + 4)"
definition ioapic_gsib :: "mem \<Rightarrow> u64 \<Rightarrow> u32" where "ioapic_gsib m p = load32 m (p + 8)"
definition ioso_irq :: "mem \<Rightarrow> u64 \<Rightarrow> u8" where "ioso_irq m p = m (p + 3)"
definition ioso_gsi :: "mem \<Rightarrow> u64 \<Rightarrow> u32" where "ioso_gsi m p = load32 m (p + 4)"

text \<open>The interrupt source overrides, as pairs of interrupt line and global number.\<close>

definition overrides :: "mem \<Rightarrow> acpi_state \<Rightarrow> (u8 \<times> u32) list" where
  "overrides m s = map (\<lambda>i. let p = madt_entry s Ioso_apic i in (ioso_irq m p, ioso_gsi m p))
     [0..<unat (ac_idx (acpi s) Ioso_apic)]"

text \<open>The registers \<open>cpuid\<close> leaves for the first leaf, in the order the assembly stores them.\<close>

record cpuid_registers_t =
  cpuid_eax :: u32
  cpuid_edx :: u32
  cpuid_ecx :: u32
  cpuid_ebx :: u32

definition CPUID_FEAT_EDX_APIC :: u32 where "CPUID_FEAT_EDX_APIC = push_bit 9 1"

definition apic_is_available :: "cpuid_registers_t \<Rightarrow> bool" where
  "apic_is_available regs \<longleftrightarrow> cpuid_edx regs AND CPUID_FEAT_EDX_APIC \<noteq> 0"

text \<open>
  \<open>has_apic\<close> is what \<open>apic_is_available\<close> answers, \<open>spurious\<close> the address of the handler.
\<close>

definition apic_init ::
    "int_shl \<Rightarrow> device \<Rightarrow> mem \<Rightarrow> u64 \<Rightarrow> u64 \<Rightarrow> bool \<Rightarrow> acpi_state \<Rightarrow> vmm \<Rightarrow> isr_state \<Rightarrow>
     (lapic_t \<times> vmm \<times> isr_state) res" where
  "apic_init ub dev m cr3 spurious has_apic a vm is =
     (if \<not> has_apic then Inl (Assertion ''apic_is_available()'')
      else let base = ucast (madt_lapic_addr m (ac_madt (acpi a)));
               id = ucast (lapic_apic_id m (madt_entry a Proc_lapic 0))
           in bindE (virt_map_page (virt_current_pd cr3) base base (ucast PAGE_DEFAULT) vm) (\<lambda>(_, vm1).
              let h1 = snd (run_state (do {
                     PIC_remap ub dev PIC1_REMAP_OFFSET PIC2_REMAP_OFFSET;
                     PIC_disable;
                     lapic_enable base }) (i_io is))
              in Inr (\<lparr>lapic_id = id, lapic_base = base\<rparr>, vm1,
                   register_interupt_handler (ucast SPURIOUS_INT) spurious (is\<lparr>i_io := h1\<rparr>))))"

section \<open>The I/O APIC\<close>

definition IOAPICVER :: u32 where "IOAPICVER = 0x01"
definition IDT_EXCEPTIONS :: nat where "IDT_EXCEPTIONS = 32"
definition NUM_IRQ :: nat where "NUM_IRQ = 16"

text \<open>The register of an entry is kept in a byte.\<close>

definition IOAPICREDTBL :: "u8 \<Rightarrow> u8" where "IOAPICREDTBL n = 0x10 + 2 * n"

record ioapic_t =
  io_idx :: u64
  io_base :: u64
  gsi_base :: u32
  max_redir :: u8

definition ioapic_read :: "device \<Rightarrow> u64 \<Rightarrow> u32 \<Rightarrow> u32 io_prog" where
  "ioapic_read dev base reg = do { mmio_write32 base reg; mmio_read32 dev (base + 0x10) }"

definition ioapic_write :: "u64 \<Rightarrow> u32 \<Rightarrow> u32 \<Rightarrow> unit io_prog" where
  "ioapic_write base reg data = do { mmio_write32 base reg; mmio_write32 (base + 0x10) data }"

text \<open>The upper half is shifted by 31, as a 32-bit number.\<close>

definition ioapic_read_redtbl_entry :: "device \<Rightarrow> u64 \<Rightarrow> u8 \<Rightarrow> u64 io_prog" where
  "ioapic_read_redtbl_entry dev base entry = do {
     let offset = IOAPICREDTBL entry;
     lo \<leftarrow> ioapic_read dev base (ucast offset);
     hi \<leftarrow> ioapic_read dev base (ucast offset + 1);
     State_Monad.return (ucast lo OR ucast (push_bit 31 hi)) }"

definition ioapic_mask_gsi :: "device \<Rightarrow> ioapic_t \<Rightarrow> u8 \<Rightarrow> u32 io_prog" where
  "ioapic_mask_gsi dev io idx = do {
     data \<leftarrow> ioapic_read_redtbl_entry dev (io_base io) idx;
     if max_redir io < idx then State_Monad.return 1
     else do {
       ioapic_write (io_base io) (ucast (IOAPICREDTBL idx)) (ucast (data OR push_bit 16 1));
       State_Monad.return 0 } }"

definition ioapic_unmask_gsi :: "device \<Rightarrow> ioapic_t \<Rightarrow> u8 \<Rightarrow> u32 io_prog" where
  "ioapic_unmask_gsi dev io idx = do {
     data \<leftarrow> ioapic_read_redtbl_entry dev (io_base io) idx;
     if max_redir io < idx then State_Monad.return 1
     else do {
       ioapic_write (io_base io) (ucast (IOAPICREDTBL idx)) (ucast (data AND NOT (push_bit 16 1)));
       State_Monad.return 0 } }"

text \<open>The first override of the line decides; without one the line is its own number.\<close>

definition gsi_of :: "(u8 \<times> u32) list \<Rightarrow> u8 \<Rightarrow> u8" where
  "gsi_of ovs irq = (if irq = 0 then irq else case map_of ovs irq of None \<Rightarrow> irq | Some gsi \<Rightarrow> ucast gsi)"

definition ioapic_mask :: "device \<Rightarrow> ioapic_t \<Rightarrow> (u8 \<times> u32) list \<Rightarrow> u8 \<Rightarrow> u32 io_prog" where
  "ioapic_mask dev io ovs irq = ioapic_mask_gsi dev io (gsi_of ovs irq)"

definition ioapic_unmask :: "device \<Rightarrow> ioapic_t \<Rightarrow> (u8 \<times> u32) list \<Rightarrow> u8 \<Rightarrow> u32 io_prog" where
  "ioapic_unmask dev io ovs irq = ioapic_unmask_gsi dev io (gsi_of ovs irq)"

fun for_each :: "nat list \<Rightarrow> (nat \<Rightarrow> 'a io_prog) \<Rightarrow> unit io_prog" where
  "for_each [] p = State_Monad.return ()"
| "for_each (i # is) p = do { p i; for_each is p }"

definition ioapic_mask_all :: "device \<Rightarrow> ioapic_t \<Rightarrow> (u8 \<times> u32) list \<Rightarrow> unit io_prog" where
  "ioapic_mask_all dev io ovs = for_each [IDT_EXCEPTIONS..<IDT_EXCEPTIONS + NUM_IRQ] (\<lambda>i. ioapic_mask dev io ovs (of_nat i))"

definition ioapic_unmask_all :: "device \<Rightarrow> ioapic_t \<Rightarrow> (u8 \<times> u32) list \<Rightarrow> unit io_prog" where
  "ioapic_unmask_all dev io ovs = for_each [IDT_EXCEPTIONS..<IDT_EXCEPTIONS + NUM_IRQ] (\<lambda>i. ioapic_unmask dev io ovs (of_nat i))"

text \<open>The bit fields of a redirection entry the driver sets: vector, mask, destination.\<close>

definition set_redirection :: "u8 \<Rightarrow> u64 \<Rightarrow> u64" where
  "set_redirection vector raw =
     (let r1 = (raw AND NOT 0xff) OR ucast (vector + of_nat IDT_EXCEPTIONS);
          r2 = r1 OR push_bit 16 1
      in take_bit 56 r2)"

text \<open>The entry as its bit fields, which the union overlays on the raw word.\<close>

record redirection_entry =
  red_vector :: u8
  delivery_m :: "3 word"
  destination_m :: bool
  status_m :: bool
  polarity :: bool
  irr :: bool
  trigger :: bool
  red_mask :: bool
  red_reserved :: "39 word"
  destination :: u8

definition entry_of_raw :: "u64 \<Rightarrow> redirection_entry" where
  "entry_of_raw raw = \<lparr>red_vector = ucast raw, delivery_m = ucast (drop_bit 8 raw), destination_m = bit raw 11,
     status_m = bit raw 12, polarity = bit raw 13, irr = bit raw 14, trigger = bit raw 15, red_mask = bit raw 16,
     red_reserved = ucast (drop_bit 17 raw), destination = ucast (drop_bit 56 raw)\<rparr>"

lemma set_redirection_entry:
  "entry_of_raw (set_redirection vector raw) =
     (entry_of_raw raw)\<lparr>red_vector := vector + of_nat IDT_EXCEPTIONS, red_mask := True, destination := 0\<rparr>"
proof -
  have m: "(0xff :: u64) = mask 8" by (simp add: mask_eq_exp_minus_1)
  let ?v = "vector + of_nat IDT_EXCEPTIONS"
  have b: "bit (set_redirection vector raw) n \<longleftrightarrow> n < 56 \<and> (n < 8 \<and> bit ?v n \<or> 8 \<le> n \<and> bit raw n \<or> n = 16)" if "n < 64" for n
    unfolding set_redirection_def Let_def m bit_take_bit_iff bit_or_iff bit_and_iff bit_not_iff bit_mask_iff
      bit_push_bit_iff bit_1_iff bit_unsigned_iff using that bit_imp_le_length [of ?v n] by auto
  have "ucast (set_redirection vector raw) = ?v"
    by (rule bit_word_eqI) (simp add: bit_simps b)
  moreover have "(ucast (drop_bit 8 (set_redirection vector raw)) :: 3 word) = ucast (drop_bit 8 raw)"
    by (rule bit_word_eqI) (simp add: bit_simps b)
  moreover have "(ucast (drop_bit 17 (set_redirection vector raw)) :: 39 word) = ucast (drop_bit 17 raw)"
    by (rule bit_word_eqI) (simp add: bit_simps b)
  moreover have "(ucast (drop_bit 56 (set_redirection vector raw)) :: u8) = 0"
    by (rule bit_word_eqI) (simp add: bit_simps b)
  ultimately show ?thesis by (simp add: entry_of_raw_def b)
qed

definition ioapic_map_redtbl_entry :: "device \<Rightarrow> u64 \<Rightarrow> u8 \<Rightarrow> u8 \<Rightarrow> unit io_prog" where
  "ioapic_map_redtbl_entry dev base entry vector = do {
     raw \<leftarrow> ioapic_read_redtbl_entry dev base entry;
     let data = set_redirection vector raw;
     let offset = IOAPICREDTBL entry;
     ioapic_write base (ucast offset) (ucast data);
     ioapic_write base (ucast offset + 1) (ucast (drop_bit 32 data)) }"

text \<open>
  The first loop of \<open>ioapic_init\<close> counts a byte up to \<open>max_redir + 1\<close>, an \<open>int\<close>: for 255 it
  does not end.
\<close>

partial_function (option) mask_loop :: "device \<Rightarrow> ioapic_t \<Rightarrow> u8 \<Rightarrow> io \<Rightarrow> io option" where
  "mask_loop dev io i h =
     (if unat i < unat (max_redir io) + 1
      then mask_loop dev io (i + 1) (snd (run_state (ioapic_mask_gsi dev io i) h))
      else Some h)"

fun map_overrides :: "device \<Rightarrow> u64 \<Rightarrow> (u8 \<times> u32) list \<Rightarrow> unit io_prog" where
  "map_overrides dev base [] = State_Monad.return ()"
| "map_overrides dev base ((irq, gsi) # ovs) = do {
     ioapic_map_redtbl_entry dev base (ucast gsi) irq;
     map_overrides dev base ovs }"

definition irq_mapped :: "(u8 \<times> u32) list \<Rightarrow> nat \<Rightarrow> bool" where
  "irq_mapped ovs i \<longleftrightarrow> i < 16 \<and> i \<in> unat ` snd ` set ovs"

definition map_identity :: "device \<Rightarrow> u64 \<Rightarrow> (u8 \<times> u32) list \<Rightarrow> unit io_prog" where
  "map_identity dev base ovs = for_each (filter (\<lambda>i. \<not> irq_mapped ovs i) [0..<NUM_IRQ])
     (\<lambda>i. ioapic_map_redtbl_entry dev base (of_nat i) (of_nat i))"

definition ioapic_setup :: "device \<Rightarrow> ioapic_t \<Rightarrow> (u8 \<times> u32) list \<Rightarrow> io \<Rightarrow> (ioapic_t \<times> io) res" where
  "ioapic_setup dev io0 ovs h0 =
     (let (ver, h1) = run_state (ioapic_read dev (io_base io0) IOAPICVER) h0;
          io = io0\<lparr>max_redir := ucast (drop_bit 16 ver + 1)\<rparr>
      in case mask_loop dev io 0 h1 of None \<Rightarrow> Inl Diverges
         | Some h2 \<Rightarrow> Inr (io, snd (run_state (do {
             map_overrides dev (io_base io) ovs;
             map_identity dev (io_base io) ovs }) h2)))"

definition ioapic_init ::
    "device \<Rightarrow> mem \<Rightarrow> u64 \<Rightarrow> acpi_state \<Rightarrow> vmm \<Rightarrow> io \<Rightarrow> (ioapic_t \<times> vmm \<times> io) res" where
  "ioapic_init dev m cr3 a vm h =
     (let p = madt_entry a Io_apic 0;
          io = \<lparr>io_idx = 0, io_base = ucast (ioapic_addr m p), gsi_base = ioapic_gsib m p, max_redir = 0\<rparr>
      in if \<not> io_base io + KERNEL_VADDR < KERNEL_VADDR + KERNEL_VADDR_SIZE
         then Inl (Assertion ''ioapic.base + KERNEL_VADDR < (KERNEL_VADDR + KERNEL_VADDR_SIZE)'')
         else bindE (virt_map_page (virt_current_pd cr3) (io_base io) (io_base io) (ucast PAGE_DEFAULT) vm) (\<lambda>(_, vm1).
              bindE (ioapic_setup dev io (overrides m a) h) (\<lambda>(io1, h1). Inr (io1, vm1, h1))))"

end
