(* ===== verification/AcpiStart.thy ===== *)
theory AcpiStart
  imports Apic VirtProps
begin

text \<open>
  \<^verbatim>\<open>acpi_init\<close> of \<^verbatim>\<open>src/kernel/acpi/acpi.c\<close> on the heap \<^verbatim>\<open>kmain\<close> hands it, the one with the freed test
  block: the seven arrays it allocates are apart, every entry of the MADT is recorded, and the
  first array lies over the header of the block it was made from.
\<close>

section \<open>Mapping a page to itself\<close>

lemma map_device:
  assumes "vm_ok r s" "2 \<le> tables_left s" "unat a < 2 ^ 48"
  obtains s' where "virt_map_page (virt_current_pd r) a a (ucast PAGE_DEFAULT) s = Inr (page_align a, s')"
    "vm_ok r s'" "tables_left s \<le> tables_left s' + 2"
    "\<And>v. mmu_walk (v_mem s') r v = (if same_page v a then Some (v AND mask 48) else mmu_walk (v_mem s) r v)"
proof -
  have "leaf_flags (ucast PAGE_DEFAULT)" by code_simp
  from map_to_itself [OF assms(1,2) this assms(3)] that show thesis
    unfolding virt_current_pd_def add.commute [of r] .
qed

section \<open>Drawing leaves the page tables alone\<close>

text \<open>The tables are reached through the window at the kernel's address; the framebuffer is below it.\<close>

definition same_window :: "mem \<Rightarrow> mem \<Rightarrow> bool" where
  "same_window m m' \<longleftrightarrow> (\<forall>a. unat KERNEL_VADDR \<le> unat a \<longrightarrow> m' a = m a)"

lemma same_window_pte:
  assumes "same_window m m'" "table_ok t" "i < 512"
  shows "pte m' t i = pte m t i"
proof -
  have t: "unat t + 4096 \<le> 2 ^ 30" using assms(2) by (simp add: table_ok_def)
  have i: "unat i < 512" using assms(3) by (simp add: word_less_nat_alt)
  have a: "unat (KERNEL_VADDR + t) = unat KERNEL_VADDR + unat t" by (rule unat_add_small) (use t in simp)
  have "8 * i = of_nat (8 * unat i)" by simp
  then have b: "unat (KERNEL_VADDR + t + 8 * i) = unat KERNEL_VADDR + unat t + 8 * unat i"
    using unat_add_of_nat [of "KERNEL_VADDR + t" "8 * unat i"] a t i by simp
  have "m' (KERNEL_VADDR + t + 8 * i + of_nat k) = m (KERNEL_VADDR + t + 8 * i + of_nat k)" if "k < 8" for k
  proof -
    have "unat (KERNEL_VADDR + t + 8 * i + of_nat k) = unat KERNEL_VADDR + unat t + 8 * unat i + k"
      using unat_add_of_nat [of "KERNEL_VADDR + t + 8 * i" k] b t i that by simp
    then show ?thesis using assms(1) by (simp add: same_window_def)
  qed
  then show ?thesis unfolding pte_def load64_def by (intro arg_cong [where f = of_le] load_bytes_cong)
qed

lemma tree_cong:
  assumes "\<And>t i. t \<in> insert r (A3 \<union> A2) \<Longrightarrow> i < 512 \<Longrightarrow> P' t i = P t i" "tree P r A3 A2"
  shows "tree P' r A3 A2" "lookup P' r v = lookup P r v"
proof -
  have c: "i < 512 \<Longrightarrow> P' r i = P r i" "t \<in> A3 \<Longrightarrow> i < 512 \<Longrightarrow> P' t i = P t i"
    "t \<in> A2 \<Longrightarrow> i < 512 \<Longrightarrow> P' t i = P t i" for t i using assms(1) by blast+
  show "tree P' r A3 A2" using assms(2) unfolding tree_def by (simp add: c)
  have n: "bit (P r i) 0 \<Longrightarrow> i < 512 \<Longrightarrow> next_table (P r i) \<in> A3"
    "t \<in> A3 \<Longrightarrow> bit (P t i) 0 \<Longrightarrow> i < 512 \<Longrightarrow> next_table (P t i) \<in> A2" for t i
    using assms(2) unfolding tree_def by blast+
  show "lookup P' r v = lookup P r v" unfolding lookup_def Let_def by (auto simp: c n page_index_lt)
qed

lemma vm_ok_same_window:
  assumes "vm_ok r s" "same_window (v_mem s) m'"
  shows "vm_ok r (s\<lparr>v_mem := m'\<rparr>)" "tables_left (s\<lparr>v_mem := m'\<rparr>) = tables_left s" "mmu_walk m' r v = mmu_walk (v_mem s) r v"
proof -
  obtain A3 A2 where inv: "vm_inv r A3 A2 s" using assms(1) by (auto simp: vm_ok_def)
  let ?s = "s\<lparr>v_mem := m'\<rparr>"
  have tr: "tree (pte (v_mem s)) r A3 A2" and pool: "pool_inv (insert r (A3 \<union> A2)) s" using inv by (auto simp: vm_inv_def)
  have "pte m' t i = pte (v_mem s) t i" if "t \<in> insert r (A3 \<union> A2)" "i < 512" for t i
    using tr that same_window_pte [OF assms(2)] by (auto simp: tree_def)
  note tr' = tree_cong [OF this tr]
  have cur: "page_in_window (cur_page s)" if "v_cur s \<noteq> 0" using pool that by (simp add: pool_inv_def block_inv_def)
  have cp: "cur_page ?s = cur_page s" by (simp add: cur_page_def)
  have tail: "tail_table pg = dir_table pg 511" for pg by (simp add: tail_table_def dir_table_def)
  have cnt: "pool_count ?s = pool_count s" if "v_cur s \<noteq> 0"
    using same_window_pte [OF assms(2)] dir_table_facts(1) [OF cur [OF that], of 511] by (simp add: pool_count_def cp tail)
  have "empty_table (pte m') (dir_table (cur_page s) j) = empty_table (pte (v_mem s)) (dir_table (cur_page s) j)"
    if "v_cur s \<noteq> 0" "j < 511" for j
    using same_window_pte [OF assms(2)] dir_table_facts(1) [OF cur [OF that(1)], of j] that(2) by (simp add: empty_table_def)
  then have "pool_inv (insert r (A3 \<union> A2)) ?s" using pool cnt by (simp add: pool_inv_def block_inv_def cp)
  with tr'(1) have "vm_inv r A3 A2 ?s" by (simp add: vm_inv_def)
  then show "vm_ok r ?s" by (auto simp: vm_ok_def)
  show "tables_left ?s = tables_left s" using cnt by (simp add: tables_left_def)
  show "mmu_walk m' r v = mmu_walk (v_mem s) r v"
    using mmu_walk_lookup [OF tr] mmu_walk_lookup [OF tr'(1)] tr'(2) by simp
qed

section \<open>The heap at the start\<close>

definition first_block :: u64 where "first_block = HEAP_VIRT + PAGE_SIZE"

definition test_freed :: "kheap \<Rightarrow> bool" where
  "test_freed h \<longleftrightarrow> heap_inv h \<and> heap_blocks h = [first_block] \<and>
     hdr_available (h_mem h) first_block = HEAP_HEAD_AVAILABLE \<and> hdr_block_size (h_mem h) first_block = 524"

lemma first_block_nat: "unat first_block = HEAP_BASE" "unat (first_block + 8) = HEAP_BASE + 8"
  by (simp_all add: first_block_def HEAP_VIRT_def PAGE_SIZE_def heap_numbers)

lemma test_freed_addr:
  assumes "test_freed h"
  shows "unat (h_addr h) = HEAP_BASE + 537"
proof -
  have "chain (h_mem h) HEAP_BASE (sort (heap_blocks h)) (unat (h_addr h))" "heap_blocks h = [first_block]"
    "hdr_block_size (h_mem h) first_block = 524" using assms by (auto simp: test_freed_def heap_inv_def)
  then show ?thesis by (simp add: block_len_def)
qed

lemma all_used_kmalloc:
  assumes inv: "heap_inv h" and used: "\<forall>b\<in>set (heap_blocks h). hdr_available (h_mem h) b = HEAP_HEAD_IN_USE"
    and room: "unat (h_addr h) + 25 + unat sz \<le> HEAP_LIMIT"
  obtains h' where "kmalloc sz h = Inr (h_addr h + 13, h')" "heap_inv h'"
    "\<forall>b\<in>set (heap_blocks h'). hdr_available (h_mem h') b = HEAP_HEAD_IN_USE"
    "unat (h_addr h') = unat (h_addr h) + 25 + unat sz"
proof -
  have no: "\<forall>b\<in>set (heap_blocks h). \<not> fits sz (h_mem h) b"
    using used by (simp add: fits_def HEAP_HEAD_IN_USE_def HEAP_HEAD_AVAILABLE_def)
  have room': "unat (h_addr h) + unat sz + 25 \<le> HEAP_LIMIT" using room by linarith
  have lim: "unat (h_addr h) + 25 + unat sz < 2 ^ 64" and sz: "unat sz + 25 < 2 ^ 64"
    using room by (simp_all add: heap_numbers)
  from inv sz obtain a where a: "h_allocs h = Some a" and eq: "kmalloc sz h = malloc_new sz a h"
    by (cases rule: kmalloc_cases) (use no room' in auto)
  from malloc_new_ok [OF inv a room'] obtain f where f: "malloc_new sz a h = Inr (h_addr h + 13,
       h\<lparr>h_addr := h_addr h + sz + 13 + 12, h_mem := block_bytes (h_addr h) sz (h_mem h),
         h_allocs := Some (a\<lparr>oa_items := f, oa_idx := oa_idx a + 1\<rparr>)\<rparr>)" (is "_ = Inr (_, ?h)")
    "unat (h_addr h + sz + 13 + 12) = unat (h_addr h) + 25 + unat sz" by blast
  from malloc_new_inv [OF inv a room'] f(1) have h': "heap_inv ?h"
    "mset (heap_blocks ?h) = add_mset (h_addr h) (mset (heap_blocks h))" by (auto simp only: sum.inject prod.inject)
  have "set (heap_blocks ?h) = insert (h_addr h) (set (heap_blocks h))"
    using arg_cong [OF h'(2), of set_mset] by simp
  moreover have "hdr_available (h_mem ?h) (h_addr h) = HEAP_HEAD_IN_USE"
    using block_bytes_new(3) [OF lim] by simp
  moreover have "hdr_available (h_mem ?h) b = HEAP_HEAD_IN_USE" if "b \<in> set (heap_blocks h)" for b
  proof -
    note ok = heap_inv_block [OF inv that]
    have "unat b + 25 \<le> unat (h_addr h)" using ok(3) block_len_ge [OF ok(1)] by linarith
    moreover from this have "unat (b + 4) = unat b + 4" using lim unat_offset [of b 4] by simp
    ultimately have "block_bytes (h_addr h) sz (h_mem h) (b + 4) = h_mem h (b + 4)"
      by (intro block_bytes_new(5) [OF lim]) simp
    then show ?thesis using used that by (simp add: hdr_available_def)
  qed
  ultimately show thesis using that [of ?h] eq f h'(1) by simp
qed

lemma test_freed_kmalloc:
  assumes "test_freed h" "unat sz \<le> 512"
  obtains h' where "kmalloc sz h = Inr (first_block + 8, h')" "heap_inv h'"
    "\<forall>b\<in>set (heap_blocks h'). hdr_available (h_mem h') b = HEAP_HEAD_IN_USE" "unat (h_addr h') = HEAP_BASE + 537"
proof -
  have inv: "heap_inv h" and bl: "heap_blocks h = [first_block]" using assms(1) by (auto simp: test_freed_def)
  have fit: "fits sz (h_mem h) first_block"
    using assms by (simp add: fits_def test_freed_def sizeof_footer_def word_le_nat_alt)
  have sz: "unat sz + 25 < 2 ^ 64" using assms(2) by simp
  let ?h = "h\<lparr>h_mem := store8 (first_block + 4) HEAP_HEAD_IN_USE (h_mem h)\<rparr>"
  from inv sz have "kmalloc sz h = Inr (first_block + 8, ?h)"
    by (cases rule: kmalloc_cases) (use fit bl in auto)
  moreover have "heap_inv ?h" using heap_set_available(1) [OF inv, of first_block] bl by simp
  moreover have "heap_blocks ?h = [first_block]" using bl by (simp add: heap_blocks_def)
  moreover have "hdr_available (h_mem ?h) first_block = HEAP_HEAD_IN_USE" by (simp add: hdr_available_def store8_def)
  ultimately show thesis using that test_freed_addr [OF assms(1)] by simp
qed

section \<open>The seven arrays\<close>

lemma alloc_tables_all_used:
  assumes "heap_inv (a_heap s)" "\<forall>b\<in>set (heap_blocks (a_heap s)). hdr_available (h_mem (a_heap s)) b = HEAP_HEAD_IN_USE"
    and "unat (h_addr (a_heap s)) + 281 * length ks \<le> HEAP_LIMIT" "distinct ks"
  shows "\<exists>s'. alloc_tables ks s = Inr s' \<and> acpi s' = (acpi s)\<lparr>ac_tbl := ac_tbl (acpi s')\<rparr> \<and>
    (\<forall>i < length ks. unat (ac_tbl (acpi s') (ks ! i)) = unat (h_addr (a_heap s)) + 13 + 281 * i) \<and>
    (\<forall>k. k \<notin> set ks \<longrightarrow> ac_tbl (acpi s') k = ac_tbl (acpi s) k)"
  using assms
proof (induction ks arbitrary: s)
  case (Cons k ks)
  let ?h = "a_heap s"
  have room: "unat (h_addr ?h) + 25 + unat ACPI_APIC_TBL_SIZE \<le> HEAP_LIMIT"
    using Cons.prems(3) by (simp add: ACPI_APIC_TBL_SIZE_def)
  obtain h' where h': "kmalloc ACPI_APIC_TBL_SIZE ?h = Inr (h_addr ?h + 13, h')" "heap_inv h'"
    "\<forall>b\<in>set (heap_blocks h'). hdr_available (h_mem h') b = HEAP_HEAD_IN_USE"
    "unat (h_addr h') = unat (h_addr ?h) + 25 + unat ACPI_APIC_TBL_SIZE"
    using all_used_kmalloc [OF Cons.prems(1,2) room] by blast
  have addr: "unat (h_addr h') = unat (h_addr ?h) + 281" using h'(4) by (simp add: ACPI_APIC_TBL_SIZE_def)
  let ?s = "s\<lparr>acpi := (acpi s)\<lparr>ac_tbl := (ac_tbl (acpi s))(k := h_addr ?h + 13)\<rparr>, a_heap := h'\<rparr>"
  have heap: "a_heap ?s = h'" by simp
  have room': "unat (h_addr h') + 281 * length ks \<le> HEAP_LIMIT" using Cons.prems(3) addr by simp
  have dist: "distinct ks" "k \<notin> set ks" using Cons.prems(4) by simp_all
  from Cons.IH [of ?s] obtain s' where s': "alloc_tables ks ?s = Inr s'"
    "acpi s' = (acpi ?s)\<lparr>ac_tbl := ac_tbl (acpi s')\<rparr>"
    "\<forall>i < length ks. unat (ac_tbl (acpi s') (ks ! i)) = unat (h_addr h') + 13 + 281 * i"
    "\<forall>j. j \<notin> set ks \<longrightarrow> ac_tbl (acpi s') j = ac_tbl (acpi ?s) j"
    using h'(2,3) room' dist(1) unfolding heap by blast
  have k: "unat (ac_tbl (acpi s') k) = unat (h_addr ?h) + 13"
    using s'(4) dist(2) unat_offset [of "h_addr ?h" 13] room by (simp add: heap_numbers)
  have "unat (ac_tbl (acpi s') ((k # ks) ! i)) = unat (h_addr ?h) + 13 + 281 * i" if "i < length (k # ks)" for i
    using that k s'(3) addr by (cases i) auto
  then show ?case using h'(1) s' by (intro exI [of _ s']) simp
qed simp

lemma start_tables:
  assumes "test_freed (a_heap s)"
  obtains s' where "alloc_tables ACPI_TABLES s = Inr s'" "acpi s' = (acpi s)\<lparr>ac_tbl := ac_tbl (acpi s')\<rparr>"
    "ac_tbl (acpi s') Proc_lapic = first_block + 8" "tables_apart (ac_tbl (acpi s'))"
proof -
  have "unat ACPI_APIC_TBL_SIZE \<le> 512" by (simp add: ACPI_APIC_TBL_SIZE_def)
  with assms obtain h' where h': "kmalloc ACPI_APIC_TBL_SIZE (a_heap s) = Inr (first_block + 8, h')" "heap_inv h'"
    "\<forall>b\<in>set (heap_blocks h'). hdr_available (h_mem h') b = HEAP_HEAD_IN_USE" "unat (h_addr h') = HEAP_BASE + 537"
    by (rule test_freed_kmalloc)
  let ?s = "s\<lparr>acpi := (acpi s)\<lparr>ac_tbl := (ac_tbl (acpi s))(Proc_lapic := first_block + 8)\<rparr>, a_heap := h'\<rparr>"
  let ?ks = "[Io_apic, Ioso_apic, Ionmi_apic, Nmi_lapic, Addro_lapic, Procx2_lapic]"
  have "unat (h_addr (a_heap ?s)) + 281 * length ?ks \<le> HEAP_LIMIT" using h'(4) by (simp add: heap_numbers)
  from alloc_tables_all_used [OF _ _ this] h'(2,3) obtain s' where s': "alloc_tables ?ks ?s = Inr s'"
    "acpi s' = (acpi ?s)\<lparr>ac_tbl := ac_tbl (acpi s')\<rparr>"
    "\<forall>i < length ?ks. unat (ac_tbl (acpi s') (?ks ! i)) = unat (h_addr h') + 13 + 281 * i"
    "\<forall>k. k \<notin> set ?ks \<longrightarrow> ac_tbl (acpi s') k = ac_tbl (acpi ?s) k" by auto
  have p: "ac_tbl (acpi s') Proc_lapic = first_block + 8" using s'(4) by simp
  have u: "unat (ac_tbl (acpi s') Proc_lapic) = HEAP_BASE + 8" using p first_block_nat(2) by simp
  have "unat (ac_tbl (acpi s') k) = HEAP_BASE + (case k of Proc_lapic \<Rightarrow> 8 | Io_apic \<Rightarrow> 550 | Ioso_apic \<Rightarrow> 831
      | Ionmi_apic \<Rightarrow> 1112 | Nmi_lapic \<Rightarrow> 1393 | Addro_lapic \<Rightarrow> 1674 | Procx2_lapic \<Rightarrow> 1955)" for k
    using s'(3) [THEN spec, of 0] s'(3) [THEN spec, of 1] s'(3) [THEN spec, of 2] s'(3) [THEN spec, of 3]
      s'(3) [THEN spec, of 4] s'(3) [THEN spec, of 5] u h'(4) by (cases k) simp_all
  then have "tables_apart (ac_tbl (acpi s'))"
    unfolding tables_apart_def by (auto simp: heap_numbers split: madt_kind.splits)
  moreover have "alloc_tables ACPI_TABLES s = Inr s'" using h'(1) s'(1) by (simp add: ACPI_TABLES_def)
  ultimately show thesis using that p s'(2) by simp
qed

section \<open>Initialisation\<close>

text \<open>
  What the code asks of the firmware: a root structure and an XSDT it accepts, and a MADT whose
  entries fill it exactly, at most 32 of a kind. The inst is the part of the state the search reads.
\<close>

definition xsdt_inst :: "u64 \<Rightarrow> acpi_inst" where
  "xsdt_inst x = acpi_zero\<lparr>ac_xsdt := x, ac_is_v2 := True\<rparr>"

definition firmware_ok :: "mem \<Rightarrow> acpi_literals \<Rightarrow> u64 \<Rightarrow> u64 \<Rightarrow> u64 list \<Rightarrow> bool" where
  "firmware_ok m lits rsdp madt ps \<longleftrightarrow> acpi_validate_rsdp m rsdp \<and> 2 \<le> rsdp_revision m rsdp \<and>
     (let x = rsdp_xsdt_addr m rsdp
      in x \<noteq> 0 \<and> unat x < 2 ^ 48 \<and> unat (sdt_length m x) < 2097152 \<and>
         lit_xsdt lits \<noteq> 0 \<and> cstr m (lit_xsdt lits) [88, 83, 68, 84] \<and> is_table m [88, 83, 68, 84] x \<and>
         acpi_find_tbl m (xsdt_inst x) (lit_apic lits) = Inr madt \<and> madt \<noteq> 0 \<and>
         entries_at m (madt_table madt) ps (madt + ucast (sdt_length m madt))) \<and>
     (\<forall>k. length (of_kind m k ps) \<le> 32)"

lemma start_madt:
  assumes f: "test_freed (a_heap s)" and z: "\<forall>k. ac_idx (acpi s) k = 0"
    and "acpi_find_tbl m (acpi s) str = Inr madt" "madt \<noteq> 0"
    and e: "entries_at m (madt_table madt) ps (madt + ucast (sdt_length m madt))" and n: "\<forall>k. length (of_kind m k ps) \<le> 32"
  obtains s' where "acpi_init_madt m str s = Inr s'" "recorded m ps s'" "ac_madt (acpi s') = madt"
    "ac_xsdt (acpi s') = ac_xsdt (acpi s)" "ac_is_v2 (acpi s') = ac_is_v2 (acpi s)"
    "ac_tbl (acpi s') Proc_lapic = first_block + 8"
proof -
  let ?s1 = "s\<lparr>acpi := (acpi s)\<lparr>ac_madt := madt\<rparr>\<rparr>"
  have "test_freed (a_heap ?s1)" using f by simp
  then obtain s2 where s2: "alloc_tables ACPI_TABLES ?s1 = Inr s2" "acpi s2 = (acpi ?s1)\<lparr>ac_tbl := ac_tbl (acpi s2)\<rparr>"
    "ac_tbl (acpi s2) Proc_lapic = first_block + 8" "tables_apart (ac_tbl (acpi s2))" by (rule start_tables)
  let ?s3 = "fold (madt_record m) ps s2"
  note inst = arg_cong [OF s2(2)]
  have "ac_idx (acpi s2) k = 0" for k using inst [of ac_idx] z by simp
  then have "recorded m [] s2" by (simp add: recorded_def of_kind_def)
  then have rec: "recorded m ([] @ ps) ?s3" using s2(4) n by (intro recorded_fold) simp_all
  have keep: "ac_madt (acpi (fold (madt_record m) qs t)) = ac_madt (acpi t) \<and> ac_xsdt (acpi (fold (madt_record m) qs t)) = ac_xsdt (acpi t) \<and>
      ac_is_v2 (acpi (fold (madt_record m) qs t)) = ac_is_v2 (acpi t) \<and> ac_tbl (acpi (fold (madt_record m) qs t)) = ac_tbl (acpi t)" for qs t
    by (induction qs arbitrary: t) (simp_all add: madt_record_def Let_def split: option.splits)
  have "acpi_init_madt m str s = Inr ?s3"
    using assms(3,4) s2(1) madt_loop_entries [OF e, of s2] by (simp add: acpi_init_madt_def Let_def)
  then show thesis
    using rec s2(3) keep [of ps s2] inst [of ac_madt] inst [of ac_xsdt] inst [of ac_is_v2]
    by (intro that [of ?s3]) simp_all
qed

lemma acpi_init_ok:
  assumes "vm_ok r vm" "2 \<le> tables_left vm" "test_freed h" and fw: "firmware_ok m lits rsdp madt ps"
  obtains a vm' where "acpi_init m r lits rsdp h vm = Inr (a, vm')" "vm_ok r vm'" "tables_left vm \<le> tables_left vm' + 2"
    "\<forall>v. mmu_walk (v_mem vm') r v =
       (if same_page v (rsdp_xsdt_addr m rsdp) then Some (v AND mask 48) else mmu_walk (v_mem vm) r v)"
    "recorded m ps a" "ac_madt (acpi a) = madt" "ac_xsdt (acpi a) = rsdp_xsdt_addr m rsdp" "ac_is_v2 (acpi a)"
    "ac_tbl (acpi a) Proc_lapic = first_block + 8"
proof -
  define x where "x = rsdp_xsdt_addr m rsdp"
  have fw': "acpi_validate_rsdp m rsdp" "2 \<le> rsdp_revision m rsdp" "x \<noteq> 0" "unat x < 2 ^ 48" "unat (sdt_length m x) < 2097152"
    "lit_xsdt lits \<noteq> 0" "cstr m (lit_xsdt lits) [88, 83, 68, 84]" "is_table m [88, 83, 68, 84] x"
    "acpi_find_tbl m (xsdt_inst x) (lit_apic lits) = Inr madt" "madt \<noteq> 0"
    "entries_at m (madt_table madt) ps (madt + ucast (sdt_length m madt))" "\<forall>k. length (of_kind m k ps) \<le> 32"
    using fw by (simp_all add: firmware_ok_def Let_def x_def)
  from map_device [OF assms(1,2) fw'(4)] obtain vm' where
    v: "virt_map_page (virt_current_pd r) x x (ucast PAGE_DEFAULT) vm = Inr (page_align x, vm')"
      "vm_ok r vm'" "tables_left vm \<le> tables_left vm' + 2"
      "\<And>v. mmu_walk (v_mem vm') r v = (if same_page v x then Some (v AND mask 48) else mmu_walk (v_mem vm) r v)" by blast
  let ?s = "\<lparr>acpi = acpi_zero\<lparr>ac_rsdp := rsdp, ac_is_v2 := True, ac_rsdt := x, ac_xsdt := x, ac_debug_madt := True\<rparr>, a_heap = h\<rparr>"
  have z: "\<forall>k. ac_idx (acpi ?s) k = 0" by (simp add: acpi_zero_def)
  have find: "acpi_find_tbl m (acpi ?s) (lit_apic lits) = Inr madt"
    using fw'(9) by (simp add: acpi_find_tbl_def xsdt_inst_def xsdt_entries_def)
  have "test_freed (a_heap ?s)" using assms(3) by simp
  from start_madt [OF this z find fw'(10-12)] obtain a where
    a: "acpi_init_madt m (lit_apic lits) ?s = Inr a" "recorded m ps a" "ac_madt (acpi a) = madt"
      "ac_xsdt (acpi a) = ac_xsdt (acpi ?s)" "ac_is_v2 (acpi a) = ac_is_v2 (acpi ?s)"
      "ac_tbl (acpi a) Proc_lapic = first_block + 8" by blast
  have len: "(ucast (sdt_length m x) :: u64) < PAGE_SIZE"
    using fw'(5) by (simp add: word_less_nat_alt PAGE_SIZE_def unsigned_ucast_eq take_bit_nat_eq_self)
  have "acpi_validate_checksum m x" "acpi_validate_sig m x (lit_xsdt lits) = Inr True"
    using fw'(8) signature_ok [OF fw'(7) _ fw'(6,3)] by (simp_all add: is_table_def checksum_iff)
  then have "acpi_init m r lits rsdp h vm = Inr (a, vm')"
    unfolding acpi_init_def x_def [symmetric] by (simp add: fw'(1,2) v(1) len a(1) Let_def)
  then show thesis using that v(2-4) a(2-6) unfolding x_def by simp
qed


lemma load64_tail: "drop_bit 24 (load64 m a) = take_bit 40 (load64 m (a + of_nat 3))"
proof (rule bit_word_eqI)
  fix n :: nat
  show "bit (drop_bit 24 (load64 m a)) n \<longleftrightarrow> bit (take_bit 40 (load64 m (a + of_nat 3))) n"
  proof (cases "n < 40")
    case True
    then have "n div 8 < 5" by simp
    moreover have "(24 + n) div 8 = n div 8 + 3" "(24 + n) mod 8 = n mod 8" by presburger+
    moreover have "a + of_nat 3 + of_nat (n div 8) = a + of_nat (n div 8 + 3)" by simp
    ultimately show ?thesis using True
      by (simp add: load64_def bit_of_le bit_take_bit_iff bit_drop_bit_eq ac_simps)
  qed (simp add: load64_def bit_of_le bit_take_bit_iff bit_drop_bit_eq)
qed

text \<open>
  C28. The first array is the freed test block, whose pointer is 5 bytes before the end of its header:
  the first local APIC's pointer overwrites the upper five bytes of the block's size.
\<close>
theorem acpi_init_overwrites_block_size:
  assumes "vm_ok r vm" "2 \<le> tables_left vm" "test_freed h" "firmware_ok m lits rsdp madt ps"
    and "of_kind m Proc_lapic ps = p # qs"
  shows "\<exists>a vm'. acpi_init m r lits rsdp h vm = Inr (a, vm') \<and>
    drop_bit 24 (hdr_block_size (h_mem h) first_block) = 0 \<and>
    drop_bit 24 (hdr_block_size (h_mem (a_heap a)) first_block) = take_bit 40 p"
proof -
  obtain a vm' where a: "acpi_init m r lits rsdp h vm = Inr (a, vm')" "recorded m ps a"
      "ac_tbl (acpi a) Proc_lapic = first_block + 8"
    by (rule acpi_init_ok [OF assms(1-4)]) (rule that; assumption)
  let ?m = "h_mem (a_heap a)"
  have "\<forall>j < length (of_kind m Proc_lapic ps). load64 ?m (ac_tbl (acpi a) Proc_lapic + 8 * of_nat j) = of_kind m Proc_lapic ps ! j"
    using a(2) unfolding recorded_def by blast
  from spec [OF this, of 0] have p: "load64 ?m (first_block + 8) = p" using a(3) assms(5) by simp
  have "drop_bit 24 (load64 ?m (first_block + 5)) = take_bit 40 (load64 ?m (first_block + 5 + of_nat 3))"
    by (rule load64_tail)
  moreover have "drop_bit 24 (hdr_block_size (h_mem h) first_block) = 0"
    using assms(3) by (simp add: test_freed_def)
  ultimately show ?thesis using a(1) p by (auto simp: hdr_block_size_def add.assoc)
qed

end
