(* ===== verification/IoApicProps.thy ===== *)
theory IoApicProps
  imports Apic
begin

text \<open>
  What the set-up of the I/O APIC leaves in the chip. The chip is a register selector and a
  file of registers, as its data sheet describes it, and is followed through the writes of the
  history; what it answers to the driver's reads is arbitrary.
\<close>

section \<open>The chip\<close>

record ioapic_chip =
  c_sel :: u8
  c_regs :: "u8 \<Rightarrow> u32"

definition chip_event :: "u64 \<Rightarrow> io_event \<Rightarrow> ioapic_chip \<Rightarrow> ioapic_chip" where
  "chip_event b e c = (case e of
       Mmio_write a v \<Rightarrow> if a = b then c\<lparr>c_sel := ucast v\<rparr>
         else if a = b + 0x10 then c\<lparr>c_regs := (c_regs c)(c_sel c := v)\<rparr> else c
     | _ \<Rightarrow> c)"

definition chip_after :: "u64 \<Rightarrow> io \<Rightarrow> ioapic_chip \<Rightarrow> ioapic_chip" where
  "chip_after b h c = fold (chip_event b) h c"

definition regs_after :: "u64 \<Rightarrow> ioapic_chip \<Rightarrow> io \<Rightarrow> u8 \<Rightarrow> u32" where
  "regs_after b c h = c_regs (chip_after b h c)"

text \<open>The registers of a redirection entry.\<close>

definition lo_reg :: "nat \<Rightarrow> u8" where "lo_reg e = of_nat (16 + 2 * e)"
definition hi_reg :: "nat \<Rightarrow> u8" where "hi_reg e = of_nat (17 + 2 * e)"

lemma regs_distinct:
  assumes "e < 120" "e' < 120"
  shows "lo_reg e = lo_reg e' \<longleftrightarrow> e = e'" "hi_reg e = hi_reg e' \<longleftrightarrow> e = e'" "lo_reg e \<noteq> hi_reg e'" "hi_reg e \<noteq> lo_reg e'"
proof -
  have l: "unat (lo_reg e) = 16 + 2 * e" "unat (lo_reg e') = 16 + 2 * e'"
    and h: "unat (hi_reg e) = 17 + 2 * e" "unat (hi_reg e') = 17 + 2 * e'"
    using assms unfolding lo_reg_def hi_reg_def by (intro unat_of_nat_small; simp)+
  show "lo_reg e = lo_reg e' \<longleftrightarrow> e = e'" "hi_reg e = hi_reg e' \<longleftrightarrow> e = e'"
    using l h by (auto simp: word_unat_eq_iff)
  have "16 + 2 * e \<noteq> 17 + 2 * e'" "17 + 2 * e \<noteq> 16 + 2 * e'" by presburger+
  then show "lo_reg e \<noteq> hi_reg e'" "hi_reg e \<noteq> lo_reg e'" using l h by (auto simp: word_unat_eq_iff)
qed

lemma redtbl_regs:
  assumes "unat e < 120"
  shows "IOAPICREDTBL e = lo_reg (unat e)" "(ucast (ucast (IOAPICREDTBL e) + 1 :: u32) :: u8) = hi_reg (unat e)"
    "(ucast (ucast (IOAPICREDTBL e) :: u32) :: u8) = lo_reg (unat e)"
proof -
  have "of_nat (unat e) = e" by simp
  then show l: "IOAPICREDTBL e = lo_reg (unat e)" by (simp add: IOAPICREDTBL_def lo_reg_def del: of_nat_unat)
  show "(ucast (ucast (IOAPICREDTBL e) :: u32) :: u8) = lo_reg (unat e)"
    unfolding l by (rule bit_word_eqI) (auto simp: bit_simps)
  have u: "unat (lo_reg (unat e)) = 16 + 2 * unat e" unfolding lo_reg_def using assms by (intro unat_of_nat_small) simp
  have "(ucast (lo_reg (unat e)) :: u32) = of_nat (16 + 2 * unat e)" using u by (metis of_nat_unat)
  then have "(ucast (lo_reg (unat e)) + 1 :: u32) = of_nat (17 + 2 * unat e)" by simp
  moreover have "unat (of_nat (17 + 2 * unat e) :: u32) = 17 + 2 * unat e"
    using assms by (intro unat_of_nat_small) simp
  then have "(ucast (of_nat (17 + 2 * unat e) :: u32) :: u8) = hi_reg (unat e)"
    unfolding hi_reg_def by (metis of_nat_unat)
  ultimately show "(ucast (ucast (IOAPICREDTBL e) + 1 :: u32) :: u8) = hi_reg (unat e)" unfolding l by simp
qed

lemma base_differs: "(b :: u64) + 0x10 \<noteq> b" by simp

lemma chip_write:
  "chip_after b (h @ [Mmio_write b r, Mmio_write (b + 0x10) v]) c =
     \<lparr>c_sel = ucast r, c_regs = (regs_after b c h)(ucast r := v)\<rparr>"
  by (simp add: chip_after_def chip_event_def regs_after_def)

text \<open>Reads move the selector only.\<close>

lemma regs_select: "regs_after b c (h @ [Mmio_write b r, Mmio_read a]) = regs_after b c h"
  by (simp add: chip_after_def chip_event_def regs_after_def)

lemma regs_write: "regs_after b c (h @ [Mmio_write b r, Mmio_write (b + 0x10) v]) = (regs_after b c h)(ucast r := v)"
  by (simp add: regs_after_def [of _ _ "h @ _"] chip_write)

section \<open>Reading and writing an entry\<close>

lemma run_ioapic_read:
  "\<exists>v. run_state (ioapic_read dev b r) h = (v, h @ [Mmio_write b r, Mmio_read (b + 0x10)])"
  by (simp add: ioapic_read_def io_simps)

lemma run_ioapic_write:
  "run_state (ioapic_write b r v) h = ((), h @ [Mmio_write b r, Mmio_write (b + 0x10) v])"
  by (simp add: ioapic_write_def io_simps)

lemma run_read_redtbl:
  "\<exists>raw h'. run_state (ioapic_read_redtbl_entry dev b e) h = (raw, h') \<and> drop_bit 32 raw = 0 \<and>
     regs_after b c h' = regs_after b c h"
proof -
  let ?o = "ucast (IOAPICREDTBL e) :: u32"
  obtain lo where lo: "run_state (ioapic_read dev b ?o) h = (lo, h @ [Mmio_write b ?o, Mmio_read (b + 0x10)])"
    using run_ioapic_read by blast
  obtain hi where hi: "run_state (ioapic_read dev b (?o + 1)) (h @ [Mmio_write b ?o, Mmio_read (b + 0x10)]) =
      (hi, (h @ [Mmio_write b ?o, Mmio_read (b + 0x10)]) @ [Mmio_write b (?o + 1), Mmio_read (b + 0x10)])"
    using run_ioapic_read by blast
  let ?raw = "ucast lo OR ucast (push_bit 31 hi) :: u64"
  have "drop_bit 32 ?raw = 0" by (rule bit_word_eqI) (auto simp: bit_simps dest: bit_imp_le_length)
  moreover have "run_state (ioapic_read_redtbl_entry dev b e) h =
      (?raw, (h @ [Mmio_write b ?o, Mmio_read (b + 0x10)]) @ [Mmio_write b (?o + 1), Mmio_read (b + 0x10)])"
    by (simp only: ioapic_read_redtbl_entry_def Let_def io_simps lo hi prod.case)
  ultimately show ?thesis by (metis regs_select)
qed

lemma set_redirection_fields:
  assumes "drop_bit 32 raw = 0"
  shows "bit (ucast (set_redirection v raw) :: u32) 16" "take_bit 8 (ucast (set_redirection v raw) :: u32) = ucast (v + 32)"
    "(ucast (drop_bit 32 (set_redirection v raw)) :: u32) = 0"
proof -
  have m: "(0xff :: u64) = mask 8" by (simp add: mask_eq_exp_minus_1)
  have "(65536 :: int) = 2 ^ 16" by simp
  then have e: "bit (65536 :: int) n \<longleftrightarrow> n = 16" for n by (simp only: bit_exp_iff) auto
  have hi: "\<not> bit raw n" if "32 \<le> n" for n
  proof -
    have "bit (drop_bit 32 raw) (n - 32) = bit (0 :: u64) (n - 32)" using assms by simp
    then show ?thesis using that by (simp add: bit_simps)
  qed
  show "bit (ucast (set_redirection v raw) :: u32) 16"
    by (simp add: set_redirection_def Let_def bit_simps)
  have "bit (set_redirection v raw) n \<longleftrightarrow> bit (v + 32) n" if "n < 8" for n
    unfolding set_redirection_def Let_def m IDT_EXCEPTIONS_def using that
    by (auto simp: bit_simps e)
  note low = this
  show "take_bit 8 (ucast (set_redirection v raw) :: u32) = ucast (v + 32)"
  proof (rule bit_word_eqI)
    fix n assume "n < LENGTH(32)"
    then show "bit (take_bit 8 (ucast (set_redirection v raw) :: u32)) n = bit (ucast (v + 32) :: u32) n"
      using low [of n] bit_imp_le_length [of "v + 32" n] by (cases "n < 8") (auto simp: bit_simps)
  qed
  show "(ucast (drop_bit 32 (set_redirection v raw)) :: u32) = 0"
    unfolding set_redirection_def Let_def m IDT_EXCEPTIONS_def
    by (rule bit_word_eqI) (auto simp: bit_simps hi dest: bit_imp_le_length)
qed

text \<open>An entry is masked; it has a vector, is masked, and has no destination.\<close>

definition masked :: "(u8 \<Rightarrow> u32) \<Rightarrow> nat \<Rightarrow> bool" where "masked rs e \<longleftrightarrow> bit (rs (lo_reg e)) 16"

definition routed :: "(u8 \<Rightarrow> u32) \<Rightarrow> nat \<Rightarrow> u8 \<Rightarrow> bool" where
  "routed rs e v \<longleftrightarrow> masked rs e \<and> take_bit 8 (rs (lo_reg e)) = ucast v \<and> rs (hi_reg e) = 0"

definition same_entry :: "(u8 \<Rightarrow> u32) \<Rightarrow> (u8 \<Rightarrow> u32) \<Rightarrow> nat \<Rightarrow> bool" where
  "same_entry rs rs' e \<longleftrightarrow> rs (lo_reg e) = rs' (lo_reg e) \<and> rs (hi_reg e) = rs' (hi_reg e)"

lemma run_map_entry:
  assumes "unat e < 120"
  shows "\<exists>h'. run_state (ioapic_map_redtbl_entry dev b e v) h = ((), h') \<and> routed (regs_after b c h') (unat e) (v + 32) \<and>
    (\<forall>k<120. k \<noteq> unat e \<longrightarrow> same_entry (regs_after b c h') (regs_after b c h) k)"
proof -
  obtain raw h1 where r: "run_state (ioapic_read_redtbl_entry dev b e) h = (raw, h1)" "drop_bit 32 raw = 0"
    "regs_after b c h1 = regs_after b c h" using run_read_redtbl by blast
  let ?d = "set_redirection v raw" and ?o = "ucast (IOAPICREDTBL e) :: u32"
  let ?h2 = "h1 @ [Mmio_write b ?o, Mmio_write (b + 0x10) (ucast ?d)]"
  let ?h3 = "?h2 @ [Mmio_write b (?o + 1), Mmio_write (b + 0x10) (ucast (drop_bit 32 ?d))]"
  have run: "run_state (ioapic_map_redtbl_entry dev b e v) h = ((), ?h3)"
    by (simp only: ioapic_map_redtbl_entry_def Let_def io_simps r(1) prod.case run_ioapic_write)
  have regs: "regs_after b c ?h3 = (regs_after b c h)(lo_reg (unat e) := ucast ?d, hi_reg (unat e) := 0)"
    unfolding regs_write redtbl_regs(2,3) [OF assms] set_redirection_fields(3) [OF r(2)] r(3) by (rule refl)
  note f = set_redirection_fields [OF r(2), of v] and d = regs_distinct [OF _ assms] regs_distinct [OF assms assms]
  have "routed (regs_after b c ?h3) (unat e) (v + 32)"
    unfolding regs routed_def masked_def using f(1,2) d(7) by simp
  moreover have "\<forall>k<120. k \<noteq> unat e \<longrightarrow> same_entry (regs_after b c ?h3) (regs_after b c h) k"
    unfolding regs same_entry_def using d by simp
  ultimately show ?thesis using run by blast
qed

lemma run_mask_gsi:
  assumes "unat i < 120" "io_base io = b"
  shows "\<exists>r h'. run_state (ioapic_mask_gsi dev io i) h = (r, h') \<and>
    (i \<le> max_redir io \<longrightarrow> masked (regs_after b c h') (unat i)) \<and>
    (\<forall>k<120. masked (regs_after b c h) k \<longrightarrow> masked (regs_after b c h') k)"
proof -
  obtain raw h1 where r: "run_state (ioapic_read_redtbl_entry dev b i) h = (raw, h1)"
    "regs_after b c h1 = regs_after b c h" using run_read_redtbl by blast
  show ?thesis
  proof (cases "max_redir io < i")
    case True
    then have "run_state (ioapic_mask_gsi dev io i) h = (1, h1)"
      by (simp add: ioapic_mask_gsi_def io_simps assms(2) r(1))
    then show ?thesis using True r(2) by auto
  next
    case False
    let ?v = "ucast (raw OR push_bit 16 1) :: u32"
    let ?h2 = "h1 @ [Mmio_write b (ucast (IOAPICREDTBL i)), Mmio_write (b + 0x10) ?v]"
    have run: "run_state (ioapic_mask_gsi dev io i) h = (0, ?h2)"
      using False by (simp add: ioapic_mask_gsi_def io_simps assms(2) r(1) run_ioapic_write)
    have regs: "regs_after b c ?h2 = (regs_after b c h)(lo_reg (unat i) := ?v)"
      unfolding regs_write redtbl_regs(3) [OF assms(1)] r(2) by (rule refl)
    have "bit ?v 16" by (simp add: bit_simps)
    then have "masked (regs_after b c ?h2) (unat i)" "\<forall>k. masked (regs_after b c h) k \<longrightarrow> masked (regs_after b c ?h2) k"
      unfolding regs masked_def by simp_all
    then show ?thesis unfolding run by blast
  qed
qed

section \<open>The loops\<close>

lemma mask_loop_masks:
  assumes "unat (max_redir io) < 120" "io_base io = b" "unat i \<le> unat (max_redir io) + 1"
    "\<forall>k<unat i. masked (regs_after b c h) k"
  shows "\<exists>h'. mask_loop dev io i h = Some h' \<and> (\<forall>k\<le>unat (max_redir io). masked (regs_after b c h') k)"
  using assms(3,4)
proof (induction "unat (max_redir io) + 1 - unat i" arbitrary: i h)
  case 0
  then show ?case by (subst mask_loop.simps) simp
next
  case (Suc d)
  then have lt: "unat i < unat (max_redir io) + 1" by simp
  then have i: "unat i < 120" "i \<le> max_redir io" using assms(1) by (auto simp: word_le_nat_alt)
  have su: "unat (i + 1) = unat i + 1" using i(1) by (subst unat_add_small) auto
  obtain r h1 where h1: "run_state (ioapic_mask_gsi dev io i) h = (r, h1)" "masked (regs_after b c h1) (unat i)"
    "\<forall>k<120. masked (regs_after b c h) k \<longrightarrow> masked (regs_after b c h1) k"
    using run_mask_gsi [OF i(1) assms(2)] i(2) by blast
  have "\<forall>k<unat (i + 1). masked (regs_after b c h1) k"
  proof (intro allI impI)
    fix k assume "k < unat (i + 1)"
    then have "k = unat i \<or> k < unat i" using su by auto
    then show "masked (regs_after b c h1) k" using h1(2,3) Suc.prems(2) i(1) by auto
  qed
  then have "\<exists>h'. mask_loop dev io (i + 1) h1 = Some h' \<and> (\<forall>k\<le>unat (max_redir io). masked (regs_after b c h') k)"
    using Suc.hyps su lt by (intro Suc.hyps(1)) auto
  then show ?case using h1(1) lt by (subst mask_loop.simps) simp
qed

text \<open>The line an entry is for: the last override of its number, or its own.\<close>

definition last_line :: "(u8 \<times> u32) list \<Rightarrow> nat \<Rightarrow> u8 option" where
  "last_line ovs e = map_of (rev (map (\<lambda>(irq, gsi). (unat gsi, irq)) ovs)) e"

lemma last_line_simps [simp]:
  "last_line [] e = None"
  "last_line ((irq, gsi) # ovs) e =
     (case last_line ovs e of Some v \<Rightarrow> Some v | None \<Rightarrow> if unat gsi = e then Some irq else None)"
  by (simp_all add: last_line_def map_add_def split: option.splits)

lemma last_line_append: "last_line (xs @ ys) e = (case last_line ys e of Some v \<Rightarrow> Some v | None \<Rightarrow> last_line xs e)"
  by (simp add: last_line_def map_add_def split: option.splits)

lemma last_line_None: "last_line ovs e = None \<longleftrightarrow> e \<notin> unat ` snd ` set ovs"
  by (induction ovs) (auto split: option.splits)

lemma same_entry_trans: "same_entry a b e \<Longrightarrow> same_entry b c e \<Longrightarrow> same_entry a c e"
  by (simp add: same_entry_def)

lemma small_ucast: "unat (gsi :: u32) < 120 \<Longrightarrow> unat (ucast gsi :: u8) = unat gsi"
  by (simp add: unsigned_ucast_eq take_bit_nat_eq_self)

lemma run_map_overrides:
  assumes "\<forall>(irq, gsi)\<in>set ovs. unat gsi < 120"
  shows "\<exists>h'. run_state (map_overrides dev b ovs) h = ((), h') \<and>
    (\<forall>e<120. case last_line ovs e of
        None \<Rightarrow> same_entry (regs_after b c h') (regs_after b c h) e
      | Some irq \<Rightarrow> routed (regs_after b c h') e (irq + 32))"
  using assms
proof (induction ovs arbitrary: h)
  case Nil
  then show ?case by (simp add: io_simps same_entry_def)
next
  case (Cons ov ovs)
  obtain irq gsi where ov: "ov = (irq, gsi)" by (cases ov)
  then have g: "unat (ucast gsi :: u8) = unat gsi" "unat (ucast gsi :: u8) < 120"
    using Cons.prems small_ucast [of gsi] by auto
  obtain h1 where h1: "run_state (ioapic_map_redtbl_entry dev b (ucast gsi) irq) h = ((), h1)"
    "routed (regs_after b c h1) (unat gsi) (irq + 32)"
    "\<forall>k<120. k \<noteq> unat gsi \<longrightarrow> same_entry (regs_after b c h1) (regs_after b c h) k"
    using run_map_entry [OF g(2), of dev b irq h c] unfolding g(1) by blast
  have "\<exists>h'. run_state (map_overrides dev b ovs) h1 = ((), h') \<and>
    (\<forall>e<120. case last_line ovs e of
        None \<Rightarrow> same_entry (regs_after b c h') (regs_after b c h1) e
      | Some irq \<Rightarrow> routed (regs_after b c h') e (irq + 32))"
    by (rule Cons.IH) (use Cons.prems in auto)
  then obtain h' where h': "run_state (map_overrides dev b ovs) h1 = ((), h')"
    "\<And>e. e < 120 \<Longrightarrow> case last_line ovs e of
        None \<Rightarrow> same_entry (regs_after b c h') (regs_after b c h1) e
      | Some irq \<Rightarrow> routed (regs_after b c h') e (irq + 32)" by blast
  have "case last_line (ov # ovs) e of
        None \<Rightarrow> same_entry (regs_after b c h') (regs_after b c h) e
      | Some irq \<Rightarrow> routed (regs_after b c h') e (irq + 32)" if "e < 120" for e
  proof (cases "last_line ovs e")
    case None
    then have s: "same_entry (regs_after b c h') (regs_after b c h1) e" using h'(2) [OF that] by simp
    show ?thesis
    proof (cases "unat gsi = e")
      case True
      then show ?thesis using s h1(2) None by (simp add: ov routed_def masked_def same_entry_def)
    next
      case False
      then show ?thesis using s h1(3) that None by (auto simp: ov same_entry_def)
    qed
  next
    case (Some v)
    then show ?thesis using h'(2) [OF that] by (simp add: ov)
  qed
  moreover have "run_state (map_overrides dev b (ov # ovs)) h = ((), h')"
    by (simp add: ov io_simps h1(1) h'(1))
  ultimately show ?case by blast
qed

lemma map_overrides_append:
  "run_state (map_overrides dev b (xs @ ys)) h =
     (case run_state (map_overrides dev b xs) h of (_, h1) \<Rightarrow> run_state (map_overrides dev b ys) h1)"
proof (induction xs arbitrary: h)
  case (Cons x xs)
  then show ?case by (cases x) (simp add: io_simps split_def)
qed (simp add: io_simps)

definition identity_lines :: "(u8 \<times> u32) list \<Rightarrow> (u8 \<times> u32) list" where
  "identity_lines ovs = map (\<lambda>i. (of_nat i, of_nat i)) (filter (\<lambda>i. \<not> irq_mapped ovs i) [0..<NUM_IRQ])"

lemma identity_lines_small: "(irq, gsi) \<in> set (identity_lines ovs) \<Longrightarrow> unat gsi < 16"
  by (auto simp: identity_lines_def NUM_IRQ_def unat_of_nat_small)

lemma identity_lines_last:
  assumes e: "e < 16"
  shows "last_line (identity_lines ovs) e = (if irq_mapped ovs e then None else Some (of_nat e))"
proof -
  let ?is = "filter (\<lambda>i. \<not> irq_mapped ovs i) [0..<NUM_IRQ]"
  have ids: "unat (of_nat i :: u32) = i" if "i < 16" for i using that by (intro unat_of_nat_small) simp
  have "unat ` snd ` set (identity_lines ovs) = (\<lambda>i. unat (of_nat i :: u32)) ` {i. i < 16 \<and> \<not> irq_mapped ovs i}"
    by (simp add: identity_lines_def image_image NUM_IRQ_def Collect_conj_eq atLeast0LessThan lessThan_def)
  also have "\<dots> = id ` {i. i < 16 \<and> \<not> irq_mapped ovs i}" by (rule image_cong) (use ids in auto)
  finally have img: "unat ` snd ` set (identity_lines ovs) = {i. i < 16 \<and> \<not> irq_mapped ovs i}" by simp
  show ?thesis
  proof (cases "last_line (identity_lines ovs) e")
    case None
    then have "e \<notin> {i. i < 16 \<and> \<not> irq_mapped ovs i}" unfolding last_line_None img .
    then show ?thesis using None e by simp
  next
    case (Some v)
    then have "(e, v) \<in> set (rev (map (\<lambda>(irq, gsi). (unat gsi, irq)) (identity_lines ovs)))"
      unfolding last_line_def by (rule map_of_SomeD)
    then have "(e, v) \<in> (\<lambda>i. (unat (of_nat i :: u32), of_nat i)) ` set ?is"
      by (simp only: identity_lines_def set_rev set_map image_image prod.case)
    then obtain i where i: "e = unat (of_nat i :: u32)" "v = of_nat i" "i \<in> set ?is" by blast
    then have "i < 16" "\<not> irq_mapped ovs i" by (simp_all add: NUM_IRQ_def)
    then show ?thesis using Some i(1,2) ids [of i] by simp
  qed
qed

text \<open>The last loop is a mapping of each line to itself.\<close>

lemma map_identity_overrides:
  "map_identity dev b ovs = map_overrides dev b (identity_lines ovs)"
proof -
  have "(ucast (of_nat i :: u32) :: u8) = of_nat i" for i
    by (rule bit_word_eqI) (simp add: bit_simps bit_of_nat_iff)
  then have "for_each is (\<lambda>i. ioapic_map_redtbl_entry dev b (of_nat i) (of_nat i)) =
      map_overrides dev b (map (\<lambda>i. (of_nat i, of_nat i)) is)" for "is"
    by (induction "is") simp_all
  then show ?thesis by (simp add: map_identity_def identity_lines_def)
qed

section \<open>The set-up\<close>

text \<open>What the driver takes for the highest entry: one more than the chip answers, in a byte.\<close>

definition answered_max :: "device \<Rightarrow> u64 \<Rightarrow> io \<Rightarrow> u8" where
  "answered_max dev b h =
     ucast (drop_bit 16 (ucast (dev (h @ [Mmio_write b 1, Mmio_read (b + 0x10)])) :: u32) + 1)"

lemma ioapic_setup_ok:
  assumes "unat (answered_max dev (io_base io) h) < 120" and "\<forall>(irq, gsi)\<in>set ovs. unat gsi < 120"
  shows "\<exists>io' h'. ioapic_setup dev io ovs h = Inr (io', h') \<and> max_redir io' = answered_max dev (io_base io) h \<and>
    (\<forall>e\<le>unat (max_redir io'). masked (regs_after (io_base io) c h') e) \<and>
    (\<forall>e<16. routed (regs_after (io_base io) c h') e
       (32 + (case last_line ovs e of None \<Rightarrow> of_nat e | Some irq \<Rightarrow> irq)))"
proof -
  let ?b = "io_base io" and ?ids = "identity_lines ovs"
  define io1 where "io1 = io\<lparr>max_redir := answered_max dev ?b h\<rparr>"
  let ?h1 = "h @ [Mmio_write ?b 1, Mmio_read (?b + 0x10)]"
  have ver: "run_state (ioapic_read dev ?b IOAPICVER) h = (ucast (dev ?h1), ?h1)"
    by (simp add: ioapic_read_def IOAPICVER_def io_simps)
  have "\<exists>h'. mask_loop dev io1 0 ?h1 = Some h' \<and> (\<forall>k\<le>unat (max_redir io1). masked (regs_after ?b c h') k)"
    by (rule mask_loop_masks) (use assms(1) in \<open>simp_all add: io1_def\<close>)
  then obtain h2 where h2: "mask_loop dev io1 0 ?h1 = Some h2" "\<forall>k\<le>unat (max_redir io1). masked (regs_after ?b c h2) k"
    by blast
  have "\<forall>(irq, gsi)\<in>set (ovs @ ?ids). unat gsi < 120" using assms(2) by (fastforce dest: identity_lines_small)
  from run_map_overrides [OF this, of dev ?b h2 c] obtain h3 where
    h3: "run_state (map_overrides dev ?b (ovs @ ?ids)) h2 = ((), h3)"
    "\<And>e. e < 120 \<Longrightarrow> case last_line (ovs @ ?ids) e of
        None \<Rightarrow> same_entry (regs_after ?b c h3) (regs_after ?b c h2) e
      | Some irq \<Rightarrow> routed (regs_after ?b c h3) e (irq + 32)" by blast
  have set: "ioapic_setup dev io ovs h = Inr (io1, h3)"
    using ver h2(1) h3(1) map_overrides_append [of dev ?b ovs ?ids h2]
    by (simp add: ioapic_setup_def map_identity_overrides io_simps split_def io1_def answered_max_def)
  have m: "masked (regs_after ?b c h3) e" if "e \<le> unat (max_redir io1)" for e
  proof -
    have "e < 120" using that assms(1) by (simp add: io1_def)
    from h3(2) [OF this] show ?thesis
      using h2(2) that by (auto simp: routed_def masked_def same_entry_def split: option.splits)
  qed
  have "routed (regs_after ?b c h3) e (32 + (case last_line ovs e of None \<Rightarrow> of_nat e | Some irq \<Rightarrow> irq))" if e: "e < 16" for e
  proof -
    have "irq_mapped ovs e \<longleftrightarrow> last_line ovs e \<noteq> None" using e last_line_None by (auto simp: irq_mapped_def)
    then show ?thesis using h3(2) [of e] identity_lines_last [OF e] e
      by (cases "last_line ovs e") (simp_all add: last_line_append add.commute)
  qed
  then show ?thesis using set m by (auto simp: io1_def)
qed

text \<open>
  C29. The set-up of the I/O APIC ends, and leaves every entry it counts masked; the entries of
  the sixteen legacy lines are set to their vectors, 32 plus the line of the last interrupt
  source override of that entry or plus the entry's own number, masked and without
  destination. This holds for any answers of the chip with fewer than 120 entries (a chip has
  24) and any overrides of those entries.
\<close>
theorem ioapic_setup_entries:
  assumes "unat (answered_max dev (io_base io) h) < 120" and "\<forall>(irq, gsi)\<in>set ovs. unat gsi < 120"
  shows "\<exists>io' h'. ioapic_setup dev io ovs h = Inr (io', h') \<and> max_redir io' = answered_max dev (io_base io) h \<and>
    (\<forall>e\<le>unat (max_redir io'). masked (regs_after (io_base io) c h') e) \<and>
    (\<forall>e<16. routed (regs_after (io_base io) c h') e
       (32 + (case last_line ovs e of None \<Rightarrow> of_nat e | Some irq \<Rightarrow> irq)))"
  by (rule ioapic_setup_ok [OF assms])

section \<open>Witness\<close>

text \<open>A chip with 24 entries; line 0 is overridden to entry 2, as on a PC.\<close>

theorem ioapic_setup_entries_witness:
  "\<exists>io' h'. ioapic_setup (\<lambda>_. 0x170011) \<lparr>io_idx = 0, io_base = 0xfec00000, gsi_base = 0, max_redir = 0\<rparr> [(0, 2)] [] = Inr (io', h') \<and>
     routed (regs_after 0xfec00000 \<lparr>c_sel = 0, c_regs = (\<lambda>_. 0)\<rparr> h') 2 32 \<and>
     routed (regs_after 0xfec00000 \<lparr>c_sel = 0, c_regs = (\<lambda>_. 0)\<rparr> h') 9 41"
proof -
  let ?io = "\<lparr>io_idx = 0, io_base = 0xfec00000, gsi_base = 0, max_redir = 0\<rparr>"
  have "unat (answered_max (\<lambda>_. 0x170011) (io_base ?io) []) < 120" "\<forall>(irq, gsi)\<in>set [(0 :: u8, 2 :: u32)]. unat gsi < 120"
    by (simp_all add: answered_max_def)
  from ioapic_setup_entries [OF this, of "\<lparr>c_sel = 0, c_regs = (\<lambda>_. 0)\<rparr>"]
  obtain io' h' where r: "ioapic_setup (\<lambda>_. 0x170011) ?io [(0, 2)] [] = Inr (io', h')"
    "\<forall>e<16. routed (regs_after 0xfec00000 \<lparr>c_sel = 0, c_regs = (\<lambda>_. 0)\<rparr> h') e
       (32 + (case last_line [(0, 2)] e of None \<Rightarrow> of_nat e | Some irq \<Rightarrow> irq))" by auto
  from r(2) [THEN spec, of 2] r(2) [THEN spec, of 9] show ?thesis using r(1) by auto
qed

end
