(* ===== verification/Framebuffer.thy ===== *)
theory Framebuffer
  imports Prelude
begin

text \<open>
  \<^verbatim>\<open>include/kernel/driver/fb/framebuffer.h\<close>: the colours and the two patterns the kernel draws
  into the framebuffer, in byte memory. The loop counters are numbers.
\<close>

section \<open>The driver\<close>

text \<open>The arithmetic of \<open>HSVtoRGB\<close> is that of promoted \<open>int\<close>s, kept modulo \<open>2^32\<close>.\<close>

definition HSVtoRGB :: "u16 \<Rightarrow> u8 \<Rightarrow> u8 \<Rightarrow> u8 \<times> u8 \<times> u8" where
  "HSVtoRGB h s v =
     (if s = 0 then (v, v, v)
      else let region = ucast ((ucast h :: u32) div 43) :: u8;
               remainder = ucast (((ucast h :: u32) - ucast region * 43) * 6) :: u8;
               S = ucast s :: u32; V = ucast v :: u32; R = ucast remainder :: u32;
               p = ucast (drop_bit 8 (V * (255 - S))) :: u8;
               q = ucast (drop_bit 8 (V * (255 - drop_bit 8 (S * R)))) :: u8;
               t = ucast (drop_bit 8 (V * (255 - drop_bit 8 (S * (255 - R))))) :: u8
           in if region = 0 then (v, t, p)
              else if region = 1 then (q, v, p)
              else if region = 2 then (p, v, t)
              else if region = 3 then (p, q, v)
              else if region = 4 then (t, p, v)
              else (v, p, q))"

definition rgb_color :: "u8 \<times> u8 \<times> u8 \<Rightarrow> u32" where
  "rgb_color c = (case c of (r, g, b) \<Rightarrow> push_bit 16 (ucast r) OR push_bit 8 (ucast g) OR ucast b)"

definition test_hue :: "u32 \<Rightarrow> nat \<Rightarrow> u16" where
  "test_hue width x = ucast (of_nat x * 256 div width)"

definition animated_hue :: "u32 \<Rightarrow> u8 \<Rightarrow> nat \<Rightarrow> u16" where
  "animated_hue width cycle x = ucast (of_nat x * 256 div width + ucast cycle) mod 256"

text \<open>The index of a pixel is computed in 32 bits.\<close>

definition pixel :: "u64 \<Rightarrow> u32 \<Rightarrow> nat \<Rightarrow> nat \<Rightarrow> u64" where
  "pixel framebuffer pitch y x = framebuffer + 4 * ucast (of_nat y * (pitch div 4) + of_nat x :: u32)"

definition draw_row :: "(nat \<Rightarrow> u16) \<Rightarrow> u64 \<Rightarrow> u32 \<Rightarrow> u32 \<Rightarrow> nat \<Rightarrow> mem \<Rightarrow> mem" where
  "draw_row hue framebuffer width pitch y =
     fold (\<lambda>x. store32 (pixel framebuffer pitch y x) (rgb_color (HSVtoRGB (hue x) 255 255))) [0..<unat width]"

definition framebuffer_display_test_pattern :: "u64 \<Rightarrow> u32 \<Rightarrow> u32 \<Rightarrow> u32 \<Rightarrow> mem \<Rightarrow> mem" where
  "framebuffer_display_test_pattern framebuffer width height pitch =
     fold (draw_row (test_hue width) framebuffer width pitch) [0..<unat height]"

definition framebuffer_display_animated_pattern :: "u64 \<Rightarrow> u32 \<Rightarrow> u32 \<Rightarrow> u32 \<Rightarrow> u8 \<Rightarrow> mem \<Rightarrow> mem" where
  "framebuffer_display_animated_pattern framebuffer width height pitch cycle =
     fold (draw_row (animated_hue width cycle) framebuffer width pitch) [0..<unat height]"

section \<open>Stores at distinct places\<close>

definition stores :: "u64 \<Rightarrow> (nat \<times> u32) list \<Rightarrow> mem \<Rightarrow> mem" where
  "stores base ps = fold (\<lambda>(i, v). store32 (base + 4 * of_nat i) v) ps"

lemma word_slots_apart:
  assumes "i \<noteq> j" "i < 2 ^ 32" "j < 2 ^ 32"
  shows "apart (base + 4 * of_nat i) 4 (base + 4 * of_nat j) 4"
proof -
  have "4 * i + 4 \<le> 4 * j \<or> 4 * j + 4 \<le> 4 * i" using assms(1) by arith
  from apart_offsets [OF this, of base] assms(2,3) show ?thesis by simp
qed

lemma stores_value:
  assumes "distinct (map fst ps)" "\<forall>i\<in>fst ` set ps. i < 2 ^ 32" "(i, v) \<in> set ps"
  shows "load32 (stores base ps m) (base + 4 * of_nat i) = v"
  using assms
proof (induction ps arbitrary: m rule: rev_induct)
  case (snoc p ps)
  obtain j w where p: "p = (j, w)" by (cases p)
  show ?case
  proof (cases "(i, v) = p")
    case True
    then show ?thesis by (simp add: p stores_def mem_simps)
  next
    case False
    then have mem: "(i, v) \<in> set ps" using snoc.prems(3) by auto
    then have "i \<in> fst ` set ps" by force
    then have "i \<noteq> j" using snoc.prems(1) p by auto
    then have "apart (base + 4 * of_nat j) 4 (base + 4 * of_nat i) 4"
      using snoc.prems(2) p \<open>i \<in> fst ` set ps\<close> by (intro word_slots_apart) auto
    then show ?thesis using snoc mem p by (simp add: stores_def mem_simps)
  qed
qed simp

lemma stores_frame:
  assumes "\<forall>i\<in>fst ` set ps. 4 \<le> unat (a - (base + 4 * of_nat i))"
  shows "stores base ps m a = m a"
  using assms by (induction ps arbitrary: m rule: rev_induct) (auto simp: stores_def store32_def store_bytes_def)

section \<open>The picture\<close>

lemma fold_product: "fold (\<lambda>y. fold (f y) xs) ys m = fold (\<lambda>(y, x). f y x) (List.product ys xs) m"
proof (induction ys arbitrary: m)
  case (Cons y ys)
  have "fold (\<lambda>(y, x). f y x) (map (Pair y) xs) m = fold (f y) xs m" for m
    by (simp add: fold_map comp_def)
  then show ?case using Cons by simp
qed simp

text \<open>The rows fit below one another, and all of them in 32-bit indices.\<close>

definition picture_fits :: "u32 \<Rightarrow> u32 \<Rightarrow> u32 \<Rightarrow> bool" where
  "picture_fits width height pitch \<longleftrightarrow> width \<le> pitch div 4 \<and> unat width \<le> 2 ^ 24 \<and>
     unat height * unat (pitch div 4) < 2 ^ 32"

definition place :: "u32 \<Rightarrow> nat \<Rightarrow> nat \<Rightarrow> nat" where "place pitch y x = y * unat (pitch div 4) + x"

lemma place_less:
  assumes "picture_fits width height pitch" "x < unat width" "y < unat height"
  shows "place pitch y x < 2 ^ 32" "x < unat (pitch div 4)"
proof -
  let ?s = "unat (pitch div 4)"
  show x: "x < ?s" using assms by (auto simp: picture_fits_def word_le_nat_alt)
  have "y * ?s + x < Suc y * ?s" using x by simp
  also have "\<dots> \<le> unat height * ?s" using assms(3) by (intro mult_right_mono) simp_all
  also have "\<dots> < 2 ^ 32" using assms(1) by (simp add: picture_fits_def)
  finally show "place pitch y x < 2 ^ 32" by (simp add: place_def)
qed

lemma pixel_place:
  assumes "picture_fits width height pitch" "x < unat width" "y < unat height"
  shows "pixel fb pitch y x = fb + 4 * of_nat (place pitch y x)"
proof -
  have p: "place pitch y x < 2 ^ 32" by (rule place_less [OF assms])
  have "of_nat y * (pitch div 4) + of_nat x = (of_nat (place pitch y x) :: u32)"
    by (simp add: place_def)
  moreover have "ucast (of_nat (place pitch y x) :: u32) = (of_nat (place pitch y x) :: u64)"
  proof -
    have "unat (ucast (of_nat (place pitch y x) :: u32) :: u64) = place pitch y x"
      using p by (simp add: unsigned_ucast_eq unat_of_nat_small take_bit_nat_eq_self)
    moreover have "unat (of_nat (place pitch y x) :: u64) = place pitch y x" using p by (intro unat_of_nat_small) simp
    ultimately show ?thesis by (simp add: word_unat_eq_iff)
  qed
  ultimately show ?thesis by (simp add: pixel_def)
qed

definition picture :: "(nat \<Rightarrow> u32) \<Rightarrow> u32 \<Rightarrow> u32 \<Rightarrow> u32 \<Rightarrow> (nat \<times> u32) list" where
  "picture color width height pitch =
     map (\<lambda>(y, x). (place pitch y x, color x)) (List.product [0..<unat height] [0..<unat width])"

lemma rows_stores:
  assumes "picture_fits width height pitch"
  shows "fold (draw_row hue fb width pitch) [0..<unat height] m =
    stores fb (picture (\<lambda>x. rgb_color (HSVtoRGB (hue x) 255 255)) width height pitch) m"
proof -
  let ?c = "\<lambda>x. rgb_color (HSVtoRGB (hue x) 255 255)"
  have "fold (draw_row hue fb width pitch) [0..<unat height] m =
      fold (\<lambda>(y, x). store32 (pixel fb pitch y x) (?c x)) (List.product [0..<unat height] [0..<unat width]) m"
    unfolding fold_product [symmetric] by (rule fold_cong) (simp_all add: draw_row_def)
  also have "\<dots> = fold (\<lambda>(y, x). store32 (fb + 4 * of_nat (place pitch y x)) (?c x))
      (List.product [0..<unat height] [0..<unat width]) m"
    by (rule fold_cong) (use pixel_place [OF assms] in auto)
  also have "\<dots> = stores fb (picture ?c width height pitch) m"
    by (simp add: stores_def picture_def fold_map comp_def case_prod_unfold)
  finally show ?thesis .
qed

lemma picture_distinct:
  assumes "picture_fits width height pitch"
  shows "distinct (map fst (picture color width height pitch))"
    "\<forall>i\<in>fst ` set (picture color width height pitch). i < 2 ^ 32"
proof -
  let ?s = "unat (pitch div 4)"
  have inj: "inj_on (\<lambda>(y, x). place pitch y x) (set (List.product [0..<unat height] [0..<unat width]))"
  proof (rule inj_onI)
    fix a b assume a: "a \<in> set (List.product [0..<unat height] [0..<unat width])"
      and b: "b \<in> set (List.product [0..<unat height] [0..<unat width])"
      and eq: "(case a of (y, x) \<Rightarrow> place pitch y x) = (case b of (y, x) \<Rightarrow> place pitch y x)"
    have lt: "snd a < ?s" "snd b < ?s" using a b place_less(2) [OF assms] by auto
    have e: "fst a * ?s + snd a = fst b * ?s + snd b" using eq by (simp add: place_def case_prod_unfold)
    have "(fst a * ?s + snd a) div ?s = fst a" "(fst b * ?s + snd b) div ?s = fst b" using lt by simp_all
    then have "fst a = fst b" using e by simp
    with e show "a = b" by (simp add: prod_eq_iff)
  qed
  have "map fst (picture color width height pitch) =
      map (\<lambda>(y, x). place pitch y x) (List.product [0..<unat height] [0..<unat width])"
    by (simp add: picture_def case_prod_unfold comp_def)
  then show "distinct (map fst (picture color width height pitch))"
    using inj by (simp add: distinct_map distinct_product)
  show "\<forall>i\<in>fst ` set (picture color width height pitch). i < 2 ^ 32"
    using place_less(1) [OF assms] by (auto simp: picture_def)
qed

section \<open>The hues\<close>

lemma scaled_hue:
  fixes width :: u32
  assumes "x < unat width" "unat width \<le> 2 ^ 24"
  shows "unat (of_nat x * 256 div width) = x * 256 div unat width" "x * 256 div unat width < 256"
proof -
  have "unat (of_nat (x * 256) :: u32) = x * 256" using assms by (intro unat_of_nat_small) simp
  note u = this
  have "of_nat x * 256 div width = of_nat (x * 256) div width" by simp
  then have "unat (of_nat x * 256 div width) = unat (of_nat (x * 256) :: u32) div unat width" by (simp only: unat_div)
  then show "unat (of_nat x * 256 div width) = x * 256 div unat width" unfolding u .
  show "x * 256 div unat width < 256" using assms by (simp add: div_less_iff_less_mult)
qed

lemma animated_hue_eq:
  assumes "x < unat width" "unat width \<le> 2 ^ 24"
  shows "animated_hue width cycle x = of_nat ((x * 256 div unat width + unat cycle) mod 256)"
proof -
  have c2: "unat cycle < 256" using unsigned_less [of cycle] by simp
  then have c: "unat (ucast cycle :: u32) = unat cycle" "unat cycle < 256"
    by (simp_all add: unsigned_ucast_eq take_bit_nat_eq_self)
  let ?h = "of_nat x * 256 div width + ucast cycle :: u32"
  have h: "unat ?h = x * 256 div unat width + unat cycle"
    using scaled_hue [OF assms] c by (subst unat_add_small) simp_all
  have "unat (ucast ?h :: u16) = x * 256 div unat width + unat cycle"
    unfolding unsigned_ucast_eq h using scaled_hue(2) [OF assms] c(2) by (intro take_bit_nat_eq_self) simp
  then have "unat (animated_hue width cycle x) = (x * 256 div unat width + unat cycle) mod 256"
    by (simp add: animated_hue_def unat_mod)
  moreover have "unat (of_nat ((x * 256 div unat width + unat cycle) mod 256) :: u16) = (x * 256 div unat width + unat cycle) mod 256"
    by (intro unat_of_nat_small) (rule order.strict_trans [OF mod_less_divisor], simp_all)
  ultimately show ?thesis by (simp only: word_unat_eq_iff)
qed

lemma test_hue_eq:
  assumes "x < unat width" "unat width \<le> 2 ^ 24"
  shows "test_hue width x = animated_hue width 0 x"
proof -
  have "unat (test_hue width x) = x * 256 div unat width"
    unfolding test_hue_def unsigned_ucast_eq scaled_hue(1) [OF assms]
    using scaled_hue(2) [OF assms] by (intro take_bit_nat_eq_self) simp
  moreover have "unat (animated_hue width 0 x) = x * 256 div unat width"
    unfolding animated_hue_eq [OF assms] using scaled_hue(2) [OF assms] by (subst unat_of_nat_small) simp_all
  ultimately show ?thesis by (simp only: word_unat_eq_iff)
qed

definition saturated :: "u8 \<times> u8 \<times> u8 \<Rightarrow> bool" where
  "saturated c \<longleftrightarrow> (case c of (r, g, b) \<Rightarrow> 255 \<in> {r, g, b} \<and> 0 \<in> {r, g, b})"

lemma hues_saturated: "saturated (HSVtoRGB h 255 255)"
  by (simp add: HSVtoRGB_def saturated_def Let_def)

lemma patterns_drawn:
  assumes "picture_fits width height pitch"
  shows "let m' = framebuffer_display_animated_pattern fb width height pitch cycle m in
      (\<forall>y<unat height. \<forall>x<unat width.
         let c = HSVtoRGB (of_nat ((x * 256 div unat width + unat cycle) mod 256)) 255 255
         in load32 m' (fb + 4 * of_nat (y * unat (pitch div 4) + x)) = rgb_color c \<and> saturated c) \<and>
      (\<forall>a. (\<forall>y<unat height. \<forall>x<unat width. 4 \<le> unat (a - (fb + 4 * of_nat (y * unat (pitch div 4) + x)))) \<longrightarrow> m' a = m a) \<and>
      framebuffer_display_test_pattern fb width height pitch m = framebuffer_display_animated_pattern fb width height pitch 0 m"
proof -
  let ?c = "\<lambda>x. rgb_color (HSVtoRGB (animated_hue width cycle x) 255 255)"
  let ?ps = "picture ?c width height pitch"
  have w: "unat width \<le> 2 ^ 24" using assms by (simp add: picture_fits_def)
  have st: "framebuffer_display_animated_pattern fb width height pitch cycle m = stores fb ?ps m"
    unfolding framebuffer_display_animated_pattern_def by (rule rows_stores [OF assms])
  have 1: "load32 (stores fb ?ps m) (fb + 4 * of_nat (place pitch y x)) = ?c x"
    if "y < unat height" "x < unat width" for x y
    by (rule stores_value [OF picture_distinct [OF assms]]) (use that in \<open>auto simp: picture_def\<close>)
  have 2: "stores fb ?ps m a = m a"
    if "\<forall>y<unat height. \<forall>x<unat width. 4 \<le> unat (a - (fb + 4 * of_nat (place pitch y x)))" for a
    by (rule stores_frame) (use that in \<open>auto simp: picture_def\<close>)
  have row: "draw_row (test_hue width) fb width pitch = draw_row (animated_hue width 0) fb width pitch"
    unfolding draw_row_def by (intro ext fold_cong) (use test_hue_eq [OF _ w] in auto)
  have 3: "framebuffer_display_test_pattern fb width height pitch m = framebuffer_display_animated_pattern fb width height pitch 0 m"
    by (simp only: framebuffer_display_test_pattern_def framebuffer_display_animated_pattern_def row)
  have 4: "saturated (HSVtoRGB (animated_hue width cycle x) 255 255)" if "x < unat width" for x
    by (rule hues_saturated)
  show ?thesis
    unfolding Let_def st place_def [symmetric]
    using 1 2 3 4 animated_hue_eq [OF _ w, of _ cycle] by simp
qed

text \<open>
  C34. The patterns: when the rows of the picture fit below one another, every pixel of it gets
  the fully saturated colour of its hue, its place in the width turned by the cycle, no byte
  that is not of a pixel is written, and the test pattern is the animated one at cycle 0.
\<close>
theorem framebuffer_patterns:
  assumes "picture_fits width height pitch"
  shows "let m' = framebuffer_display_animated_pattern fb width height pitch cycle m in
      (\<forall>y<unat height. \<forall>x<unat width.
         let c = HSVtoRGB (of_nat ((x * 256 div unat width + unat cycle) mod 256)) 255 255
         in load32 m' (fb + 4 * of_nat (y * unat (pitch div 4) + x)) = rgb_color c \<and> saturated c) \<and>
      (\<forall>a. (\<forall>y<unat height. \<forall>x<unat width. 4 \<le> unat (a - (fb + 4 * of_nat (y * unat (pitch div 4) + x)))) \<longrightarrow> m' a = m a) \<and>
      framebuffer_display_test_pattern fb width height pitch m = framebuffer_display_animated_pattern fb width height pitch 0 m"
  by (rule patterns_drawn [OF assms])

section \<open>Witnesses\<close>

theorem framebuffer_patterns_witness:
  "let m' = framebuffer_display_animated_pattern 0xFD000000 4 2 32 128 (\<lambda>_. 0) in
     load32 m' (0xFD000000 + 4 * of_nat (1 * 8 + 2)) = rgb_color (255, 0, 0)"
proof -
  have f: "picture_fits 4 2 32" by (simp add: picture_fits_def)
  have "HSVtoRGB (of_nat ((2 * 256 div unat (4 :: u32) + unat (128 :: u8)) mod 256)) 255 255 = (255, 0, 0)" by code_simp
  moreover have "(1 :: nat) < unat (2 :: u32)" "(2 :: nat) < unat (4 :: u32)" "unat ((32 :: u32) div 4) = 8" by simp_all
  ultimately show ?thesis
    using framebuffer_patterns [OF f, where fb = "0xFD000000" and cycle = 128 and m = "\<lambda>_. 0", unfolded Let_def, THEN conjunct1, rule_format, of 1 2]
    unfolding Let_def by metis
qed

end
