(* ===== verification/Kmain.thy ===== *)
theory Kmain
  imports Boot AcpiStart IoApicProps Hpet Framebuffer
begin

text \<open>
  \<^verbatim>\<open>kmain\<close> of \<^verbatim>\<open>src/kernel/kernel.c\<close> after its tag loop: the start-up of the memory managers and of
  the interrupt hardware, in the order of the code. The page tables, the heap and the firmware's
  tables are in different regions of memory; each part keeps its view of its own.
\<close>

section \<open>Start-up\<close>

text \<open>
  What the code takes from elsewhere: the answers of the devices and of \<open>cpuid\<close>, the firmware's
  memory, the root of the page tables, addresses of code and literals, and the registers the
  stubs save at the two software interrupts.
\<close>

record start_env =
  e_shl :: int_shl
  e_dev :: device
  e_firmware :: mem
  e_cr3 :: u64
  e_cpuid :: cpuid_registers_t
  e_spurious :: u64
  e_test_handler :: u64
  e_hpet_str :: u64
  e_lits :: acpi_literals
  e_callp :: byte_call
  e_bootstrap_fn :: u64
  e_kfree_fn :: u64
  e_regs_3 :: registers_t
  e_regs_47 :: registers_t

definition start_memory :: "start_env \<Rightarrow> boot_state \<Rightarrow> (kernel_boot_t \<times> kheap \<times> vmm) res" where
  "start_memory env bs =
     (if b_total bs = 0 then Inl (Panic ''PMM Fail - No MB MMAP?'')
      else bindE (virtmem_init (e_cr3 env) (b_kboot bs) \<lparr>v_phys = b_pmm bs, v_mem = b_mem bs, v_cur = 0\<rparr>) (\<lambda>(kb, vm).
           let h = kalloc_init (e_callp env) (e_bootstrap_fn env) (e_kfree_fn env) (heap_boot (v_mem vm))
           in bindE (kmalloc 512 h) (\<lambda>(malloc_test, h1).
              bindE (kfree malloc_test h1) (\<lambda>(_, h2). Inr (kb, h2, vm)))))"

text \<open>The software interrupts arrive with their vector in \<open>int_no\<close>.\<close>

record started_kernel =
  k_lapic :: lapic_t
  k_ioapic :: ioapic_t
  k_hpet :: hpet_inst
  k_vm :: vmm
  k_isr :: isr_state

definition start_interrupts :: "start_env \<Rightarrow> acpi_state \<Rightarrow> vmm \<Rightarrow> isr_state \<Rightarrow> started_kernel res" where
  "start_interrupts env a vm is =
     bindE (apic_init (e_shl env) (e_dev env) (e_firmware env) (e_cr3 env) (e_spurious env) (apic_is_available (e_cpuid env)) a vm is)
       (\<lambda>(lapic, vm1, is1).
     bindE (ioapic_init (e_dev env) (e_firmware env) (e_cr3 env) a vm1 (i_io is1)) (\<lambda>(io, vm2, h2).
     bindE (hpet_init (e_dev env) (e_firmware env) (e_cr3 env) (e_hpet_str env) (acpi a) vm2 h2) (\<lambda>(hp, vm3, h3).
     bindE (isr_handler ((e_regs_3 env)\<lparr>int_no := 3\<rparr>) (is1\<lparr>i_io := h3\<rparr>)) (\<lambda>is2.
       let is3 = register_interupt_handler (ucast IRQ15) (e_test_handler env) is2
       in bindE (irq_handler (lapic_base lapic) ((e_regs_47 env)\<lparr>int_no := 47\<rparr>) is3) (\<lambda>is4.
          Inr \<lparr>k_lapic = lapic, k_ioapic = io, k_hpet = hp, k_vm = vm3, k_isr = is4\<rparr>)))))"

text \<open>With the kernel's record of the boot, which now has the address the framebuffer is mapped at.\<close>

definition kmain_start :: "start_env \<Rightarrow> boot_state \<Rightarrow> isr_state \<Rightarrow> (kernel_boot_t \<times> started_kernel) res" where
  "kmain_start env bs is =
     bindE (start_memory env bs) (\<lambda>(kb, h, vm).
       let vm1 = vm\<lparr>v_mem := framebuffer_display_test_pattern (fb_ptr kb) (ucast (fb_w kb)) (ucast (fb_h kb)) (ucast (fb_pitch kb)) (v_mem vm)\<rparr>
       in bindE (acpi_init (e_firmware env) (e_cr3 env) (e_lits env) (b_rsdp bs) h vm1) (\<lambda>(a, vm2).
          bindE (start_interrupts env a vm2 is) (\<lambda>k. Inr (kb, k))))"

section \<open>Memory\<close>

lemma first_kmalloc:
  assumes "heap_inv h" "heap_blocks h = []" "h_addr h = first_block"
  obtains h1 h2 where "kmalloc 512 h = Inr (first_block + 13, h1)" "kfree (first_block + 13) h1 = Inr (None, h2)" "test_freed h2"
proof -
  let ?b = "first_block"
  have small: "unat (512 :: u64) + 25 < 2 ^ 64" by simp
  have room: "unat (h_addr h) + unat (512 :: u64) + 25 \<le> HEAP_LIMIT"
    by (simp add: assms(3) first_block_nat heap_numbers)
  from assms(1) small obtain a where a: "h_allocs h = Some a" and eq: "kmalloc 512 h = malloc_new 512 a h"
    by (cases rule: kmalloc_cases) (use assms(2) room in auto)
  from malloc_new_inv [OF assms(1) a room] obtain h1 where
    h1: "kmalloc 512 h = Inr (?b + 13, h1)" "heap_inv h1" "h_mem h1 = block_bytes ?b 512 (h_mem h)"
      "mset (heap_blocks h1) = {#?b#}"
    using assms(2,3) eq by auto
  let ?h2 = "h1\<lparr>h_mem := store8 (?b + 4) HEAP_HEAD_AVAILABLE (h_mem h1)\<rparr>"
  have bl: "heap_blocks h1 = [?b]" using h1(4) by simp
  then have b: "?b \<in> set (heap_blocks h1)" by simp
  have free: "kfree (?b + 13) h1 = Inr (None, ?h2)" by (rule kfree_block [OF h1(2) b])
  moreover have "heap_inv ?h2" using heap_set_available(1) [OF h1(2) b] by simp
  moreover have "heap_blocks ?h2 = [?b]" using bl by (simp add: heap_blocks_def)
  moreover have "hdr_available (h_mem ?h2) ?b = HEAP_HEAD_AVAILABLE" by (simp add: hdr_available_def store8_def)
  moreover have "hdr_block_size (h_mem ?h2) ?b = 524"
  proof -
    have "unat ?b + 25 + unat (512 :: u64) < 2 ^ 64" by (simp add: first_block_nat heap_numbers)
    from block_bytes_new(2) [OF this] show ?thesis using heap_set_available(3) [OF h1(2) b b] h1(3) by simp
  qed
  ultimately have "test_freed ?h2" by (simp add: test_freed_def)
  with h1(1) free show ?thesis using that by blast
qed

lemma start_memory_ok:
  assumes "b_total bs \<noteq> 0" "vm_ok (e_cr3 env) \<lparr>v_phys = b_pmm bs, v_mem = b_mem bs, v_cur = 0\<rparr>"
    and "phys_malloc (PAGE_SIZE * 64) (b_pmm bs) = Inr (x, ph)"
    and "8 \<le> tables_left \<lparr>v_phys = ph, v_mem = b_mem bs, v_cur = 0\<rparr>"
    and "fb_h (b_kboot bs) * fb_pitch (b_kboot bs) < PAGE_SIZE * 4"
    and "unat (fb_addr (b_kboot bs)) + 4 * 2097152 \<le> 2 ^ 48"
  shows "\<exists>h vm. start_memory env bs = Inr ((b_kboot bs)\<lparr>fb_ptr := fb_addr (b_kboot bs)\<rparr>, h, vm) \<and>
     vm_ok (e_cr3 env) vm \<and> tables_left \<lparr>v_phys = ph, v_mem = b_mem bs, v_cur = 0\<rparr> \<le> tables_left vm + 8 \<and> test_freed h \<and>
     (\<forall>v. unat (page_align (fb_addr (b_kboot bs))) \<le> unat v \<and>
          unat v < unat (page_align (fb_addr (b_kboot bs))) + 4 * 2097152 \<longrightarrow>
          mmu_walk (v_mem vm) (e_cr3 env) v = Some v)"
proof -
  let ?s = "\<lparr>v_phys = b_pmm bs, v_mem = b_mem bs, v_cur = 0\<rparr>"
  let ?kb = "(b_kboot bs)\<lparr>fb_ptr := fb_addr (b_kboot bs)\<rparr>"
  have "phys_malloc (PAGE_SIZE * 64) (v_phys ?s) = Inr (x, ph)" "8 \<le> tables_left (?s\<lparr>v_phys := ph\<rparr>)"
    using assms(3,4) by simp_all
  from virtmem_init_ok [OF assms(2) this assms(5,6)] obtain vm where
    vm: "virtmem_init (e_cr3 env) (b_kboot bs) ?s = Inr (?kb, vm)" "vm_ok (e_cr3 env) vm"
      "tables_left (?s\<lparr>v_phys := ph\<rparr>) \<le> tables_left vm + 8"
    and map: "\<forall>v. unat (page_align (fb_addr (b_kboot bs))) \<le> unat v \<and>
          unat v < unat (page_align (fb_addr (b_kboot bs))) + 4 * 2097152 \<longrightarrow>
          mmu_walk (v_mem vm) (e_cr3 env) v = Some v" by blast
  let ?h = "kalloc_init (e_callp env) (e_bootstrap_fn env) (e_kfree_fn env) (heap_boot (v_mem vm))"
  have "heap_blocks ?h = []" "h_addr ?h = first_block"
    by (simp_all add: heap_blocks_def kalloc_init_def kmalloc_bootstrap_def Let_def oa_elems_def oarray_init_def first_block_def)
  from first_kmalloc [OF kalloc_init_inv(1) this] obtain h1 h2 where
    h: "kmalloc 512 ?h = Inr (first_block + 13, h1)" "kfree (first_block + 13) h1 = Inr (None, h2)" "test_freed h2" by blast
  have "start_memory env bs = Inr (?kb, h2, vm)"
    using assms(1) vm(1) h(1,2) by (simp add: start_memory_def Let_def)
  with vm(2,3) h(3) map show ?thesis by auto
qed

section \<open>Interrupts\<close>

lemma ucast_low: "unat (ucast (a :: u32) :: u64) < 2 ^ 48"
proof -
  have "unat a < 2 ^ LENGTH(32)" by (rule unsigned_less)
  then show ?thesis by (simp add: unsigned_ucast_eq take_bit_nat_eq_self)
qed

text \<open>Where the firmware says the two interrupt controllers are.\<close>

definition lapic_at :: "mem \<Rightarrow> acpi_state \<Rightarrow> u64" where
  "lapic_at m a = ucast (madt_lapic_addr m (ac_madt (acpi a)))"

definition ioapic_at :: "mem \<Rightarrow> acpi_state \<Rightarrow> u64" where
  "ioapic_at m a = ucast (ioapic_addr m (madt_entry a Io_apic 0))"

lemma apic_init_ok:
  assumes "vm_ok r vm" "2 \<le> tables_left vm"
  obtains id vm1 h1 where "apic_init ub dev m r spurious True a vm is =
      Inr (\<lparr>lapic_id = id, lapic_base = lapic_at m a\<rparr>, vm1, register_interupt_handler 255 spurious (is\<lparr>i_io := h1\<rparr>))"
    "vm_ok r vm1" "tables_left vm \<le> tables_left vm1 + 2"
    "\<And>v. mmu_walk (v_mem vm1) r v = (if same_page v (lapic_at m a) then Some (v AND mask 48) else mmu_walk (v_mem vm) r v)"
proof -
  have "unat (lapic_at m a) < 2 ^ 48" unfolding lapic_at_def by (rule ucast_low)
  from map_device [OF assms this] obtain vm1 where v:
    "virt_map_page (virt_current_pd r) (lapic_at m a) (lapic_at m a) (ucast PAGE_DEFAULT) vm = Inr (page_align (lapic_at m a), vm1)"
    "vm_ok r vm1" "tables_left vm \<le> tables_left vm1 + 2"
    "\<And>v. mmu_walk (v_mem vm1) r v = (if same_page v (lapic_at m a) then Some (v AND mask 48) else mmu_walk (v_mem vm) r v)" by blast
  have i: "(ucast SPURIOUS_INT :: u8) = 255" by (simp add: SPURIOUS_INT_def)
  show thesis
    by (rule that [OF _ v(2-4)])
      (simp only: apic_init_def Let_def lapic_at_def [symmetric] v(1) i bindE_simps simp_thms if_False prod.case)
qed

lemma ioapic_init_ok:
  assumes "vm_ok r vm" "2 \<le> tables_left vm" "ioapic_at m a + KERNEL_VADDR < KERNEL_VADDR + KERNEL_VADDR_SIZE"
    "unat (answered_max dev (ioapic_at m a) h) < 120" "\<forall>(irq, gsi)\<in>set (overrides m a). unat gsi < 120"
  obtains io vm1 h1 where "ioapic_init dev m r a vm h = Inr (io, vm1, h1)"
    "vm_ok r vm1" "tables_left vm \<le> tables_left vm1 + 2"
    "\<And>v. mmu_walk (v_mem vm1) r v = (if same_page v (ioapic_at m a) then Some (v AND mask 48) else mmu_walk (v_mem vm) r v)"
    "io_base io = ioapic_at m a"
    "\<forall>e<16. routed (regs_after (ioapic_at m a) c h1) e
       (32 + (case last_line (overrides m a) e of None \<Rightarrow> of_nat e | Some irq \<Rightarrow> irq))"
proof -
  let ?io = "\<lparr>io_idx = 0, io_base = ioapic_at m a, gsi_base = ioapic_gsib m (madt_entry a Io_apic 0), max_redir = 0\<rparr>"
  have "unat (ioapic_at m a) < 2 ^ 48" unfolding ioapic_at_def by (rule ucast_low)
  from map_device [OF assms(1,2) this] obtain vm1 where v:
    "virt_map_page (virt_current_pd r) (ioapic_at m a) (ioapic_at m a) (ucast PAGE_DEFAULT) vm = Inr (page_align (ioapic_at m a), vm1)"
    "vm_ok r vm1" "tables_left vm \<le> tables_left vm1 + 2"
    "\<And>v. mmu_walk (v_mem vm1) r v = (if same_page v (ioapic_at m a) then Some (v AND mask 48) else mmu_walk (v_mem vm) r v)" by blast
  have base: "io_base ?io = ioapic_at m a" by simp
  have "unat (answered_max dev (io_base ?io) h) < 120" using assms(4) by simp
  from ioapic_setup_ok [OF this assms(5), of c] obtain io h1 where s: "ioapic_setup dev ?io (overrides m a) h = Inr (io, h1)"
    "\<forall>e<16. routed (regs_after (ioapic_at m a) c h1) e
       (32 + (case last_line (overrides m a) e of None \<Rightarrow> of_nat e | Some irq \<Rightarrow> irq))" unfolding base by blast
  have "io_base io = ioapic_at m a"
    using s(1) by (auto simp: ioapic_setup_def Let_def split: prod.splits option.splits)
  then show thesis
    by (rule that [rotated 4, OF _ s(2) _ v(2-4)])
      (simp add: ioapic_init_def ioapic_at_def [symmetric] v(1) s(1) assms(3))
qed

lemma hpet_init_ok:
  assumes "vm_ok r vm" "2 \<le> tables_left vm" "acpi_find_tbl m ac str = Inr sdt" "sdt \<noteq> 0" "unat sdt < 2 ^ 48"
    "drop_bit 32 (dev (h @ [Mmio_read64 (hpet_address m sdt)])) \<noteq> 0"
  obtains hp vm1 h1 where "hpet_init dev m r str ac vm h = Inr (hp, vm1, h @ h1)"
    "vm_ok r vm1" "tables_left vm \<le> tables_left vm1 + 2"
    "\<And>v. mmu_walk (v_mem vm1) r v = (if same_page v sdt then Some (v AND mask 48) else mmu_walk (v_mem vm) r v)"
    "hp_tbl hp = hpet_address m sdt" "f_per_tick hp = drop_bit 32 (dev (h @ [Mmio_read64 (hpet_address m sdt)]))"
proof -
  from map_device [OF assms(1,2,5)] obtain vm1 where v:
    "virt_map_page (virt_current_pd r) sdt sdt (ucast PAGE_DEFAULT) vm = Inr (page_align sdt, vm1)"
    "vm_ok r vm1" "tables_left vm \<le> tables_left vm1 + 2"
    "\<And>v. mmu_walk (v_mem vm1) r v = (if same_page v sdt then Some (v AND mask 48) else mmu_walk (v_mem vm) r v)" by blast
  show thesis
    by (rule that [OF _ v(2-4)])
      (simp_all add: hpet_init_def hpet_capabilities_def Let_def assms(3,4,6) v(1) io_simps, simp_all)
qed

text \<open>
  With an APIC in the processor and the tables of the firmware in order, the start of the interrupt
  hardware completes: exactly the three pages of the local APIC, the I/O APIC and the timer's
  table are mapped to themselves, the lines of the I/O APIC are routed to the vectors from 32, the
  breakpoint is recorded, and the test interrupt calls the test handler and is acknowledged last.
\<close>

lemma start_interrupts_ok:
  assumes m: "m = e_firmware env" and r: "r = e_cr3 env"
    and "vm_ok r vm" "6 \<le> tables_left vm" "apic_is_available (e_cpuid env)" "e_test_handler env \<noteq> 0"
    and "ioapic_at m a + KERNEL_VADDR < KERNEL_VADDR + KERNEL_VADDR_SIZE"
    and "\<forall>h. unat (answered_max (e_dev env) (ioapic_at m a) h) < 120" "\<forall>(irq, gsi)\<in>set (overrides m a). unat gsi < 120"
    and "acpi_find_tbl m (acpi a) (e_hpet_str env) = Inr sdt" "sdt \<noteq> 0" "unat sdt < 2 ^ 48"
    and "\<forall>h. drop_bit 32 (e_dev env (h @ [Mmio_read64 (hpet_address m sdt)])) = period" "period \<noteq> 0"
    and "length (interupt_handlers is) = 256" "last_num is \<noteq> 3"
  shows "\<exists>k h1 h2. start_interrupts env a vm is = Inr k \<and> vm_ok r (k_vm k) \<and>
     hp_tbl (k_hpet k) = hpet_address m sdt \<and> f_per_tick (k_hpet k) = period \<and>
     (\<forall>v. mmu_walk (v_mem (k_vm k)) r v =
        (if same_page v (lapic_at m a) \<or> same_page v (ioapic_at m a) \<or> same_page v sdt
         then Some (v AND mask 48) else mmu_walk (v_mem vm) r v)) \<and>
     interupt_handlers (k_isr k) = (interupt_handlers is)[255 := e_spurious env, 47 := e_test_handler env] \<and>
     last_num (k_isr k) = 3 \<and> i_called (k_isr k) = i_called is @ [e_test_handler env] \<and>
     i_io (k_isr k) = h1 @ h2 @ [Mmio_write (lapic_at m a + 0xb0) 0] \<and>
     (\<forall>e<16. routed (regs_after (ioapic_at m a) c h1) e
        (32 + (case last_line (overrides m a) e of None \<Rightarrow> of_nat e | Some irq \<Rightarrow> irq)))"
proof -
  let ?dev = "e_dev env"
  have "2 \<le> tables_left vm" using assms(4) by simp
  then obtain id vm1 g1 where
    A: "apic_init (e_shl env) ?dev m r (e_spurious env) True a vm is =
        Inr (\<lparr>lapic_id = id, lapic_base = lapic_at m a\<rparr>, vm1,
          register_interupt_handler 255 (e_spurious env) (is\<lparr>i_io := g1\<rparr>))"
      "vm_ok r vm1" "tables_left vm \<le> tables_left vm1 + 2"
      "\<And>v. mmu_walk (v_mem vm1) r v = (if same_page v (lapic_at m a) then Some (v AND mask 48) else mmu_walk (v_mem vm) r v)"
    by (rule apic_init_ok [OF assms(3)]) (rule that; assumption)
  have "2 \<le> tables_left vm1" using assms(4) A(3) by linarith
  then obtain io vm2 g2 where
    B: "ioapic_init ?dev m r a vm1 g1 = Inr (io, vm2, g2)"
      "vm_ok r vm2" "tables_left vm1 \<le> tables_left vm2 + 2"
      "\<And>v. mmu_walk (v_mem vm2) r v = (if same_page v (ioapic_at m a) then Some (v AND mask 48) else mmu_walk (v_mem vm1) r v)"
      "\<forall>e<16. routed (regs_after (ioapic_at m a) c g2) e
         (32 + (case last_line (overrides m a) e of None \<Rightarrow> of_nat e | Some irq \<Rightarrow> irq))"
    by (rule ioapic_init_ok [OF A(2) _ assms(7) spec [OF assms(8)] assms(9)]) (rule that; assumption)
  have q: "drop_bit 32 (?dev (g2 @ [Mmio_read64 (hpet_address m sdt)])) \<noteq> 0" using assms(13,14) by simp
  have p: "2 \<le> tables_left vm2" using assms(4) A(3) B(3) by linarith
  obtain hp vm3 g3 where
    C: "hpet_init ?dev m r (e_hpet_str env) (acpi a) vm2 g2 = Inr (hp, vm3, g2 @ g3)" "vm_ok r vm3"
      "\<And>v. mmu_walk (v_mem vm3) r v = (if same_page v sdt then Some (v AND mask 48) else mmu_walk (v_mem vm2) r v)"
      "hp_tbl hp = hpet_address m sdt" "f_per_tick hp = drop_bit 32 (?dev (g2 @ [Mmio_read64 (hpet_address m sdt)]))"
    by (rule hpet_init_ok [where dev = ?dev and h = g2, OF B(2) p assms(10-12) q]) (rule that; assumption)
  let ?is1 = "register_interupt_handler 255 (e_spurious env) (is\<lparr>i_io := g1\<rparr>)"
  let ?is2 = "?is1\<lparr>i_io := g2 @ g3, i_names := i_names is @ [exception_names ! 3], last_num := 3\<rparr>"
  let ?is3 = "register_interupt_handler 47 (e_test_handler env) ?is2"
  have "unat (int_no ((e_regs_3 env)\<lparr>int_no := 3\<rparr>)) < 32" by simp
  from isr_handler_ok [OF this, of "?is1\<lparr>i_io := g2 @ g3\<rparr>"]
  have D: "isr_handler ((e_regs_3 env)\<lparr>int_no := 3\<rparr>) (?is1\<lparr>i_io := g2 @ g3\<rparr>) = Inr ?is2"
    using assms(16) by (simp add: register_interupt_handler_def)
  have "unat (int_no ((e_regs_47 env)\<lparr>int_no := 47\<rparr>)) < 256" by simp
  moreover have "length (interupt_handlers ?is3) = 256" using assms(15) by (simp add: register_interupt_handler_def)
  ultimately have E: "irq_handler (lapic_at m a) ((e_regs_47 env)\<lparr>int_no := 47\<rparr>) ?is3 = Inr (?is3\<lparr>
      i_called := i_called is @ [e_test_handler env], i_io := g2 @ g3 @ [Mmio_write (lapic_at m a + 0xb0) 0]\<rparr>)"
    using irq_handler_ok [of "(e_regs_47 env)\<lparr>int_no := 47\<rparr>" ?is3 "lapic_at m a"] assms(6,15)
    by (simp add: register_interupt_handler_def Let_def)
  have i: "(ucast IRQ15 :: u8) = 47" by (simp add: IRQ15_def)
  have "start_interrupts env a vm is = Inr \<lparr>k_lapic = \<lparr>lapic_id = id, lapic_base = lapic_at m a\<rparr>, k_ioapic = io,
      k_hpet = hp, k_vm = vm3, k_isr = ?is3\<lparr>i_called := i_called is @ [e_test_handler env],
        i_io := g2 @ g3 @ [Mmio_write (lapic_at m a + 0xb0) 0]\<rparr>\<rparr>"
  proof -
    have io1: "i_io ?is1 = g1" by (simp add: register_interupt_handler_def)
    show ?thesis
      unfolding start_interrupts_def m [symmetric] r [symmetric]
      by (simp only: assms(5) simp_thms A(1) B(1) C(1) D E io1 i Let_def bindE_simps prod.case lapic_t.select_convs)
  qed
  moreover have "mmu_walk (v_mem vm3) r v =
      (if same_page v (lapic_at m a) \<or> same_page v (ioapic_at m a) \<or> same_page v sdt
       then Some (v AND mask 48) else mmu_walk (v_mem vm) r v)" for v
    unfolding C(3) B(4) A(4) by simp
  moreover have "f_per_tick hp = period" using C(5) assms(13) by simp
  ultimately show ?thesis using C(2,4) B(5)
    by (intro exI conjI) (assumption | simp add: register_interupt_handler_def)+
qed

section \<open>The whole start\<close>

lemma stores_above:
  assumes "\<forall>i\<in>fst ` set ps. i < 2 ^ 32" "unat base < 2 ^ 48"
  shows "same_window m (stores base ps m)"
  unfolding same_window_def
proof (intro allI impI stores_frame ballI)
  fix a :: u64 and i assume a: "unat KERNEL_VADDR \<le> unat a" and i: "i \<in> fst ` set ps"
  have "4 * of_nat i = (of_nat (4 * i) :: u64)" by simp
  then have b: "unat (base + 4 * of_nat i) = unat base + 4 * i"
    using unat_add_of_nat [of base "4 * i"] assms i by fastforce
  then have "unat (base + 4 * of_nat i) + 4 \<le> unat a" using a assms i by fastforce
  then show "4 \<le> unat (a - (base + 4 * of_nat i))" by (subst unat_sub) (simp_all add: word_le_nat_alt)
qed

lemma test_pattern_window:
  assumes "picture_fits w h p" "unat fb < 2 ^ 48"
  shows "same_window m (framebuffer_display_test_pattern fb w h p m)"
  unfolding framebuffer_display_test_pattern_def rows_stores [OF assms(1)]
  by (rule stores_above [OF picture_distinct(2) [OF assms(1)] assms(2)])

text \<open>What the drivers find in the arrays the start of ACPI filled.\<close>

definition override_list :: "mem \<Rightarrow> u64 list \<Rightarrow> (u8 \<times> u32) list" where
  "override_list m ps = map (\<lambda>p. (ioso_irq m p, ioso_gsi m p)) (of_kind m Ioso_apic ps)"

lemma recorded_places:
  assumes "recorded m ps a" "\<forall>k. length (of_kind m k ps) \<le> 32" "of_kind m Io_apic ps = q # qs"
  shows "lapic_at m a = ucast (madt_lapic_addr m (ac_madt (acpi a)))" "ioapic_at m a = ucast (ioapic_addr m q)"
    "overrides m a = override_list m ps"
proof -
  have e: "ac_idx (acpi a) k = of_nat (length (of_kind m k ps))" "j < length (of_kind m k ps) \<Longrightarrow> madt_entry a k j = of_kind m k ps ! j" for k j
    using assms(1) unfolding recorded_def madt_entry_def by blast+
  show "lapic_at m a = ucast (madt_lapic_addr m (ac_madt (acpi a)))" by (rule lapic_at_def)
  show "ioapic_at m a = ucast (ioapic_addr m q)" using e(2) [of 0 Io_apic] assms(3) by (simp add: ioapic_at_def)
  let ?os = "of_kind m Ioso_apic ps"
  have "length ?os \<le> 32" using assms(2) by blast
  then have n: "unat (ac_idx (acpi a) Ioso_apic) = length ?os" unfolding e(1) by (intro unat_of_nat_small) simp
  have "map (madt_entry a Ioso_apic) [0..<length ?os] = ?os" using e(2) by (intro nth_equalityI) simp_all
  then have "map (\<lambda>p. (ioso_irq m p, ioso_gsi m p)) (map (madt_entry a Ioso_apic) [0..<length ?os]) = override_list m ps"
    by (simp only: override_list_def)
  then show "overrides m a = override_list m ps" by (simp add: overrides_def n Let_def comp_def)
qed

text \<open>
  From a memory map with free memory, a framebuffer whose picture fits and firmware tables the
  code accepts, everything \<open>kmain\<close> does after its tag loop up to the idle loop completes.
\<close>

lemma kmain_start_ok:
  assumes m: "m = e_firmware env" and r: "r = e_cr3 env" and kb: "kb = b_kboot bs"
    and "b_total bs \<noteq> 0" "vm_ok r \<lparr>v_phys = b_pmm bs, v_mem = b_mem bs, v_cur = 0\<rparr>"
    and "phys_malloc (PAGE_SIZE * 64) (b_pmm bs) = Inr (x, ph)"
    and "16 \<le> tables_left \<lparr>v_phys = ph, v_mem = b_mem bs, v_cur = 0\<rparr>"
    and "fb_h kb * fb_pitch kb < PAGE_SIZE * 4" "unat (fb_addr kb) + 4 * 2097152 \<le> 2 ^ 48"
    and "picture_fits (ucast (fb_w kb)) (ucast (fb_h kb)) (ucast (fb_pitch kb))"
    and "firmware_ok m (e_lits env) (b_rsdp bs) madt ps" "of_kind m Io_apic ps = q # qs"
    and "lapic = ucast (madt_lapic_addr m madt)" "ioapic = ucast (ioapic_addr m q)" "xsdt = rsdp_xsdt_addr m (b_rsdp bs)"
    and "apic_is_available (e_cpuid env)" "e_test_handler env \<noteq> 0" "ioapic + KERNEL_VADDR < KERNEL_VADDR + KERNEL_VADDR_SIZE"
    and "\<forall>h. unat (answered_max (e_dev env) ioapic h) < 120" "\<forall>(irq, gsi)\<in>set (override_list m ps). unat gsi < 120"
    and "acpi_find_tbl m (xsdt_inst xsdt) (e_hpet_str env) = Inr sdt" "sdt \<noteq> 0" "unat sdt < 2 ^ 48"
    and "\<forall>h. drop_bit 32 (e_dev env (h @ [Mmio_read64 (hpet_address m sdt)])) = period" "period \<noteq> 0"
    and "length (interupt_handlers is) = 256" "last_num is \<noteq> 3"
  shows "\<exists>k h1 h2. kmain_start env bs is = Inr (kb\<lparr>fb_ptr := fb_addr kb\<rparr>, k) \<and> vm_ok r (k_vm k) \<and>
     hp_tbl (k_hpet k) = hpet_address m sdt \<and> f_per_tick (k_hpet k) = period \<and>
     (\<forall>v. unat (page_align (fb_addr kb)) \<le> unat v \<and> unat v < unat (page_align (fb_addr kb)) + 4 * 2097152 \<longrightarrow>
        mmu_walk (v_mem (k_vm k)) r v = Some v) \<and>
     (\<forall>a\<in>{xsdt, lapic, ioapic, sdt}. \<forall>v. same_page v a \<longrightarrow> mmu_walk (v_mem (k_vm k)) r v = Some (v AND mask 48)) \<and>
     interupt_handlers (k_isr k) = (interupt_handlers is)[255 := e_spurious env, 47 := e_test_handler env] \<and>
     last_num (k_isr k) = 3 \<and> i_called (k_isr k) = i_called is @ [e_test_handler env] \<and>
     i_io (k_isr k) = h1 @ h2 @ [Mmio_write (lapic + 0xb0) 0] \<and>
     (\<forall>e<16. routed (regs_after ioapic c h1) e
        (32 + (case last_line (override_list m ps) e of None \<Rightarrow> of_nat e | Some irq \<Rightarrow> irq)))"
proof -
  let ?kb = "kb\<lparr>fb_ptr := fb_addr kb\<rparr>" and ?fb = "unat (page_align (fb_addr kb))"
  have "8 \<le> tables_left \<lparr>v_phys = ph, v_mem = b_mem bs, v_cur = 0\<rparr>" using assms(7) by simp
  from start_memory_ok [OF assms(4) assms(5) [unfolded r] assms(6) this assms(8,9) [unfolded kb]] obtain h vm where
    M: "start_memory env bs = Inr (?kb, h, vm)" "vm_ok r vm" "test_freed h"
      "tables_left \<lparr>v_phys = ph, v_mem = b_mem bs, v_cur = 0\<rparr> \<le> tables_left vm + 8"
      "\<forall>v. ?fb \<le> unat v \<and> unat v < ?fb + 4 * 2097152 \<longrightarrow> mmu_walk (v_mem vm) r v = Some v"
    unfolding kb [symmetric] r [symmetric] by blast
  have left: "8 \<le> tables_left vm" using M(4) assms(7) by simp
  have "unat (fb_addr kb) < 2 ^ 48" using assms(9) by simp
  note win = test_pattern_window [OF assms(10) this, of "v_mem vm"]
  let ?vm = "vm\<lparr>v_mem := framebuffer_display_test_pattern (fb_addr kb) (ucast (fb_w kb)) (ucast (fb_h kb)) (ucast (fb_pitch kb)) (v_mem vm)\<rparr>"
  note D = vm_ok_same_window [OF M(2) win]
  have "2 \<le> tables_left ?vm" using D(2) left by simp
  then obtain a vm1 where A: "acpi_init m r (e_lits env) (b_rsdp bs) h ?vm = Inr (a, vm1)" "vm_ok r vm1"
    "tables_left ?vm \<le> tables_left vm1 + 2"
    "\<forall>v. mmu_walk (v_mem vm1) r v = (if same_page v xsdt then Some (v AND mask 48) else mmu_walk (v_mem ?vm) r v)"
    "recorded m ps a" "ac_madt (acpi a) = madt" "ac_xsdt (acpi a) = xsdt" "ac_is_v2 (acpi a)"
    by (rule acpi_init_ok [OF D(1) _ M(3) assms(11), unfolded assms(15) [symmetric]]) (rule that; assumption)
  have "\<forall>k. length (of_kind m k ps) \<le> 32" using assms(11) by (simp add: firmware_ok_def)
  note P = recorded_places [OF A(5) this assms(12), unfolded A(6) assms(13,14) [symmetric]]
  have find: "acpi_find_tbl m (acpi a) (e_hpet_str env) = Inr sdt"
    using assms(21) A(7,8) by (simp add: acpi_find_tbl_def xsdt_inst_def xsdt_entries_def)
  have "6 \<le> tables_left vm1" using left D(2) A(3) by simp
  note I = start_interrupts_ok [OF m r A(2) this assms(16,17) _ _ _ find assms(22-27), unfolded P, OF assms(18,19,20)]
  then obtain k h1 h2 where K: "start_interrupts env a vm1 is = Inr k" "vm_ok r (k_vm k)"
     "\<forall>v. mmu_walk (v_mem (k_vm k)) r v = (if same_page v lapic \<or> same_page v ioapic \<or> same_page v sdt
         then Some (v AND mask 48) else mmu_walk (v_mem vm1) r v)"
     and rest: "hp_tbl (k_hpet k) = hpet_address m sdt" "f_per_tick (k_hpet k) = period"
     "interupt_handlers (k_isr k) = (interupt_handlers is)[255 := e_spurious env, 47 := e_test_handler env]"
     "last_num (k_isr k) = 3" "i_called (k_isr k) = i_called is @ [e_test_handler env]"
     "i_io (k_isr k) = h1 @ h2 @ [Mmio_write (lapic + 0xb0) 0]"
     "\<forall>e<16. routed (regs_after ioapic c h1) e
        (32 + (case last_line (override_list m ps) e of None \<Rightarrow> of_nat e | Some irq \<Rightarrow> irq))" by blast
  have "kmain_start env bs is = Inr (?kb, k)"
    using M(1) A(1) K(1) by (simp add: kmain_start_def Let_def m r)
  moreover have "mmu_walk (v_mem (k_vm k)) r v = Some v" if v: "?fb \<le> unat v" "unat v < ?fb + 4 * 2097152" for v
  proof -
    have "?fb \<le> unat (fb_addr kb)" by (simp add: unat_page_align)
    then have "v AND mask 48 = v" using v assms(9) by (intro low_and_mask) simp
    then show ?thesis using K(3) A(4) D(3) M(5) v by simp
  qed
  moreover have "mmu_walk (v_mem (k_vm k)) r v = Some (v AND mask 48)"
    if "a \<in> {xsdt, lapic, ioapic, sdt}" "same_page v a" for a v
    using that K(3) A(4) by auto
  ultimately show ?thesis using K(2) rest by blast
qed

section \<open>Witnesses\<close>

text \<open>
  A machine whose XSDT at \<open>0x1000\<close> names a MADT at \<open>0x5000\<close>, with the local APIC at \<open>0xfee00000\<close>, one
  I/O APIC at \<open>0xfec00000\<close> and line 0 moved to entry 2, and the timer's table at \<open>0x2000\<close>, with its
  registers at \<open>0xfed00000\<close>. The three names are from \<open>0x3000\<close>.
\<close>

definition xsdt_bytes :: "u8 list" where
  "xsdt_bytes = [88, 83, 68, 84, 52, 0, 0, 0, 0, 25] @ replicate 26 0 @ [0, 0x50, 0, 0, 0, 0, 0, 0, 0, 0x20, 0, 0, 0, 0, 0, 0]"
definition hpet_bytes :: "u8 list" where
  "hpet_bytes = [72, 80, 69, 84, 56, 0, 0, 0, 0, 201] @ replicate 36 0 @ [0xd0, 0xfe] @ replicate 8 0"
definition name_bytes :: "u8 list" where
  "name_bytes = [72, 80, 69, 84, 0, 65, 80, 73, 67, 0, 88, 83, 68, 84, 0]"
definition madt_bytes :: "u8 list" where
  "madt_bytes = [65, 80, 73, 67, 74, 0, 0, 0, 0, 218] @ replicate 28 0 @ [0xe0, 0xfe] @ replicate 4 0 @
     [0, 8, 0, 0, 0, 0, 0, 0] @ [1, 12, 0, 0, 0, 0, 0xc0, 0xfe, 0, 0, 0, 0] @ [2, 10, 0, 0, 2, 0, 0, 0, 0, 0]"
definition rsdp_bytes :: "u8 list" where
  "rsdp_bytes = replicate 8 0 @ [254] @ replicate 6 0 @ [2] @ replicate 8 0 @ [0, 0x10, 0, 0, 0, 0, 0, 0]"

definition start_firmware :: mem where
  "start_firmware = store_bytes 0x1000 xsdt_bytes (store_bytes 0x2000 hpet_bytes (store_bytes 0x3000 name_bytes
     (store_bytes 0x5000 madt_bytes (store_bytes 0x6000 rsdp_bytes (\<lambda>_. 0)))))"

definition demo_env :: start_env where
  "demo_env = \<lparr>e_shl = (\<lambda>_. 0), e_dev = (\<lambda>_. 0x05F5E10000170011), e_firmware = start_firmware,
     e_cr3 = demo_root, e_cpuid = \<lparr>cpuid_eax = 0, cpuid_edx = 0x200, cpuid_ecx = 0, cpuid_ebx = 0\<rparr>, e_spurious = 0x1000, e_test_handler = 0x1234, e_hpet_str = 0x3000,
     e_lits = \<lparr>lit_apic = 0x3005, lit_xsdt = 0x300A, lit_rsdt = 0\<rparr>, e_callp = demo_call, e_bootstrap_fn = 1, e_kfree_fn = 2,
     e_regs_3 = demo_regs 0, e_regs_47 = demo_regs 0\<rparr>"

definition demo_boot :: boot_state where
  "demo_boot = \<lparr>b_kboot = kboot_zero\<lparr>fb_addr := 0xFD000000, fb_w := 1024, fb_h := 768, fb_pitch := 4096\<rparr>,
     b_rsdp = 0x6000, b_total = 0x40000000, b_pmm = demo_pmm, b_mem = (\<lambda>_. 0)\<rparr>"

lemma start_regions:
  "load_bytes start_firmware 0x1000 52 = xsdt_bytes" "load_bytes start_firmware 0x2000 56 = hpet_bytes"
  "load_bytes start_firmware 0x3000 15 = name_bytes" "load_bytes start_firmware 0x5000 74 = madt_bytes"
  "load_bytes start_firmware 0x6000 32 = rsdp_bytes"
proof -
  have "length xsdt_bytes = 52" "length hpet_bytes = 56" "length name_bytes = 15" "length madt_bytes = 74" "length rsdp_bytes = 32"
    by (simp_all add: xsdt_bytes_def hpet_bytes_def name_bytes_def madt_bytes_def rsdp_bytes_def)
  then show "load_bytes start_firmware 0x1000 52 = xsdt_bytes" "load_bytes start_firmware 0x2000 56 = hpet_bytes"
  "load_bytes start_firmware 0x3000 15 = name_bytes" "load_bytes start_firmware 0x5000 74 = madt_bytes"
  "load_bytes start_firmware 0x6000 32 = rsdp_bytes"
    by (simp_all add: start_firmware_def load_store_bytes_same load_store_bytes_apart apart_def)
qed

lemma start_lists:
  "take 4 (drop 4 xsdt_bytes) = [52, 0, 0, 0]" "take 8 (drop 36 xsdt_bytes) = [0, 0x50, 0, 0, 0, 0, 0, 0]"
  "take 8 (drop 44 xsdt_bytes) = [0, 0x20, 0, 0, 0, 0, 0, 0]" "take 4 (drop 4 hpet_bytes) = [56, 0, 0, 0]"
  "take 4 (drop 4 madt_bytes) = [74, 0, 0, 0]" "take 4 (drop 36 madt_bytes) = [0, 0, 0xe0, 0xfe]"
  "take 4 (drop 56 madt_bytes) = [0, 0, 0xc0, 0xfe]" "take 4 (drop 68 madt_bytes) = [2, 0, 0, 0]"
  "take 8 (drop 24 rsdp_bytes) = [0, 0x10, 0, 0, 0, 0, 0, 0]" "sum_list (take 20 rsdp_bytes) = 0" "rsdp_bytes ! 15 = 2"
  "take 4 xsdt_bytes = [88, 83, 68, 84]" "sum_list xsdt_bytes = 0" "take 4 hpet_bytes = [72, 80, 69, 84]" "sum_list hpet_bytes = 0"
  "take 4 madt_bytes = [65, 80, 73, 67]" "sum_list madt_bytes = 0"
  "take 5 (drop 5 name_bytes) = [65, 80, 73, 67, 0]" "take 5 (drop 10 name_bytes) = [88, 83, 68, 84, 0]"
  "take 5 name_bytes = [72, 80, 69, 84, 0]"
  "map ((!) madt_bytes) [44, 45, 52, 53, 64, 65, 67] = [0, 8, 1, 12, 2, 10, 0]"
  by code_simp+

lemma start_bytes:
  "load_bytes start_firmware 0x1004 4 = [52, 0, 0, 0]" "load_bytes start_firmware 0x5004 4 = [74, 0, 0, 0]"
  "load_bytes start_firmware 0x1024 8 = [0, 0x50, 0, 0, 0, 0, 0, 0]" "load_bytes start_firmware 0x102C 8 = [0, 0x20, 0, 0, 0, 0, 0, 0]"
  "load_bytes start_firmware 0x6018 8 = [0, 0x10, 0, 0, 0, 0, 0, 0]" "load_bytes start_firmware 0x5044 4 = [2, 0, 0, 0]"
  "load_bytes start_firmware 0x5024 4 = [0, 0, 0xe0, 0xfe]" "load_bytes start_firmware 0x5038 4 = [0, 0, 0xc0, 0xfe]"
  "load_bytes start_firmware 0x2004 4 = [56, 0, 0, 0]" "load_bytes start_firmware 0x1000 4 = [88, 83, 68, 84]"
  "load_bytes start_firmware 0x2000 4 = [72, 80, 69, 84]" "load_bytes start_firmware 0x5000 4 = [65, 80, 73, 67]"
  "load_bytes start_firmware 0x3000 5 = [72, 80, 69, 84, 0]" "load_bytes start_firmware 0x3005 5 = [65, 80, 73, 67, 0]"
  "load_bytes start_firmware 0x300A 5 = [88, 83, 68, 84, 0]" "load_bytes start_firmware 0x6000 20 = take 20 rsdp_bytes"
  using load_bytes_sub [of 4 4 52 start_firmware "0x1000"] load_bytes_sub [of 4 4 74 start_firmware "0x5000"]
    load_bytes_sub [of 36 8 52 start_firmware "0x1000"] load_bytes_sub [of 44 8 52 start_firmware "0x1000"]
    load_bytes_sub [of 24 8 32 start_firmware "0x6000"] load_bytes_sub [of 68 4 74 start_firmware "0x5000"]
    load_bytes_sub [of 36 4 74 start_firmware "0x5000"] load_bytes_sub [of 56 4 74 start_firmware "0x5000"]
    load_bytes_sub [of 4 4 56 start_firmware "0x2000"] load_bytes_sub [of 0 4 52 start_firmware "0x1000"]
    load_bytes_sub [of 0 4 56 start_firmware "0x2000"] load_bytes_sub [of 0 4 74 start_firmware "0x5000"]
    load_bytes_sub [of 0 5 15 start_firmware "0x3000"] load_bytes_sub [of 5 5 15 start_firmware "0x3000"]
    load_bytes_sub [of 10 5 15 start_firmware "0x3000"] load_bytes_sub [of 0 20 32 start_firmware "0x6000"]
  by (simp_all add: start_regions start_lists)

lemma start_single_bytes:
  "start_firmware 0x502C = 0" "start_firmware 0x502D = 8" "start_firmware 0x5034 = 1" "start_firmware 0x5035 = 12"
  "start_firmware 0x5040 = 2" "start_firmware 0x5041 = 10" "start_firmware 0x5043 = 0" "start_firmware 0x600F = 2"
  using nth_load_bytes [of 44 74 start_firmware "0x5000"] nth_load_bytes [of 45 74 start_firmware "0x5000"]
    nth_load_bytes [of 52 74 start_firmware "0x5000"] nth_load_bytes [of 53 74 start_firmware "0x5000"]
    nth_load_bytes [of 64 74 start_firmware "0x5000"] nth_load_bytes [of 65 74 start_firmware "0x5000"]
    nth_load_bytes [of 67 74 start_firmware "0x5000"] nth_load_bytes [of 15 32 start_firmware "0x6000"] start_lists(11,21)
  by (simp_all add: start_regions)

lemma start_fields:
  "sdt_length start_firmware 0x1000 = 52" "sdt_length start_firmware 0x5000 = 74" "sdt_length start_firmware 0x2000 = 56"
  "xsdt_entry start_firmware 0x1000 0 = 0x5000" "xsdt_entry start_firmware 0x1000 1 = 0x2000"
  "rsdp_xsdt_addr start_firmware 0x6000 = 0x1000" "load32 start_firmware 0x5044 = 2"
  "madt_lapic_addr start_firmware 0x5000 = 0xfee00000" "ioapic_addr start_firmware 0x5034 = 0xfec00000"
  by (simp_all add: sdt_length_def xsdt_entry_def sizeof_sdt_header_def rsdp_xsdt_addr_def madt_lapic_addr_def
      ioapic_addr_def load32_def load64_def start_bytes)

lemma four_letters: "0 \<notin> set bs \<Longrightarrow> length bs = 4 \<Longrightarrow> load_bytes m a 5 = bs @ [0] \<Longrightarrow> cstr m a bs"
  by (simp add: cstr_def)

lemma start_names:
  "cstr start_firmware 0x3000 [72, 80, 69, 84]" "cstr start_firmware 0x3005 [65, 80, 73, 67]"
  "cstr start_firmware 0x300A [88, 83, 68, 84]"
  by (rule four_letters; simp add: start_bytes)+

lemma start_tables_ok:
  "is_table start_firmware [88, 83, 68, 84] 0x1000" "is_table start_firmware [72, 80, 69, 84] 0x2000"
  "is_table start_firmware [65, 80, 73, 67] 0x5000" "\<not> is_table start_firmware [72, 80, 69, 84] 0x5000"
  by (simp_all add: is_table_def start_fields start_bytes start_regions start_lists)

lemma start_xsdt: "xsdt_entries start_firmware (xsdt_inst 0x1000) = 2"
  by (simp add: xsdt_entries_def xsdt_inst_def sizeof_sdt_header_def start_fields)

lemma below_two: "(j :: u64) < 2 \<longleftrightarrow> j = 0 \<or> j = 1"
  by (simp add: word_less_nat_alt word_unat_eq_iff) linarith

lemma start_found:
  "acpi_find_tbl start_firmware (xsdt_inst 0x1000) 0x3005 = Inr 0x5000"
  "acpi_find_tbl start_firmware (xsdt_inst 0x1000) 0x3000 = Inr 0x2000"
proof -
  have v2: "ac_is_v2 (xsdt_inst 0x1000)" and x: "ac_xsdt (xsdt_inst 0x1000) = 0x1000" by (simp_all add: xsdt_inst_def)
  have nz: "\<forall>j < xsdt_entries start_firmware (xsdt_inst 0x1000). xsdt_entry start_firmware (ac_xsdt (xsdt_inst 0x1000)) j \<noteq> 0"
    by (auto simp: start_xsdt start_fields x below_two)
  show "acpi_find_tbl start_firmware (xsdt_inst 0x1000) 0x3005 = Inr 0x5000"
    using acpi_find_tbl_cases [OF v2 start_names(2) _ _ nz] start_tables_ok
    by (auto simp: start_xsdt start_fields x below_two)
  show "acpi_find_tbl start_firmware (xsdt_inst 0x1000) 0x3000 = Inr 0x2000"
    using acpi_find_tbl_cases [OF v2 start_names(1) _ _ nz] start_tables_ok
    by (auto simp: start_xsdt start_fields x below_two)
qed

definition demo_entries :: "u64 list" where "demo_entries = [0x502C, 0x5034, 0x5040]"

lemma start_firmware_ok: "firmware_ok start_firmware (e_lits demo_env) 0x6000 0x5000 demo_entries"
proof -
  have "acpi_validate_rsdp start_firmware 0x6000"
    by (simp add: acpi_validate_rsdp_def sum_bytes_eq RSDP_CHECKSUM_VALIDATE_SIZE_def start_bytes start_lists)
  moreover have "rsdp_revision start_firmware 0x6000 = 2" by (simp add: rsdp_revision_def start_single_bytes)
  moreover have "entries_at start_firmware (madt_table 0x5000) demo_entries 0x504A"
    by (simp add: madt_table_def demo_entries_def start_single_bytes)
  moreover have "length (of_kind start_firmware k demo_entries) \<le> 32" for k
    unfolding of_kind_def by (rule order_trans [OF length_filter_le]) (simp add: demo_entries_def)
  ultimately show ?thesis using start_names start_tables_ok start_found start_fields
    by (simp add: firmware_ok_def Let_def demo_env_def)
qed

lemma start_places:
  "of_kind start_firmware Proc_lapic demo_entries = [0x502C]" "of_kind start_firmware Io_apic demo_entries = [0x5034]"
  "override_list start_firmware demo_entries = [(0, 2)]"
proof -
  show "of_kind start_firmware Proc_lapic demo_entries = [0x502C]" "of_kind start_firmware Io_apic demo_entries = [0x5034]"
    by (simp_all add: of_kind_def demo_entries_def madt_kind_of_def start_single_bytes)
  have "of_kind start_firmware Ioso_apic demo_entries = [0x5040]"
    by (simp add: of_kind_def demo_entries_def madt_kind_of_def start_single_bytes)
  then show "override_list start_firmware demo_entries = [(0, 2)]"
    by (simp add: override_list_def ioso_irq_def ioso_gsi_def start_fields start_single_bytes)
qed

lemma demo_test_freed:
  obtains h where "test_freed h"
proof -
  have "h_addr demo_heap = first_block" using demo_heap_facts(4) first_block_nat(1) by (simp add: word_unat_eq_iff)
  from first_kmalloc [OF demo_heap_facts(2,3) this] that show thesis by blast
qed


theorem acpi_init_overwrites_block_size_witness:
  "\<exists>h a vm'. test_freed h \<and> acpi_init start_firmware demo_root (e_lits demo_env) 0x6000 h demo_vmm = Inr (a, vm') \<and>
     drop_bit 24 (hdr_block_size (h_mem (a_heap a)) first_block) = 0x502C"
proof -
  obtain h where h: "test_freed h" by (rule demo_test_freed)
  have l: "2 \<le> tables_left demo_vmm" by (simp add: demo_tables_left)
  have "take_bit 40 0x502C = (0x502C :: u64)" by code_simp
  with acpi_init_overwrites_block_size [OF demo_vm_ok l h start_firmware_ok start_places(1)] h show ?thesis by auto
qed

end
