(* ===== verification/Idle.thy ===== *)
theory Idle
  imports Framebuffer Hpet KBoot
begin

text \<open>
  The loop \<^verbatim>\<open>kmain\<close> of \<^verbatim>\<open>src/kernel/kernel.c\<close> ends in: wait half a second, draw the animated pattern,
  advance the cycle. A round whose wait does not end is \<open>None\<close>.
\<close>

section \<open>The loop\<close>

definition idle_round :: "device \<Rightarrow> hpet_inst \<Rightarrow> kernel_boot_t \<Rightarrow> u8 \<times> mem \<times> io \<Rightarrow> (u8 \<times> mem \<times> io) option" where
  "idle_round dev hp kb s = (case s of (cycle, m, h) \<Rightarrow>
     (case usleep dev hp (ms_to_us 500) h of None \<Rightarrow> None
      | Some h1 \<Rightarrow>
          let m1 = framebuffer_display_animated_pattern (fb_ptr kb) (ucast (fb_w kb)) (ucast (fb_h kb)) (ucast (fb_pitch kb)) cycle m;
              cycle1 = cycle + 1
          in Some (if 255 \<le> cycle1 then 0 else cycle1, m1, h1)))"

fun idle :: "device \<Rightarrow> hpet_inst \<Rightarrow> kernel_boot_t \<Rightarrow> nat \<Rightarrow> u8 \<times> mem \<times> io \<Rightarrow> (u8 \<times> mem \<times> io) option" where
  "idle dev hp kb 0 s = Some s"
| "idle dev hp kb (Suc n) s = (case idle_round dev hp kb s of None \<Rightarrow> None | Some s1 \<Rightarrow> idle dev hp kb n s1)"

section \<open>What it shows\<close>

lemma idle_Suc_last:
  "idle dev hp kb (Suc n) s = (case idle dev hp kb n s of None \<Rightarrow> None | Some s1 \<Rightarrow> idle_round dev hp kb s1)"
proof (induction n arbitrary: s)
  case (Suc n)
  show ?case
  proof (cases "idle_round dev hp kb s")
    case (Some s1)
    then show ?thesis using Suc [of s1] by simp
  qed simp
qed (simp split: option.split)

text \<open>A timer that, started at any time, shows that the time has passed before its reading overflows.\<close>

definition timer_works :: "device \<Rightarrow> hpet_inst \<Rightarrow> u64 \<Rightarrow> bool" where
  "timer_works dev hp us \<longleftrightarrow> (\<forall>h. \<exists>n.
     1000000000 * unat us \<le> unat (reading dev hp (started dev hp h) n) * unat (f_per_tick hp) \<and>
     (\<forall>i\<le>n. unat (reading dev hp (started dev hp h) i) * unat (f_per_tick hp) < 2 ^ 64))"

lemma usleep_works:
  assumes "timer_works dev hp us" "unat us < 18446744073"
  shows "\<exists>h'. usleep dev hp us h = Some h'"
proof -
  from assms(1) obtain n where
    "1000000000 * unat us \<le> unat (reading dev hp (started dev hp h) n) * unat (f_per_tick hp)"
    "\<forall>i\<le>n. unat (reading dev hp (started dev hp h) i) * unat (f_per_tick hp) < 2 ^ 64"
    unfolding timer_works_def by blast
  from usleep_ok [OF assms(2) this] show ?thesis by blast
qed

lemma next_cycle:
  assumes "unat (c :: u8) = n mod 255"
  shows "unat (if 255 \<le> c + 1 then 0 else c + 1) = Suc n mod 255"
proof -
  have "n mod 255 < 255" by simp
  then have "unat c + 1 < 256" using assms by linarith
  then have u: "unat (c + 1) = unat c + 1" by (subst unat_add_small) simp_all
  have "Suc n mod 255 = (if Suc (n mod 255) = 255 then 0 else Suc (n mod 255))" by (rule mod_Suc)
  moreover have "255 \<le> c + 1 \<longleftrightarrow> 255 \<le> unat c + 1" using u by (simp add: word_le_nat_alt)
  ultimately show ?thesis using u assms \<open>n mod 255 < 255\<close> by auto
qed

text \<open>The bytes that belong to no pixel.\<close>

definition off_screen :: "kernel_boot_t \<Rightarrow> u64 \<Rightarrow> bool" where
  "off_screen kb a \<longleftrightarrow> (\<forall>y<unat (ucast (fb_h kb) :: u32). \<forall>x<unat (ucast (fb_w kb) :: u32).
     4 \<le> unat (a - (fb_ptr kb + 4 * of_nat (y * unat ((ucast (fb_pitch kb) :: u32) div 4) + x))))"

lemma idle_runs:
  assumes "timer_works dev hp (ms_to_us 500)" "picture_fits (ucast (fb_w kb)) (ucast (fb_h kb)) (ucast (fb_pitch kb))"
  shows "\<exists>c m' h'. idle dev hp kb n (0, m, h) = Some (c, m', h') \<and> unat c = n mod 255 \<and>
    (\<forall>a. off_screen kb a \<longrightarrow> m' a = m a)"
proof (induction n)
  case (Suc n)
  then obtain c m' h' where s: "idle dev hp kb n (0, m, h) = Some (c, m', h')" "unat c = n mod 255"
    "\<forall>a. off_screen kb a \<longrightarrow> m' a = m a" by blast
  have "unat (ms_to_us 500) < 18446744073" by (simp add: ms_to_us_def)
  with usleep_works [OF assms(1)] obtain h1 where u: "usleep dev hp (ms_to_us 500) h' = Some h1" by blast
  let ?m1 = "framebuffer_display_animated_pattern (fb_ptr kb) (ucast (fb_w kb)) (ucast (fb_h kb)) (ucast (fb_pitch kb)) c m'"
  have "?m1 a = m' a" if "off_screen kb a" for a
    using patterns_drawn [OF assms(2), where fb = "fb_ptr kb" and cycle = c and m = m'] that
    unfolding Let_def off_screen_def by blast
  moreover have "idle dev hp kb (Suc n) (0, m, h) = Some (if 255 \<le> c + 1 then 0 else c + 1, ?m1, h1)"
    unfolding idle_Suc_last s(1) by (simp add: idle_round_def u Let_def)
  ultimately show ?case using next_cycle [OF s(2)] s(3) by fastforce
qed simp

text \<open>
  With a timer that works and a picture that fits, every number of rounds completes; after round
  \<open>n\<close> the screen shows the hues turned by \<open>n\<close> modulo 255, the memory off the screen is
  untouched, and the cycle is back at 0 after 255 rounds.
\<close>

lemma idle_animates:
  assumes "timer_works dev hp (ms_to_us 500)" "picture_fits (ucast (fb_w kb)) (ucast (fb_h kb)) (ucast (fb_pitch kb))"
  shows "\<exists>c m' h'. idle dev hp kb (Suc n) (0, m, h) = Some (c, m', h') \<and> unat c = Suc n mod 255 \<and>
    (\<forall>y<unat (ucast (fb_h kb) :: u32). \<forall>x<unat (ucast (fb_w kb) :: u32).
       load32 m' (fb_ptr kb + 4 * of_nat (y * unat ((ucast (fb_pitch kb) :: u32) div 4) + x)) =
       rgb_color (HSVtoRGB (of_nat ((x * 256 div unat (ucast (fb_w kb) :: u32) + n mod 255) mod 256)) 255 255)) \<and>
    (\<forall>a. off_screen kb a \<longrightarrow> m' a = m a)"
proof -
  obtain c m1 h1 where s: "idle dev hp kb n (0, m, h) = Some (c, m1, h1)" "unat c = n mod 255"
    using idle_runs [OF assms] by blast
  obtain c' m' h' where s': "idle dev hp kb (Suc n) (0, m, h) = Some (c', m', h')" "unat c' = Suc n mod 255"
    "\<forall>a. off_screen kb a \<longrightarrow> m' a = m a" using idle_runs [OF assms] by blast
  have "m' = framebuffer_display_animated_pattern (fb_ptr kb) (ucast (fb_w kb)) (ucast (fb_h kb)) (ucast (fb_pitch kb)) c m1"
    using s'(1) unfolding idle_Suc_last s(1) by (auto simp: idle_round_def Let_def split: option.splits)
  with patterns_drawn [OF assms(2), where fb = "fb_ptr kb" and cycle = c and m = m1]
  have "\<forall>y<unat (ucast (fb_h kb) :: u32). \<forall>x<unat (ucast (fb_w kb) :: u32).
       load32 m' (fb_ptr kb + 4 * of_nat (y * unat ((ucast (fb_pitch kb) :: u32) div 4) + x)) =
       rgb_color (HSVtoRGB (of_nat ((x * 256 div unat (ucast (fb_w kb) :: u32) + n mod 255) mod 256)) 255 255)"
    unfolding Let_def s(2) by blast
  with s' show ?thesis by blast
qed

end
