(* ===== verification/PhysBoot.thy ===== *)
theory PhysBoot
  imports PhysMem
begin

text \<open>
  What \<open>physmem_init\<close> leaves free on the processor, whose 32-bit shift takes the count modulo 32: the
  mask of page 31 or 63 of a bitmap word covers the upper half of the word, those of the pages
  between them bits of the lower half. A map whose available region covers the whole of the first
  two words frees all their pages above the reserved ones.
\<close>

section \<open>Freeing a range\<close>

text \<open>Setting the bit of page \<open>p\<close> to free frees page \<open>q\<close>; setting it to used leaves \<open>q\<close> alone.\<close>

definition frees :: "int_shl \<Rightarrow> nat \<Rightarrow> nat \<Rightarrow> bool" where
  "frees ub p q \<longleftrightarrow> p div 64 = q div 64 \<and> bit (set_phys_mask ub (p mod 64)) (q mod 64)"

definition spares :: "nat \<Rightarrow> nat \<Rightarrow> bool" where
  "spares p q \<longleftrightarrow> p div 64 \<noteq> q div 64 \<or> p mod 64 < 31 \<and> p \<noteq> q"

lemma mask_low_bit: "n < 31 \<Longrightarrow> bit (set_phys_mask ub n) k \<longleftrightarrow> k = n"
  unfolding set_phys_mask_low bit_push_bit_1 by auto

lemma set_phys_free:
  assumes "set_phys ub a b s = Inr s'" "pmm_ok s" "b = 0 \<or> spares (page_of a) q"
    and "\<not> page_used (pmm s) q \<or> b = 0 \<and> frees ub (page_of a) q"
  shows "\<not> page_used (pmm s') q"
proof -
  have "\<not> bit (set_phys_mask ub (page_of a mod 64)) (q mod 64)"
    if "page_of a mod 64 < 31" "page_of a \<noteq> q" "q div 64 = page_of a div 64"
    using that mask_low_bit [OF that(1)] by (simp add: page_eq_iff [of "page_of a"])
  then show ?thesis
    using assms(3,4) unfolding set_phys_used [OF assms(1,2)] by (auto simp: spares_def frees_def)
qed

lemma set_range_free:
  assumes "set_range ub a e bf s = Inr s'" and "pmm_ok s" and "2097152 dvd unat a"
    and "\<forall>p. page_of a \<le> p \<and> p * 2097152 < unat e \<longrightarrow> bf (of_nat p * PAGE_SIZE) = 0 \<or> spares p q"
    and "\<not> page_used (pmm s) q \<or>
      (\<exists>p. page_of a \<le> p \<and> p * 2097152 < unat e \<and> bf (of_nat p * PAGE_SIZE) = 0 \<and> frees ub p q)"
  shows "\<not> page_used (pmm s') q"
  using assms
proof (induction ub a e bf s rule: set_range.induct)
  case (1 ub a e bf s)
  note al = aligned_page [OF "1.prems"(3)] and aw = aligned_page_word [OF "1.prems"(3)]
  show ?case
  proof (cases "a < e")
    case False
    then have "\<not> (page_of a \<le> p \<and> p * 2097152 < unat e)" for p
      using al by (auto simp: word_less_nat_alt dest: mult_le_mono1 [of _ _ 2097152])
    with "1.prems"(1,5) False show ?thesis by (auto simp: set_range.simps [of ub a])
  next
    case True
    with "1.prems"(1) obtain s1 where s1: "set_phys ub a (bf a) s = Inr s1"
        "set_range ub (a + PAGE_SIZE) e bf s1 = Inr s'"
      by (auto simp: set_range.simps [of ub a] fault_simps)
    note nx = page_of_next [OF set_phys_bound [OF s1(1)]]
    have here: "page_of a * 2097152 < unat e" using True al by (simp add: word_less_nat_alt)
    have harm: "bf a = 0 \<or> spares (page_of a) q" using "1.prems"(4) here aw by auto
    have first: "\<not> page_used (pmm s1) q" if "\<not> page_used (pmm s) q \<or> bf a = 0 \<and> frees ub (page_of a) q"
      by (rule set_phys_free [OF s1(1) "1.prems"(2) harm that])
    have "\<not> page_used (pmm s1) q \<or>
        (\<exists>p. Suc (page_of a) \<le> p \<and> p * 2097152 < unat e \<and> bf (of_nat p * PAGE_SIZE) = 0 \<and> frees ub p q)"
      using "1.prems"(5) first aw by (metis le_neq_implies_less Suc_leI)
    then show ?thesis
      using "1.IH" [OF True s1(1) s1(2) set_phys_ok [OF s1(1) "1.prems"(2)]] "1.prems"(3,4)
      by (simp add: nx)
  qed
qed

section \<open>The masks of the processor\<close>

lemma x86_mask: "31 \<le> n \<Longrightarrow> n = 31 \<or> n = 63 \<Longrightarrow> 31 \<le> k \<Longrightarrow> k < 64 \<Longrightarrow> bit (set_phys_mask x86_shl n) k"
  by (auto simp: set_phys_mask_def int_shl1_def x86_shl_def bit_simps)

text \<open>Each page of a word is freed by itself or by the page of bit 31.\<close>

lemma x86_frees: "frees x86_shl (if q mod 64 < 31 then q else q div 64 * 64 + 31) q"
proof (cases "q mod 64 < 31")
  case True
  then show ?thesis using mask_low_bit [OF True] by (simp add: frees_def)
next
  case False
  then show ?thesis using x86_mask [of 31 "q mod 64"] by (simp add: frees_def)
qed

section \<open>The map\<close>

text \<open>
  An available region from the second page or below to 256 MiB or above, after regions that start
  no higher, and before regions above 256 MiB.
\<close>

definition low_map :: "mmap_entry list \<Rightarrow> bool" where
  "low_map mmaps \<longleftrightarrow> map_fits mmaps \<and> (\<exists>es e ds. mmaps = es @ e # ds \<and> mm_type e = MULTIBOOT_MEMORY_AVAILABLE \<and>
     unat (mm_addr e) \<le> 2097152 \<and> 268435456 \<le> unat (mm_addr e) + unat (mm_len e) \<and>
     (\<forall>d\<in>set es. mm_addr d \<le> mm_addr e) \<and> (\<forall>d\<in>set ds. 268435456 \<le> unat (mm_addr d)))"

lemma sum_avail_covers:
  "e \<in> set es \<Longrightarrow> mm_type e = MULTIBOOT_MEMORY_AVAILABLE \<Longrightarrow> mm_addr e + mm_len e \<le> snd (sum_avail es t h)"
proof (induction es arbitrary: t h)
  case (Cons d es)
  have grow: "h' \<le> snd (sum_avail es t' h')" for t' h'
    by (induction es arbitrary: t' h') (auto intro: order_trans less_imp_le)
  show ?case
  proof (cases "d = e")
    case True
    then show ?thesis using grow Cons.prems(2) by (auto simp: not_less intro: order_trans)
  next
    case False
    then show ?thesis using Cons by auto
  qed
qed simp

lemma mark_entries_append:
  "\<forall>d\<in>set es. mm_addr d \<le> phys_end s \<Longrightarrow> mark_entries ub (es @ ds) s = bindE (mark_entries ub es s) (mark_entries ub ds)"
proof (induction es arbitrary: s)
  case (Cons d es)
  show ?case
  proof (cases "mark_entry ub d s")
    case (Inr s1)
    then have "phys_end s1 = phys_end s" using set_range_frame [OF Inr [unfolded mark_entry_def]] by auto
    moreover have "\<not> phys_end s < mm_addr d" using Cons.prems by (simp add: not_less)
    ultimately show ?thesis using Cons Inr by simp
  next
    case (Inl x)
    moreover have "\<not> phys_end s < mm_addr d" using Cons.prems by (simp add: not_less)
    ultimately show ?thesis by simp
  qed
qed simp

lemma mark_entries_spare:
  assumes "mark_entries ub ds s = Inr s'" "pmm_ok s" "map_fits ds" "\<forall>d\<in>set ds. 268435456 \<le> unat (mm_addr d)"
    and "q < 128" "\<not> page_used (pmm s) q"
  shows "\<not> page_used (pmm s') q"
  using assms(1-4,6)
proof (induction ds arbitrary: s)
  case (Cons d ds)
  show ?case
  proof (cases "mm_addr d > phys_end s")
    case True
    then show ?thesis using Cons.prems by simp
  next
    case False
    with Cons.prems(1) obtain s1 where s1: "mark_entry ub d s = Inr s1" "mark_entries ub ds s1 = Inr s'"
      by (auto simp: fault_simps)
    have le: "unat (mm_addr d) \<le> 2 ^ 36" using Cons.prems(3) by (simp add: map_fits_def)
    then have u: "unat (round_up_to_page (mm_addr d)) = (unat (mm_addr d) + 2097151) div 2097152 * 2097152"
      by (intro unat_round_up_to_page) simp
    then have al: "2097152 dvd unat (round_up_to_page (mm_addr d))" "page_of (round_up_to_page (mm_addr d)) = (unat (mm_addr d) + 2097151) div 2097152"
      by (simp_all add: page_of_def)
    have "268435456 \<le> unat (mm_addr d)" using Cons.prems(4) by simp
    then have "128 \<le> (unat (mm_addr d) + 2097151) div 2097152" by (simp add: less_eq_div_iff_mult_less_eq)
    then have sp: "spares p q" if "page_of (round_up_to_page (mm_addr d)) \<le> p" for p
    proof -
      have "128 \<le> p" using that al(2) \<open>128 \<le> _\<close> by linarith
      then have "2 \<le> p div 64" by (simp add: less_eq_div_iff_mult_less_eq)
      moreover have "q div 64 < 2" using assms(5) by (simp add: div_less_iff_less_mult)
      ultimately show ?thesis by (simp add: spares_def)
    qed
    have "\<not> page_used (pmm s1) q"
      by (rule set_range_free [OF s1(1) [unfolded mark_entry_def] Cons.prems(2) al(1)]) (use sp Cons.prems(5) in auto)
    moreover have "pmm_ok s1" using set_range_frame [OF s1(1) [unfolded mark_entry_def]] Cons.prems(2) by (auto simp: pmm_ok_def)
    ultimately show ?thesis using Cons.IH [OF s1(2)] Cons.prems(3,4) by (simp add: map_fits_def)
  qed
qed simp

lemma low_entry_free:
  assumes "mark_entry x86_shl e s = Inr s'" "pmm_ok s" "mm_type e = MULTIBOOT_MEMORY_AVAILABLE"
    and "unat (mm_addr e) \<le> 2097152" "268435456 \<le> unat (mm_addr e) + unat (mm_len e)"
    and "unat (mm_addr e) + unat (mm_len e) \<le> 2 ^ 36" and "0 < q" "q < 128"
  shows "\<not> page_used (pmm s') q"
proof -
  let ?a = "round_up_to_page (mm_addr e)" and ?e = "round_up_to_page (mm_addr e + mm_len e)"
  let ?p = "if q mod 64 < 31 then q else q div 64 * 64 + 31"
  have sum: "unat (mm_addr e + mm_len e) = unat (mm_addr e) + unat (mm_len e)" using assms(6) by (subst unat_add_small) simp_all
  then have "unat ?e = (unat (mm_addr e + mm_len e) + 2097151) div 2097152 * 2097152"
    using assms(6) by (intro unat_round_up_to_page) simp
  moreover have "128 \<le> (unat (mm_addr e + mm_len e) + 2097151) div 2097152"
    using sum assms(5) by (simp add: less_eq_div_iff_mult_less_eq)
  ultimately have hi: "268435456 \<le> unat ?e" by simp
  have "unat ?a = (unat (mm_addr e) + 2097151) div 2097152 * 2097152" using assms(4) by (intro unat_round_up_to_page) simp
  moreover have "(unat (mm_addr e) + 2097151) div 2097152 \<le> 1" using assms(4) by simp
  ultimately have lo: "2097152 dvd unat ?a" "page_of ?a \<le> 1" by (simp_all add: page_of_def)
  have bf: "of_bool (mm_type e \<noteq> MULTIBOOT_MEMORY_AVAILABLE \<or> of_nat p * PAGE_SIZE < PAGE_SIZE) = (0 :: u8)"
    if "0 < p" "p * 2097152 < unat ?e" for p
  proof -
    have "p * 2097152 < 2 ^ 64" using that(2) unat_lt_64 [of ?e] by linarith
    then have "unat (of_nat p * PAGE_SIZE) = p * 2097152" by (simp add: unat_word_ariths unat_of_nat)
    then show ?thesis using that(1) assms(3) by (simp add: word_less_nat_alt)
  qed
  have "q div 64 < 2" using assms(8) by (simp add: div_less_iff_less_mult)
  then have "q div 64 * 64 + 31 < 128" by simp
  then have "?p < 128" "0 < ?p" using assms(7,8) by simp_all
  then have "page_of ?a \<le> ?p \<and> ?p * 2097152 < unat ?e" using lo(2) hi by linarith
  with \<open>0 < ?p\<close> bf [of ?p] x86_frees [of q]
  have "\<exists>p. page_of ?a \<le> p \<and> p * 2097152 < unat ?e \<and>
     of_bool (mm_type e \<noteq> MULTIBOOT_MEMORY_AVAILABLE \<or> of_nat p * PAGE_SIZE < PAGE_SIZE) = (0 :: u8) \<and> frees x86_shl p q"
    by blast
  moreover have "of_bool (mm_type e \<noteq> MULTIBOOT_MEMORY_AVAILABLE \<or> of_nat p * PAGE_SIZE < PAGE_SIZE) = (0 :: u8) \<or> spares p q"
    if "p * 2097152 < unat ?e" for p
    using bf [OF _ that] assms(7) by (cases "p = 0") (auto simp: spares_def)
  ultimately show ?thesis
    using set_range_free [OF assms(1) [unfolded mark_entry_def] assms(2) lo(1)] by blast
qed

lemma physmem_init_low_free:
  assumes "physmem_init x86_shl mmaps = Inr (tot, s)" "low_map mmaps"
  shows "low_free s"
proof -
  from assms(2) obtain es e ds where map: "map_fits mmaps" "mmaps = es @ e # ds" "mm_type e = MULTIBOOT_MEMORY_AVAILABLE"
    "unat (mm_addr e) \<le> 2097152" "268435456 \<le> unat (mm_addr e) + unat (mm_len e)"
    "\<forall>d\<in>set es. mm_addr d \<le> mm_addr e" "\<forall>d\<in>set ds. 268435456 \<le> unat (mm_addr d)"
    unfolding low_map_def by blast
  let ?h = "snd (sum_avail mmaps 0 0)"
  have e: "e \<in> set mmaps" using map(2) by simp
  have fits: "unat (mm_addr e) + unat (mm_len e) \<le> 2 ^ 36" using map(1) e unfolding map_fits_def by blast
  have sum: "unat (mm_addr e + mm_len e) = unat (mm_addr e) + unat (mm_len e)" using fits by (subst unat_add_small) simp_all
  have h: "unat (mm_addr e) + unat (mm_len e) \<le> unat ?h" "unat ?h \<le> 2 ^ 36"
    using sum_avail_covers [OF e map(3)] sum sum_avail_bound [OF map(1)] by (simp_all add: word_le_nat_alt)
  define s0 where "s0 = \<lparr>pmm = replicate (unat (mm_end s)) (-1) @ drop (unat (mm_end s)) (replicate PMM_SIZE 0x0101010101010101),
      mb_mmaps = mmaps, mb_size = of_nat (length mmaps), mm_end = mm_end s, phys_end = round_up_to_page ?h,
      total_avail = fst (sum_avail mmaps 0 0)\<rparr>"
  note res = physmem_init_result [OF assms(1)]
  obtain s1 where le: "unat (mm_end s) \<le> PMM_SIZE" and s1: "mark_entries x86_shl mmaps s0 = Inr s1"
    and s: "reserve_low x86_shl [0..<16] s1 = Inr s"
    using assms(1) unfolding res(5) s0_def
    by (auto simp: physmem_init_def Let_def case_prod_beta fault_simps split: if_splits)
  have "pmm_ok s0" using le by (simp add: s0_def pmm_ok_def)
  have "unat ?h \<le> unat (phys_end s0)"
    using h(2) by (simp add: s0_def unat_round_up_to_page)
  then have "\<forall>d\<in>set es. mm_addr d \<le> phys_end s0" "mm_addr e \<le> phys_end s0"
    using h(1) map(6) by (auto simp: word_le_nat_alt)
  with s1 obtain s2 where s2: "mark_entries x86_shl es s0 = Inr s2" "mark_entries x86_shl (e # ds) s2 = Inr s1"
    unfolding map(2) by (auto simp del: mark_entries.simps simp: mark_entries_append fault_simps)
  have f2: "pmm_ok s2" "phys_end s2 = phys_end s0" using mark_entries_frame [OF s2(1)] \<open>pmm_ok s0\<close> by (auto simp: pmm_ok_def)
  then have "\<not> phys_end s2 < mm_addr e" using \<open>mm_addr e \<le> phys_end s0\<close> by (simp add: not_less)
  with s2(2) obtain s3 where s3: "mark_entry x86_shl e s2 = Inr s3" "mark_entries x86_shl ds s3 = Inr s1"
    by (auto simp: fault_simps)
  have f3: "pmm_ok s3" using set_range_frame [OF s3(1) [unfolded mark_entry_def]] f2(1) by (auto simp: pmm_ok_def)
  have f1: "pmm_ok s1" using mark_entries_frame [OF s3(2)] f3 by (auto simp: pmm_ok_def)
  have "map_fits ds" using map(1,2) by (simp add: map_fits_def)
  then have free: "\<not> page_used (pmm s1) q" if "0 < q" "q < 128" for q
    using mark_entries_spare [OF s3(2) f3 _ map(7) that(2)] low_entry_free [OF s3(1) f2(1) map(3-5) fits that] by blast
  have "page_used (pmm s) q \<longleftrightarrow> page_used (pmm s1) q \<or> q < 16" for q using reserve_low_rule [OF s f1] by auto
  then have "\<forall>q<128. page_used (pmm s) q \<longleftrightarrow> q < 16" using free by (metis gr0I zero_less_numeral)
  moreover have "2 \<le> unat (mm_end s)"
  proof -
    have "268435456 \<le> unat ?h" using h(1) map(5) by linarith
    then have "2 * 64 \<le> (unat ?h + 2097151) div 2097152" by (simp add: less_eq_div_iff_mult_less_eq)
    then show ?thesis using mm_end_value [OF h(2)] res(5) by (simp add: less_eq_div_iff_mult_less_eq)
  qed
  ultimately show ?thesis using res(1) by (simp add: low_free_def)
qed

end
