(* ===== verification/BootTags.thy ===== *)
theory BootTags
  imports Boot PhysBoot
begin

text \<open>
  What the tag loop of \<open>kmain\<close> has read when it ends: the framebuffer, the memory map and the RSDP,
  as a function of the list of tags in the loader's memory.
\<close>

section \<open>What the tags say\<close>

text \<open>A tag the framebuffer is taken from: also one with the loader's name may pass the tests.\<close>

definition usable_fb :: "mem \<Rightarrow> u64 \<Rightarrow> bool" where
  "usable_fb m t \<longleftrightarrow> tag_type m t \<in> {2, 8} \<and> tagfb_addr m t \<noteq> 0 \<and> tagfb_addr m t \<le> 0x100000000000 \<and>
     64 \<le> tagfb_width m t \<and> 64 \<le> tagfb_height m t"

definition fb_fields :: "kernel_boot_t \<Rightarrow> u64 \<times> u64 \<times> u64 \<times> u64 \<times> u64 \<times> u64" where
  "fb_fields kb = (fb_ptr kb, fb_addr kb, fb_w kb, fb_h kb, fb_pitch kb, fb_bpp kb)"

definition fb_of_tag :: "mem \<Rightarrow> u64 \<Rightarrow> u64 \<times> u64 \<times> u64 \<times> u64 \<times> u64 \<times> u64" where
  "fb_of_tag m t = (0, tagfb_addr m t, ucast (tagfb_width m t), ucast (tagfb_height m t), ucast (tagfb_pitch m t), ucast (tagfb_bpp m t))"

definition fb_told :: "mem \<Rightarrow> u64 list \<Rightarrow> u64 \<times> u64 \<times> u64 \<times> u64 \<times> u64 \<times> u64" where
  "fb_told m ts = (let us = filter (usable_fb m) ts in if us = [] then (0, 0, 0, 0, 0, 0) else fb_of_tag m (last us))"

definition mmap_count :: "mem \<Rightarrow> u64 \<Rightarrow> u64" where
  "mmap_count m t = (ucast (tag_size m t) - sizeof_tag_mmap) div ucast (tagmm_entry_size m t)"

definition map_of_tag :: "mem \<Rightarrow> u64 \<Rightarrow> mmap_entry list" where
  "map_of_tag m t = mmap_entries m t (unat (mmap_count m t))"

text \<open>The page allocator is the one the last memory map gives.\<close>

definition map_told :: "int_shl \<Rightarrow> physmem \<Rightarrow> mem \<Rightarrow> u64 list \<Rightarrow> boot_state \<Rightarrow> bool" where
  "map_told ub pm m ts s \<longleftrightarrow> (let us = filter (\<lambda>t. tag_type m t = 6) ts
     in if us = [] then b_total s = 0 \<and> b_pmm s = pm \<and> kmb_mmap_size (b_kboot s) = 0
        else b_total s \<noteq> 0 \<and> physmem_init ub (map_of_tag m (last us)) = Inr (b_total s, b_pmm s) \<and>
          kmb_mmap_size (b_kboot s) = mmap_count m (last us))"

section \<open>Reading apart from the command line\<close>

text \<open>What is read of a tag is away from the command line structure, the only thing the loop writes.\<close>

definition tag_apart :: "u64 \<Rightarrow> mem \<Rightarrow> u64 \<Rightarrow> bool" where
  "tag_apart cl m t \<longleftrightarrow> (tag_type m t \<in> {2, 8} \<longrightarrow> away cl t 29) \<and>
     (tag_type m t = 6 \<longrightarrow> away cl t (16 + 24 * unat (mmap_count m t)))"

lemma same_fb:
  assumes "same_info cl m m'" "away cl t 29"
  shows "tagfb_addr m' t = tagfb_addr m t" "tagfb_pitch m' t = tagfb_pitch m t" "tagfb_width m' t = tagfb_width m t"
    "tagfb_height m' t = tagfb_height m t" "tagfb_bpp m' t = tagfb_bpp m t"
proof -
  have b: "load_bytes m' (t + 28) 1 = load_bytes m (t + 28) 1" using same_info_away [OF assms, of 28 1] by simp
  from arg_cong [OF b, of "\<lambda>bs. bs ! 0"] show "tagfb_bpp m' t = tagfb_bpp m t" by (simp add: tagfb_bpp_def)
  show "tagfb_addr m' t = tagfb_addr m t" "tagfb_pitch m' t = tagfb_pitch m t" "tagfb_width m' t = tagfb_width m t"
    "tagfb_height m' t = tagfb_height m t"
    using same_info_away [OF assms, of 8 8] same_info_away [OF assms, of 16 4] same_info_away [OF assms, of 20 4]
      same_info_away [OF assms, of 24 4]
    by (simp_all add: tagfb_addr_def tagfb_pitch_def tagfb_width_def tagfb_height_def load64_def load32_def)
qed

lemma same_map:
  assumes "same_info cl m m'" "away cl t (16 + 24 * n)" "n = unat (mmap_count m t)"
  shows "tagmm_entry_size m' t = tagmm_entry_size m t" "tag_size m' t = tag_size m t"
    "mmap_entries m' t n = mmap_entries m t n" "mmap_count m' t = mmap_count m t"
proof -
  note same = same_info_away [OF assms(1,2)]
  show s: "tagmm_entry_size m' t = tagmm_entry_size m t" "tag_size m' t = tag_size m t"
    using same [of 8 4] same [of 4 4] by (simp_all add: tagmm_entry_size_def tag_size_def load32_def)
  then show "mmap_count m' t = mmap_count m t" by (simp add: mmap_count_def)
  have "load_bytes m' (t + sizeof_tag_mmap + 24 * of_nat i + of_nat j) k = load_bytes m (t + sizeof_tag_mmap + 24 * of_nat i + of_nat j) k"
    if "i < n" "j + k \<le> 24" for i j k
  proof -
    have "16 + 24 * i + j + k \<le> 16 + 24 * n" using that by linarith
    from same [OF this] show ?thesis by (simp add: sizeof_tag_mmap_def add.assoc)
  qed
  from this [of _ 0 8] this [of _ 8 8] this [of _ 16 4] show "mmap_entries m' t n = mmap_entries m t n"
    by (simp add: mmap_entries_def Let_def load64_def load32_def)
qed

section \<open>The loop\<close>

definition boot_seen :: "u64 \<Rightarrow> int_shl \<Rightarrow> physmem \<Rightarrow> mem \<Rightarrow> u64 list \<Rightarrow> boot_state \<Rightarrow> bool" where
  "boot_seen cl ub pm m ts s \<longleftrightarrow> same_info cl m (b_mem s) \<and> fb_fields (b_kboot s) = fb_told m ts \<and> map_told ub pm m ts s"

text \<open>A tag of another kind leaves both as they were.\<close>

lemma told_other:
  assumes "tag_type m t \<notin> {2, 6, 8}"
  shows "fb_told m (as @ [t]) = fb_told m as" "map_told ub pm m (as @ [t]) s = map_told ub pm m as s"
  using assms by (simp_all add: fb_told_def map_told_def usable_fb_def)

lemma fb_told_snoc: "fb_told m (as @ [t]) = (if usable_fb m t then fb_of_tag m t else fb_told m as)"
  by (simp add: fb_told_def Let_def)

lemma map_told_snoc:
  "tag_type m t = 6 \<Longrightarrow> map_told ub pm m (as @ [t]) s \<longleftrightarrow>
     b_total s \<noteq> 0 \<and> physmem_init ub (map_of_tag m t) = Inr (b_total s, b_pmm s) \<and> kmb_mmap_size (b_kboot s) = mmap_count m t"
  by (simp add: map_told_def)

lemma map_told_cong:
  "b_total s' = b_total s \<Longrightarrow> b_pmm s' = b_pmm s \<Longrightarrow> kmb_mmap_size (b_kboot s') = kmb_mmap_size (b_kboot s) \<Longrightarrow>
     map_told ub pm m as s' = map_told ub pm m as s"
  by (simp add: map_told_def)

lemma tag_cmdline_keeps:
  "tag_cmdline e tag s = Inr s' \<Longrightarrow> fb_fields (b_kboot s') = fb_fields (b_kboot s) \<and> b_total s' = b_total s \<and>
     b_pmm s' = b_pmm s \<and> kmb_mmap_size (b_kboot s') = kmb_mmap_size (b_kboot s)"
  by (auto simp: tag_cmdline_def Let_def fault_simps fb_fields_def split: if_splits prod.splits)

lemma boot_seen_step:
  assumes i: "boot_seen cl ub pm m as s" and st: "tag_step e t s = Inr s'" and cl: "cl = e_cl e" and ub: "ub = e_ub e"
    and aw: "away cl t 8" "tag_apart cl m t"
  shows "boot_seen cl ub pm m (as @ [t]) s'"
proof -
  have same: "same_info cl m (b_mem s)" and fb: "fb_fields (b_kboot s) = fb_told m as" and mm: "map_told ub pm m as s"
    using i by (simp_all add: boot_seen_def)
  have same': "same_info cl m (b_mem s')" using same tag_step_same_info [OF st] by (simp add: cl same_info_def)
  have ty: "tag_type (b_mem s) t = tag_type m t" using same_tag(1) [OF same aw(1)] .
  consider "tag_type m t \<in> {2, 8}" | "tag_type m t = 6" | "tag_type m t = 1" | "tag_type m t \<in> {14, 15}"
    | "tag_type m t \<notin> {1, 2, 6, 8, 14, 15}" by blast
  then show ?thesis
  proof cases
    case 1
    then have s': "s' = tag_framebuffer t s" using st ty by (auto simp: tag_step_def)
    have "away cl t 29" using aw(2) 1 by (auto simp: tag_apart_def)
    have f: "tagfb_addr (b_mem s) t = tagfb_addr m t" "tagfb_pitch (b_mem s) t = tagfb_pitch m t" "tagfb_width (b_mem s) t = tagfb_width m t"
      "tagfb_height (b_mem s) t = tagfb_height m t" "tagfb_bpp (b_mem s) t = tagfb_bpp m t"
      by (rule same_fb [OF same \<open>away cl t 29\<close>])+
    have "fb_fields (b_kboot s') = fb_told m (as @ [t])"
      unfolding s' fb_told_snoc using 1 f fb
      by (auto simp: tag_framebuffer_def Let_def usable_fb_def fb_of_tag_def fb_fields_def not_less not_le)
    moreover have "map_told ub pm m (as @ [t]) s' = map_told ub pm m as s'" using 1 by (auto simp: map_told_def)
    moreover have "map_told ub pm m as s' = map_told ub pm m as s"
      unfolding s' by (rule map_told_cong) (simp_all add: tag_framebuffer_def Let_def)
    ultimately show ?thesis using same' mm by (simp add: boot_seen_def)
  next
    case 2
    let ?n = "unat (mmap_count m t)"
    have "away cl t (16 + 24 * ?n)" using aw(2) 2 by (simp add: tag_apart_def)
    note mp = same_map [OF same this refl]
    have cnt: "(ucast (tag_size m t) - sizeof_tag_mmap) div ucast (tagmm_entry_size m t) = mmap_count m t"
      by (simp add: mmap_count_def)
    have "tag_mmap e t s = Inr s'" using st ty 2 by (simp add: tag_step_def)
    then obtain tot ph where s': "s' = s\<lparr>b_kboot := (b_kboot s)\<lparr>kmb_mmap_size := mmap_count m t\<rparr>, b_total := tot, b_pmm := ph\<rparr>"
      "physmem_init ub (map_of_tag m t) = Inr (tot, ph)" "tot \<noteq> 0"
      by (auto simp: tag_mmap_def Let_def mp(1-3) cnt ub map_of_tag_def fault_simps split: if_splits prod.splits)
    have "fb_told m (as @ [t]) = fb_told m as" using 2 by (simp add: fb_told_snoc usable_fb_def)
    then show ?thesis using s' same' fb 2 by (simp add: boot_seen_def map_told_snoc fb_fields_def)
  next
    case 3
    then have "tag_cmdline e t s = Inr s'" using st ty by (simp add: tag_step_def)
    note k = tag_cmdline_keeps [OF this]
    have "map_told ub pm m as s'" using mm k map_told_cong [of s' s] by simp
    then show ?thesis using same' fb k 3 by (simp add: boot_seen_def told_other)
  next
    case 4
    then have "tag_acpi t s = Inr s'" using st ty by (auto simp: tag_step_def)
    note k = tag_acpi_same [OF this]
    have "map_told ub pm m as s'" using mm k map_told_cong [of s' s] by simp
    moreover have "tag_type m t \<notin> {2, 6, 8}" using 4 by auto
    ultimately show ?thesis using same' fb k by (simp add: boot_seen_def told_other)
  next
    case 5
    then have "s' = s \<or> s' = s\<lparr>b_kboot := (b_kboot s)\<lparr>is_legacy_bios := False\<rparr>\<rparr>"
      using st ty by (auto simp: tag_step_def Let_def split: if_splits)
    then have "fb_fields (b_kboot s') = fb_fields (b_kboot s)" "map_told ub pm m as s' = map_told ub pm m as s"
      by (auto simp: fb_fields_def map_told_def)
    moreover have "tag_type m t \<notin> {2, 6, 8}" using 5 by auto
    ultimately show ?thesis using same' fb mm by (simp add: boot_seen_def told_other)
  qed
qed

lemma boot_loop_seen:
  assumes "boot_tags cl m p ts" "\<forall>t\<in>set ts. tag_apart cl m t" "cl = e_cl e" "ub = e_ub e"
  shows "\<exists>r. tag_loop e p (boot_start pm m) = Some r \<and>
    (\<forall>s. r = Inr s \<longrightarrow> boot_seen cl ub pm m ts s \<and> rsdp_inv cl m (acpi_rsdps m ts) s)"
proof -
  let ?I = "boot_seen cl ub pm m"
  have start: "?I [] (boot_start pm m)"
    by (simp add: boot_seen_def same_info_def boot_start_def fb_fields_def fb_told_def map_told_def kboot_zero_def)
  have same: "same_info cl m (b_mem s)" if "?I as s" for as s using that by (simp add: boot_seen_def)
  have step: "?I (as @ [t]) s'" if "?I as s" "t \<in> set ts" "tag_step e t s = Inr s'" for as s s' t
    using boot_seen_step [OF that(1,3) assms(3,4)] boot_tags_at [OF assms(1) that(2)] assms(2) that(2) by blast
  have "\<exists>r. tag_loop e p (boot_start pm m) = Some r \<and> (\<forall>s. r = Inr s \<longrightarrow> ?I ([] @ ts) s)"
    by (rule tag_loop_collects [where I = ?I, OF assms(1) start]) (use same step in blast)+
  then obtain r where "tag_loop e p (boot_start pm m) = Some r" "\<forall>s. r = Inr s \<longrightarrow> ?I ts s" by auto
  moreover obtain r' where "tag_loop e p (boot_start pm m) = Some r'" "\<forall>s. r' = Inr s \<longrightarrow> rsdp_inv cl m (acpi_rsdps m ts) s"
    using tag_loop_rsdp [OF assms(1,3)] by blast
  ultimately show ?thesis by auto
qed

section \<open>A loop without faults\<close>

text \<open>
  The command line structure starts empty, and the literals the loop looks up are strings away
  from it.
\<close>

definition boot_image_ok :: "boot_env \<Rightarrow> mem \<Rightarrow> bool" where
  "boot_image_ok e m \<longleftrightarrow> cmdline_numargs (e_cl e) m = 0 \<and>
     (\<forall>p\<in>{e_serial e, e_dbg e, e_dumpmem e}. \<exists>bs. cstr m p bs \<and> away (e_cl e) p (length bs + 1))"

text \<open>A command line of flags that fit the buffer, or of one to sixteen arguments with values.\<close>

definition good_line :: "u8 list \<Rightarrow> bool" where
  "good_line l \<longleftrightarrow> ARG_SEP \<notin> set l \<and> length l < 64 \<or>
     (\<exists>kvs. l = render kvs \<and> kvs \<noteq> [] \<and> length kvs \<le> 16 \<and> (\<forall>kv\<in>set kvs. ok_arg kv))"

definition good_map :: "mmap_entry list \<Rightarrow> bool" where
  "good_map mmaps \<longleftrightarrow> map_fits mmaps \<and> 134217728 \<le> unat (snd (sum_avail mmaps 0 0)) \<and> fst (sum_avail mmaps 0 0) \<noteq> 0"

definition tag_good :: "u64 \<Rightarrow> mem \<Rightarrow> u64 \<Rightarrow> bool" where
  "tag_good cl m t \<longleftrightarrow> (tag_type m t = 1 \<longrightarrow> (\<exists>l. cmdline_tag cl t m l \<and> good_line l)) \<and>
     (tag_type m t = 6 \<longrightarrow> tagmm_entry_size m t \<noteq> 0 \<and> good_map (map_of_tag m t)) \<and>
     (tag_type m t \<in> {14, 15} \<longrightarrow> acpi_validate_rsdp m (acpi_tag_rsdp t))"

text \<open>Every string can be looked up.\<close>

definition args_found :: "u64 \<Rightarrow> mem \<Rightarrow> bool" where
  "args_found cl m \<longleftrightarrow> (\<forall>arg bs. cstr m arg bs \<longrightarrow>
     (\<exists>v. cmdline_getarg cl arg m = Inr v) \<and> (\<exists>b. cmdline_hasarg cl arg m = Inr b))"

definition boot_going :: "boot_env \<Rightarrow> mem \<Rightarrow> boot_state \<Rightarrow> bool" where
  "boot_going e m s \<longleftrightarrow> same_info (e_cl e) m (b_mem s) \<and> args_found (e_cl e) (b_mem s)"

lemma cstr_kept: "cstr m p bs \<Longrightarrow> away cl p (length bs + 1) \<Longrightarrow> same_info cl m m' \<Longrightarrow> cstr m' p bs"
  using cstr_away [of m p 0 bs cl "length bs + 1" m'] by (simp add: same_info_def)

lemma image_literal:
  assumes "boot_image_ok e m" "same_info (e_cl e) m m'"
  shows "\<exists>bs. cstr m' (e_serial e) bs" "\<exists>bs. cstr m' (e_dbg e) bs" "\<exists>bs. cstr m' (e_dumpmem e) bs"
proof -
  have "\<exists>bs. cstr m' p bs" if "p \<in> {e_serial e, e_dbg e, e_dumpmem e}" for p
  proof -
    have "\<exists>bs. cstr m p bs \<and> away (e_cl e) p (length bs + 1)"
      by (rule bspec [OF conjunct2 [OF assms(1) [unfolded boot_image_ok_def]] that])
    then show ?thesis using cstr_kept assms(2) by blast
  qed
  then show "\<exists>bs. cstr m' (e_serial e) bs" "\<exists>bs. cstr m' (e_dbg e) bs" "\<exists>bs. cstr m' (e_dumpmem e) bs" by simp_all
qed

lemma no_args: "cmdline_numargs cl m = 0 \<Longrightarrow> args_found cl m"
  using no_args_found unfolding args_found_def by blast

lemma good_line_parsed:
  assumes "cmdline_tag cl t m l" "good_line l"
  shows "\<exists>n m'. cmdline_parse cl t m = Inr (n, m') \<and> args_found cl m'"
  using assms(2) unfolding good_line_def
proof (elim disjE exE conjE)
  assume "ARG_SEP \<notin> set l" "length l < 64"
  then show ?thesis using cmdline_parse_flags [OF assms(1)] no_args by blast
next
  fix kvs assume "l = render kvs" "kvs \<noteq> []" "length kvs \<le> 16" "\<forall>kv\<in>set kvs. ok_arg kv"
  then show ?thesis using cmdline_parse_args [of cl t m kvs] assms(1) unfolding args_found_def by blast
qed

lemma cmdline_tag_kept:
  assumes "cmdline_tag cl t m l" "same_info cl m m'"
  shows "cmdline_tag cl t m' l"
proof -
  have aw: "away cl t (8 + (length l + 1))" and c: "cstr m (t + of_nat 8) l" and sz: "tag_size m t = of_nat (8 + (length l + 1))"
    using assms(1) by (simp_all add: cmdline_tag_def tag_string_def)
  have "cstr m' (t + of_nat 8) l"
    by (rule cstr_away [OF c aw]) (use assms(2) in \<open>simp_all add: same_info_def\<close>)
  moreover have "tag_size m' t = tag_size m t"
    using same_info_away [OF assms(2) aw, of 4 4] by (simp add: tag_size_def load32_def)
  ultimately show ?thesis using assms(1) sz by (simp add: cmdline_tag_def tag_string_def)
qed

lemma good_cmdline:
  assumes "boot_going e m s" "boot_image_ok e m" "cmdline_tag (e_cl e) t m l" "good_line l"
  shows "\<exists>s'. tag_cmdline e t s = Inr s' \<and> args_found (e_cl e) (b_mem s')"
proof -
  have same: "same_info (e_cl e) m (b_mem s)" using assms(1) by (simp add: boot_going_def)
  obtain n m' where p: "cmdline_parse (e_cl e) t (b_mem s) = Inr (n, m')" "args_found (e_cl e) m'"
    using good_line_parsed [OF cmdline_tag_kept [OF assms(3) same] assms(4)] by blast
  have same': "same_info (e_cl e) m m'" using same cmdline_parse_frame [OF p(1)] by (simp add: same_info_def)
  obtain b1 b2 where "cstr m' (e_serial e) b1" "cstr m' (e_dbg e) b2"
    using image_literal [OF assms(2) same'] by blast
  with p(2) obtain v1 v2 b where "cmdline_getarg (e_cl e) (e_serial e) m' = Inr v1" "cmdline_getarg (e_cl e) (e_dbg e) m' = Inr v2"
    "cmdline_hasarg (e_cl e) (e_dbg e) m' = Inr b" unfolding args_found_def by metis
  then show ?thesis using p by (auto simp: tag_cmdline_def Let_def)
qed

lemma good_mmap:
  assumes "boot_going e m s" "boot_image_ok e m" "tag_type m t = 6" "tag_apart (e_cl e) m t"
    "tagmm_entry_size m t \<noteq> 0" "good_map (map_of_tag m t)"
  shows "\<exists>s'. tag_mmap e t s = Inr s' \<and> b_mem s' = b_mem s"
proof -
  have same: "same_info (e_cl e) m (b_mem s)" and found: "args_found (e_cl e) (b_mem s)" using assms(1) by (simp_all add: boot_going_def)
  have "away (e_cl e) t (16 + 24 * unat (mmap_count m t))" using assms(3,4) by (simp add: tag_apart_def)
  note mp = same_map [OF same this refl]
  have cnt: "(ucast (tag_size m t) - sizeof_tag_mmap) div ucast (tagmm_entry_size m t) = mmap_count m t" by (simp add: mmap_count_def)
  obtain bs where "cstr (b_mem s) (e_dumpmem e) bs" using image_literal [OF assms(2) same] by blast
  with found obtain b where "cmdline_hasarg (e_cl e) (e_dumpmem e) (b_mem s) = Inr b" unfolding args_found_def by metis
  moreover obtain ph where "physmem_init (e_ub e) (map_of_tag m t) = Inr (fst (sum_avail (map_of_tag m t) 0 0), ph)"
    using assms(6) physmem_init_defined unfolding good_map_def by blast
  ultimately show ?thesis
    using assms(5,6) by (simp add: tag_mmap_def Let_def mp(1-3) cnt map_of_tag_def good_map_def)
qed

lemma good_step:
  assumes g: "boot_going e m s" and img: "boot_image_ok e m" and tag: "tag_good (e_cl e) m t" "tag_apart (e_cl e) m t"
    "away (e_cl e) t 8" "tag_type m t \<in> {14, 15} \<longrightarrow> away (e_cl e) (acpi_tag_rsdp t) 20"
  shows "\<exists>s'. tag_step e t s = Inr s' \<and> boot_going e m s'"
proof -
  have same: "same_info (e_cl e) m (b_mem s)" and found: "args_found (e_cl e) (b_mem s)" using g by (simp_all add: boot_going_def)
  have ty: "tag_type (b_mem s) t = tag_type m t" using same_tag(1) [OF same tag(3)] .
  have "\<exists>s'. tag_step e t s = Inr s' \<and> args_found (e_cl e) (b_mem s')"
  proof -
    consider "tag_type m t = 1" | "tag_type m t = 6" | "tag_type m t \<in> {14, 15}" | "tag_type m t \<notin> {1, 6, 14, 15}" by blast
    then show ?thesis
    proof cases
      case 1
      then show ?thesis using good_cmdline [OF g img] tag(1) ty by (auto simp: tag_good_def tag_step_def)
    next
      case 2
      then show ?thesis using good_mmap [OF g img 2 tag(2)] tag(1) ty found by (auto simp: tag_good_def tag_step_def)
    next
      case 3
      then have "acpi_validate_rsdp (b_mem s) (acpi_tag_rsdp t)"
        using tag(1,4) same_rsdp(1) [OF same] by (auto simp: tag_good_def)
      then have "\<exists>s'. tag_acpi t s = Inr s' \<and> b_mem s' = b_mem s" by (auto simp: tag_acpi_def Let_def)
      then show ?thesis using 3 ty found by (auto simp: tag_step_def)
    next
      case 4
      have "b_mem (tag_framebuffer t s) = b_mem s" by (simp add: tag_framebuffer_def Let_def)
      then show ?thesis using 4 ty found by (auto simp: tag_step_def Let_def)
    qed
  qed
  then show ?thesis using same tag_step_same_info unfolding boot_going_def same_info_def by metis
qed

lemma boot_loop_going:
  assumes "boot_tags (e_cl e) m p ts" "boot_going e m s" "boot_image_ok e m"
    "\<forall>t\<in>set ts. tag_good (e_cl e) m t \<and> tag_apart (e_cl e) m t"
  shows "\<exists>s'. tag_loop e p s = Some (Inr s')"
  using assms(1,2,4)
proof (induction ts arbitrary: p s)
  case Nil
  then have "tag_type (b_mem s) p = 0" using same_tag(1) [of "e_cl e" m "b_mem s" p] by (simp add: boot_going_def)
  then show ?case by (subst tag_loop.simps) simp
next
  case (Cons t ts)
  have t: "t = p" "tag_type m p \<noteq> 0" "away (e_cl e) p 8" "boot_tags (e_cl e) m (next_tag m p) ts"
    "tag_type m p \<in> {14, 15} \<longrightarrow> away (e_cl e) (acpi_tag_rsdp p) 20" using Cons.prems(1) by auto
  have good: "tag_good (e_cl e) m p" "tag_apart (e_cl e) m p" using Cons.prems(3) t(1) by simp_all
  from good_step [OF Cons.prems(2) assms(3) good t(3,5)] obtain s1 where s1: "tag_step e p s = Inr s1" "boot_going e m s1" by blast
  have "tag_type (b_mem s) p \<noteq> 0" "next_tag (b_mem s1) p = next_tag m p"
    using same_tag [OF _ t(3)] Cons.prems(2) s1(2) t(2) unfolding boot_going_def by auto
  then have "tag_loop e p s = tag_loop e (next_tag m p) s1" using s1(1) by (subst tag_loop.simps) simp
  then show ?case using Cons.IH [OF t(4) s1(2)] Cons.prems(3) by simp
qed

lemma boot_loop_good:
  assumes "boot_tags (e_cl e) m p ts" "boot_image_ok e m" "\<forall>t\<in>set ts. tag_good (e_cl e) m t \<and> tag_apart (e_cl e) m t"
  shows "\<exists>s'. tag_loop e p (boot_start pm m) = Some (Inr s')"
proof -
  have "boot_going e m (boot_start pm m)"
    using assms(2) by (simp add: boot_going_def boot_start_def same_info_def boot_image_ok_def no_args)
  then show ?thesis by (rule boot_loop_going [OF assms(1) _ assms(2,3)])
qed

text \<open>
  C22. What the kernel takes from the loader: on a well formed list of tags the loop ends. It ends
  without a fault unless some tag is bad: a command line beyond the buffers, a memory map that
  is empty or does not fit, or an RSDP whose checksum is wrong. Then the framebuffer is the one of
  the last tag that passes the tests (of a framebuffer or of the loader's name), the page
  allocator is what the last memory map initialises, and the RSDP is the last valid one of the
  highest revision; what no tag tells is as at the start.
\<close>
theorem boot_collects:
  assumes "boot_tags (e_cl e) m (header + 8) ts" and "\<forall>t\<in>set ts. tag_apart (e_cl e) m t" and "boot_image_ok e m"
  shows "\<exists>r. tag_loop e (header + 8) (boot_start pm m) = Some r \<and>
    (case r of Inl x \<Rightarrow> \<exists>t\<in>set ts. \<not> tag_good (e_cl e) m t
     | Inr s \<Rightarrow> fb_fields (b_kboot s) = fb_told m ts \<and> map_told (e_ub e) pm m ts s \<and>
         (if acpi_rsdps m ts = [] then b_rsdp s = 0 else best_rsdp m (acpi_rsdps m ts) (b_rsdp s)))"
proof -
  obtain r where r: "tag_loop e (header + 8) (boot_start pm m) = Some r"
    "\<forall>s. r = Inr s \<longrightarrow> boot_seen (e_cl e) (e_ub e) pm m ts s \<and> rsdp_inv (e_cl e) m (acpi_rsdps m ts) s"
    using boot_loop_seen [OF assms(1,2) refl refl] by blast
  show ?thesis
  proof (cases r)
    case (Inr s)
    then have i: "boot_seen (e_cl e) (e_ub e) pm m ts s" "rsdp_inv (e_cl e) m (acpi_rsdps m ts) s" using r(2) by blast+
    from i(2) have "if acpi_rsdps m ts = [] then b_rsdp s = 0 else best_rsdp m (acpi_rsdps m ts) (b_rsdp s)"
      by (auto simp: rsdp_inv_def best_rsdp_def)
    then show ?thesis using r(1) i(1) Inr by (simp add: boot_seen_def)
  next
    case (Inl x)
    then have "\<exists>t\<in>set ts. \<not> tag_good (e_cl e) m t" using boot_loop_good [OF assms(1,3), of pm] assms(2) r(1) by force
    then show ?thesis using r(1) Inl by simp
  qed
qed

section \<open>Witness\<close>

text \<open>
  Three tags from \<open>0x5FB0\<close>: a memory map of 512 MiB, a framebuffer of 1024 by 768 at \<open>0xFD000000\<close>
  and the new ACPI tag, whose RSDP is at \<open>0x6000\<close>.
\<close>

definition info_mem :: mem where
  "info_mem = (\<lambda>_. 0)(0x5FB0 := 6, 0x5FB4 := 40, 0x5FB8 := 24, 0x5FCB := 0x20, 0x5FD0 := 1, 0x5FD8 := 8, 0x5FDC := 32,
     0x5FE3 := 0xFD, 0x5FE9 := 0x10, 0x5FED := 4, 0x5FF1 := 3, 0x5FF4 := 32, 0x5FF8 := 15, 0x5FFC := 44, 0x6008 := 254,
     0x600F := 2, 0x6019 := 0x10)"

definition info_tags :: "u64 list" where "info_tags = [0x5FB0, 0x5FD8, 0x5FF8]"

lemma info_loads:
  "load_bytes info_mem 0x5FB0 4 = [6, 0, 0, 0]" "load_bytes info_mem 0x5FB4 4 = [40, 0, 0, 0]" "load_bytes info_mem 0x5FB8 4 = [24, 0, 0, 0]"
  "load_bytes info_mem 0x5FC0 8 = [0, 0, 0, 0, 0, 0, 0, 0]" "load_bytes info_mem 0x5FC8 8 = [0, 0, 0, 0x20, 0, 0, 0, 0]"
  "load_bytes info_mem 0x5FD0 4 = [1, 0, 0, 0]" "load_bytes info_mem 0x5FD8 4 = [8, 0, 0, 0]" "load_bytes info_mem 0x5FDC 4 = [32, 0, 0, 0]"
  "load_bytes info_mem 0x5FE0 8 = [0, 0, 0, 0xFD, 0, 0, 0, 0]" "load_bytes info_mem 0x5FE8 4 = [0, 0x10, 0, 0]"
  "load_bytes info_mem 0x5FEC 4 = [0, 4, 0, 0]" "load_bytes info_mem 0x5FF0 4 = [0, 3, 0, 0]" "info_mem 0x5FF4 = 32"
  "load_bytes info_mem 0x5FF8 4 = [15, 0, 0, 0]" "load_bytes info_mem 0x5FFC 4 = [44, 0, 0, 0]" "load_bytes info_mem 0x6028 4 = [0, 0, 0, 0]"
  "load_bytes info_mem 0x6000 20 = [0, 0, 0, 0, 0, 0, 0, 0, 254, 0, 0, 0, 0, 0, 0, 2, 0, 0, 0, 0]" "info_mem 0x600F = 2"
  by (simp_all add: load_bytes_def upt_rec info_mem_def)

lemma info_values:
  "of_le [6, 0, 0, 0] = (6 :: u32)" "of_le [40, 0, 0, 0] = (40 :: u32)" "of_le [24, 0, 0, 0] = (24 :: u32)"
  "of_le [0, 0, 0, 0, 0, 0, 0, 0] = (0 :: u64)" "of_le [0, 0, 0, 0x20, 0, 0, 0, 0] = (0x20000000 :: u64)" "of_le [1, 0, 0, 0] = (1 :: u32)"
  "of_le [8, 0, 0, 0] = (8 :: u32)" "of_le [32, 0, 0, 0] = (32 :: u32)" "of_le [0, 0, 0, 0xFD, 0, 0, 0, 0] = (0xFD000000 :: u64)"
  "of_le [0, 0x10, 0, 0] = (4096 :: u32)" "of_le [0, 4, 0, 0] = (1024 :: u32)" "of_le [0, 3, 0, 0] = (768 :: u32)"
  "of_le [15, 0, 0, 0] = (15 :: u32)" "of_le [44, 0, 0, 0] = (44 :: u32)" "of_le [0, 0, 0, 0] = (0 :: u32)"
  by code_simp+

lemma info_fields:
  "tag_type info_mem 0x5FB0 = 6" "tag_size info_mem 0x5FB0 = 40" "next_tag info_mem 0x5FB0 = 0x5FD8" "tagmm_entry_size info_mem 0x5FB0 = 24"
  "tag_type info_mem 0x5FD8 = 8" "next_tag info_mem 0x5FD8 = 0x5FF8" "tag_type info_mem 0x5FF8 = 15" "next_tag info_mem 0x5FF8 = 0x6028"
  "tag_type info_mem 0x6028 = 0" "tagfb_addr info_mem 0x5FD8 = 0xFD000000" "tagfb_pitch info_mem 0x5FD8 = 4096"
  "tagfb_width info_mem 0x5FD8 = 1024" "tagfb_height info_mem 0x5FD8 = 768" "tagfb_bpp info_mem 0x5FD8 = 32"
  "mmap_count info_mem 0x5FB0 = 1" "map_of_tag info_mem 0x5FB0 = [\<lparr>mm_addr = 0, mm_len = 0x20000000, mm_type = 1\<rparr>]"
  "acpi_validate_rsdp info_mem 0x6000" "rsdp_revision info_mem 0x6000 = 2"
  by (simp_all add: tag_type_def tag_size_def next_tag_def tagmm_entry_size_def tagfb_addr_def tagfb_pitch_def tagfb_width_def tagfb_height_def
      tagfb_bpp_def mmap_count_def map_of_tag_def mmap_entries_def sizeof_tag_mmap_def acpi_validate_rsdp_def sum_bytes_eq
      RSDP_CHECKSUM_VALIDATE_SIZE_def rsdp_revision_def load32_def load64_def info_loads info_values del: of_le.simps)

definition info_env :: boot_env where "info_env = demo_env\<lparr>e_ub := x86_shl\<rparr>"

definition info_map :: "mmap_entry list" where "info_map = [\<lparr>mm_addr = 0, mm_len = 0x20000000, mm_type = 1\<rparr>]"

definition info_kboot :: kernel_boot_t where
  "info_kboot = kboot_zero\<lparr>kmb_mmap_size := 1, fb_addr := 0xFD000000, fb_w := 1024, fb_h := 768, fb_pitch := 4096, fb_bpp := 32\<rparr>"

lemma info_well_formed:
  "boot_tags (e_cl info_env) info_mem (0x5FA8 + 8) info_tags" "\<forall>t\<in>set info_tags. tag_apart (e_cl info_env) info_mem t"
  by (simp_all add: info_fields info_tags_def info_env_def demo_env_def acpi_tag_rsdp_def tag_apart_def away_below)

lemma info_image_ok: "boot_image_ok info_env info_mem"
proof -
  have "cstr info_mem p []" if "p \<in> {0x8000, 0x8010, 0x8020}" for p
    using that by (auto simp: cstr_Nil info_mem_def)
  moreover have "cmdline_numargs 0x10000 info_mem = 0"
    by (simp add: cmdline_numargs_def cl_num_args_def load64_def load_bytes_def upt_rec info_mem_def)
  moreover have "away 0x10000 p 1" if "p \<in> {0x8000, 0x8010, 0x8020}" for p using that by (intro away_below) auto
  ultimately show ?thesis unfolding boot_image_ok_def by (force simp: info_env_def demo_env_def)
qed

lemma info_good: "\<forall>t\<in>set info_tags. tag_good (e_cl info_env) info_mem t"
  by (simp add: info_tags_def tag_good_def info_fields acpi_tag_rsdp_def good_map_def map_fits_def MULTIBOOT_MEMORY_AVAILABLE_def)

lemma info_init:
  obtains ph where "physmem_init x86_shl info_map = Inr (0x20000000, ph)"
proof -
  have "sum_avail info_map 0 0 = (0x20000000, 0x20000000)" by (simp add: info_map_def MULTIBOOT_MEMORY_AVAILABLE_def)
  moreover have "map_fits info_map" by (simp add: info_map_def map_fits_def)
  ultimately show ?thesis using physmem_init_defined [of info_map x86_shl] that by auto
qed

lemma info_loop:
  assumes "physmem_init x86_shl info_map = Inr (0x20000000, ph)"
  shows "tag_loop info_env 0x5FB0 (boot_start pm info_mem) =
    Some (Inr \<lparr>b_kboot = info_kboot, b_rsdp = 0x6000, b_total = 0x20000000, b_pmm = ph, b_mem = info_mem\<rparr>)"
proof -
  let ?s1 = "\<lparr>b_kboot = kboot_zero\<lparr>kmb_mmap_size := 1\<rparr>, b_rsdp = 0, b_total = 0x20000000, b_pmm = ph, b_mem = info_mem\<rparr>"
  let ?s2 = "\<lparr>b_kboot = info_kboot, b_rsdp = 0, b_total = 0x20000000, b_pmm = ph, b_mem = info_mem\<rparr>"
  have c: "cmdline_numargs (e_cl info_env) info_mem = 0"
    by (simp add: cmdline_numargs_def cl_num_args_def info_env_def demo_env_def load32_def load64_def load_bytes_def upt_rec info_mem_def)
  have n: "(ucast (tag_size info_mem 0x5FB0) - sizeof_tag_mmap) div ucast (tagmm_entry_size info_mem 0x5FB0) = mmap_count info_mem 0x5FB0"
    by (simp add: mmap_count_def)
  have "physmem_init (e_ub info_env) (mmap_entries info_mem 0x5FB0 (unat (1 :: u64))) = Inr (0x20000000, ph)"
    using assms info_fields(15,16) by (simp add: info_env_def info_map_def map_of_tag_def)
  then have 1: "tag_step info_env 0x5FB0 (boot_start pm info_mem) = Inr ?s1"
    by (simp add: tag_step_def tag_mmap_def Let_def boot_start_def info_fields(1,4) c n [unfolded info_fields(1,4)])
       (simp add: info_fields(2) sizeof_tag_mmap_def)
  have 2: "tag_step info_env 0x5FD8 ?s1 = Inr ?s2"
    by (simp add: tag_step_def tag_framebuffer_def Let_def info_fields info_kboot_def kboot_zero_def)
  have 3: "tag_step info_env 0x5FF8 ?s2 = Inr (?s2\<lparr>b_rsdp := 0x6000\<rparr>)"
    by (simp add: tag_step_def tag_acpi_def Let_def info_fields acpi_tag_rsdp_def)
  have mem: "b_mem (boot_start pm info_mem) = info_mem" by (simp add: boot_start_def)
  show ?thesis
    apply (subst tag_loop.simps) apply (simp add: 1 mem info_fields)
    apply (subst tag_loop.simps) apply (simp add: 2 info_fields)
    apply (subst tag_loop.simps) apply (simp add: 3 info_fields)
    apply (subst tag_loop.simps) apply (simp add: info_fields)
    done
qed

theorem boot_collects_witness:
  "\<exists>s. tag_loop info_env 0x5FB0 (boot_start undefined info_mem) = Some (Inr s) \<and> fb_addr (b_kboot s) = 0xFD000000 \<and>
     physmem_init x86_shl info_map = Inr (b_total s, b_pmm s) \<and> best_rsdp info_mem [0x6000] (b_rsdp s)"
proof -
  obtain r where r: "tag_loop info_env 0x5FB0 (boot_start undefined info_mem) = Some r"
    "case r of Inl x \<Rightarrow> \<exists>t\<in>set info_tags. \<not> tag_good (e_cl info_env) info_mem t
     | Inr s \<Rightarrow> fb_fields (b_kboot s) = fb_told info_mem info_tags \<and> map_told (e_ub info_env) undefined info_mem info_tags s \<and>
         (if acpi_rsdps info_mem info_tags = [] then b_rsdp s = 0 else best_rsdp info_mem (acpi_rsdps info_mem info_tags) (b_rsdp s))"
    using boot_collects [OF info_well_formed info_image_ok, of undefined] by auto
  have told: "fb_told info_mem info_tags = fb_of_tag info_mem 0x5FD8" "filter (\<lambda>t. tag_type info_mem t = 6) info_tags = [0x5FB0]"
    "acpi_rsdps info_mem info_tags = [0x6000]"
    by (simp_all add: fb_told_def usable_fb_def info_tags_def info_fields acpi_rsdps_def acpi_tag_rsdp_def)
  show ?thesis
  proof (cases r)
    case (Inr s)
    then show ?thesis using r told by (simp add: fb_fields_def fb_of_tag_def info_fields map_told_def info_env_def info_map_def)
  qed (use r(2) info_good in auto)
qed

end
