(* ===== verification/DescTables.thy ===== *)
theory DescTables
  imports MemOps
begin

text \<open>
  \<^verbatim>\<open>src/boot/gdt.c\<close> and \<^verbatim>\<open>src/kernel/isr/idt.c\<close>: the task state segment with its descriptor and the
  interrupt descriptor table, as the bytes the packed structures have, and the reading of them
  by the processor they are made for. The addresses of the global objects, and the
  assembler's table of entry points, are parameters.
\<close>

section \<open>The task state segment\<close>

definition GDT_ENTRIES :: nat where "GDT_ENTRIES = 5"
definition TSS_GDT_OFFSET :: u64 where "TSS_GDT_OFFSET = 0x28"
definition sizeof_tss :: u64 where "sizeof_tss = 104"

text \<open>The bit fields of an access byte, from the lowest.\<close>

record access_bit_t =
  accessed :: bool
  RW :: bool
  DC :: bool
  exec :: bool
  not_sys :: bool
  priv :: "2 word"
  present :: bool

definition access_byte :: "access_bit_t \<Rightarrow> u8" where
  "access_byte a = of_bool (accessed a) OR push_bit 1 (of_bool (RW a)) OR push_bit 2 (of_bool (DC a)) OR
     push_bit 3 (of_bool (exec a)) OR push_bit 4 (of_bool (not_sys a)) OR push_bit 5 (ucast (priv a)) OR
     push_bit 7 (of_bool (present a))"

record gdt_entry_sys_t =
  g_size :: u16
  base_0_15 :: u16
  base_16_23 :: u8
  access :: access_bit_t
  flags :: u8
  base_24_31 :: u8
  base_31_64 :: u32
  reserved0 :: u32

definition entry_sys_bytes :: "gdt_entry_sys_t \<Rightarrow> u8 list" where
  "entry_sys_bytes g = to_le 2 (g_size g) @ to_le 2 (base_0_15 g) @ [base_16_23 g, access_byte (access g), flags g, base_24_31 g] @
     to_le 4 (base_31_64 g) @ to_le 4 (reserved0 g)"

definition tss_access :: access_bit_t where
  "tss_access = \<lparr>accessed = True, RW = False, DC = False, exec = True, not_sys = False, priv = 0, present = True\<rparr>"

definition tss_entry :: "u64 \<Rightarrow> gdt_entry_sys_t" where
  "tss_entry addr = \<lparr>g_size = ucast sizeof_tss, base_0_15 = ucast (addr AND 0xffff),
     base_16_23 = ucast (drop_bit 16 addr AND 0xff), access = tss_access, flags = 0,
     base_24_31 = ucast (drop_bit 24 addr AND 0xff), base_31_64 = ucast (drop_bit 32 addr), reserved0 = 0\<rparr>"

text \<open>\<open>tss\<close> is the address of the segment, \<open>tss_ptr\<close> the place of its descriptor.\<close>

definition make_tss :: "u64 \<Rightarrow> u64 \<Rightarrow> u64 \<Rightarrow> mem \<Rightarrow> mem" where
  "make_tss tss tss_ptr kernel_stack m =
     (let m1 = snd (memset tss 0 sizeof_tss m);
          m2 = store64 (tss + 4) kernel_stack m1
      in store_bytes tss_ptr (entry_sys_bytes (tss_entry tss)) m2)"

definition init_gdt :: "u64 \<Rightarrow> u64 \<Rightarrow> unit res" where
  "init_gdt gdt_ptr tss_ptr =
     (if tss_ptr - gdt_ptr = TSS_GDT_OFFSET then Inr ()
      else Inl (Assertion ''(GDT_TSS_PTR - GDT_PTR) == TSS_GDT_OFFSET''))"

definition init_gdt_tss :: "u64 \<Rightarrow> u64 \<Rightarrow> u64 \<Rightarrow> u64 \<Rightarrow> mem \<Rightarrow> mem res" where
  "init_gdt_tss gdt_ptr tss_ptr tss kernel_stack m =
     bindE (init_gdt gdt_ptr tss_ptr) (\<lambda>_. Inr (make_tss tss tss_ptr kernel_stack m))"

section \<open>The interrupt descriptor table\<close>

definition IDT_MAX_DESCRIPTORS :: nat where "IDT_MAX_DESCRIPTORS = 255"
definition sizeof_idt_entry :: nat where "sizeof_idt_entry = 16"

record idt_entry_t =
  isr_low :: u16
  kernel_cs :: u16
  ist :: u8
  attributes :: u8
  isr_mid :: u16
  isr_high :: u32
  reserved :: u32

definition idt_entry_bytes :: "idt_entry_t \<Rightarrow> u8 list" where
  "idt_entry_bytes d = to_le 2 (isr_low d) @ to_le 2 (kernel_cs d) @ [ist d, attributes d] @ to_le 2 (isr_mid d) @
     to_le 4 (isr_high d) @ to_le 4 (reserved d)"

definition idt_descriptor :: "u64 \<Rightarrow> u8 \<Rightarrow> idt_entry_t" where
  "idt_descriptor isr flgs = \<lparr>isr_low = ucast (isr AND 0xFFFF), kernel_cs = 8, ist = 0, attributes = flgs,
     isr_mid = ucast (drop_bit 16 isr AND 0xFFFF), isr_high = ucast (drop_bit 32 isr AND 0xFFFFFFFF), reserved = 0\<rparr>"

definition idt_set_descriptor :: "u64 \<Rightarrow> u8 \<Rightarrow> u64 \<Rightarrow> u8 \<Rightarrow> mem \<Rightarrow> mem" where
  "idt_set_descriptor idt vector isr flgs m =
     store_bytes (idt + of_nat (sizeof_idt_entry * unat vector)) (idt_entry_bytes (idt_descriptor isr flgs)) m"

text \<open>The register \<open>lidt\<close> loads, read from \<open>idt_ptr\<close>.\<close>

record idtr_t =
  idt_limit :: u16
  idt_base :: u64

definition load_idt :: "u64 \<Rightarrow> mem \<Rightarrow> idtr_t" where
  "load_idt p m = \<lparr>idt_limit = load16 m p, idt_base = load64 m (p + 2)\<rparr>"

fun set_gates :: "nat list \<Rightarrow> u64 \<Rightarrow> u64 \<Rightarrow> mem \<Rightarrow> mem" where
  "set_gates [] idt stubs m = m"
| "set_gates (v # vs) idt stubs m =
     set_gates vs idt stubs (idt_set_descriptor idt (of_nat v) (load64 m (stubs + of_nat (8 * v))) 0x8E m)"

text \<open>\<open>idt\<close>, \<open>idtp\<close>, \<open>stubs\<close> and \<open>handlers\<close> are the addresses of the four objects.\<close>

definition idt_init :: "u64 \<Rightarrow> u64 \<Rightarrow> u64 \<Rightarrow> u64 \<Rightarrow> mem \<Rightarrow> idtr_t \<times> mem" where
  "idt_init idt idtp stubs handlers m =
     (let m1 = store64 (idtp + 2) idt m;
          m2 = store_bytes idtp (to_le 2 (of_nat (sizeof_idt_entry * IDT_MAX_DESCRIPTORS - 1) :: u16)) m1;
          m3 = snd (memset idt 0 (of_nat (sizeof_idt_entry * 256 - 1)) m2);
          m4 = set_gates [0..<48] idt stubs m3;
          r = load_idt idtp m4;
          m5 = snd (memset handlers 0 (of_nat (8 * IDT_MAX_DESCRIPTORS - 1)) m4)
      in (r, m5))"

section \<open>The processor's reading\<close>

text \<open>
  A 64-bit gate as Intel's manual describes it: it must lie within the limit and be present;
  the entry point is in three parts. The descriptor of a task state segment has its base in four.
\<close>

definition cpu_gate :: "mem \<Rightarrow> idtr_t \<Rightarrow> u8 \<Rightarrow> (u16 \<times> u64) option" where
  "cpu_gate m r v =
     (let g = idt_base r + of_nat (16 * unat v)
      in if unat (idt_limit r) < 16 * unat v + 15 then None
         else if \<not> bit (m (g + 5)) 7 then None
         else Some (load16 m (g + 2),
           ucast (load16 m g) OR push_bit 16 (ucast (load16 m (g + 6))) OR push_bit 32 (ucast (load32 m (g + 8)))))"

definition cpu_tss_base :: "mem \<Rightarrow> u64 \<Rightarrow> u64" where
  "cpu_tss_base m d = ucast (load16 m (d + 2)) OR push_bit 16 (ucast (m (d + 4))) OR
     push_bit 24 (ucast (m (d + 7))) OR push_bit 32 (ucast (load32 m (d + 8)))"

section \<open>Encoding and decoding\<close>

lemma masks: "(0xff :: u64) = mask 8" "(0xFFFF :: u64) = mask 16" "(0xFFFFFFFF :: u64) = mask 32"
  by (simp_all add: mask_eq_exp_minus_1)

lemma join_isr:
  "ucast (isr_low (idt_descriptor x f)) OR push_bit 16 (ucast (isr_mid (idt_descriptor x f))) OR
     push_bit 32 (ucast (isr_high (idt_descriptor x f))) = x"
proof (rule bit_word_eqI)
  fix n assume "n < LENGTH(64)"
  then have n: "n < 64" by simp
  then consider "n < 16" | "16 \<le> n" "n < 32" | "32 \<le> n" by linarith
  then show "bit (ucast (isr_low (idt_descriptor x f)) OR push_bit 16 (ucast (isr_mid (idt_descriptor x f))) OR
     push_bit 32 (ucast (isr_high (idt_descriptor x f))) :: u64) n = bit x n"
    unfolding idt_descriptor_def masks by cases (use n in \<open>auto simp: bit_simps\<close>)
qed

lemma join_base:
  "ucast (base_0_15 (tss_entry x)) OR push_bit 16 (ucast (base_16_23 (tss_entry x))) OR
     push_bit 24 (ucast (base_24_31 (tss_entry x))) OR push_bit 32 (ucast (base_31_64 (tss_entry x))) = x"
proof (rule bit_word_eqI)
  fix n assume "n < LENGTH(64)"
  then have n: "n < 64" by simp
  then consider "n < 16" | "16 \<le> n" "n < 24" | "24 \<le> n" "n < 32" | "32 \<le> n" by linarith
  then show "bit (ucast (base_0_15 (tss_entry x)) OR push_bit 16 (ucast (base_16_23 (tss_entry x))) OR
     push_bit 24 (ucast (base_24_31 (tss_entry x))) OR push_bit 32 (ucast (base_31_64 (tss_entry x))) :: u64) n = bit x n"
    unfolding tss_entry_def masks by cases (use n in \<open>auto simp: bit_simps\<close>)
qed

lemma idt_entry_bytes_length [simp]: "length (idt_entry_bytes d) = 16"
  by (simp add: idt_entry_bytes_def)

lemma entry_sys_bytes_length [simp]: "length (entry_sys_bytes g) = 16"
  by (simp add: entry_sys_bytes_def)

text \<open>The fields read from sixteen bytes that are an entry.\<close>

lemma take_to_le [simp]: "take n (to_le n w @ bs) = to_le n w" "drop n (to_le n w @ bs) = bs"
  by simp_all

lemma idt_entry_fields:
  assumes "load_bytes m g 16 = idt_entry_bytes d"
  shows "load16 m g = isr_low d" "load16 m (g + 2) = kernel_cs d" "m (g + 5) = attributes d"
    "load16 m (g + 6) = isr_mid d" "load32 m (g + 8) = isr_high d"
proof -
  have f: "load_bytes m (g + of_nat j) n = take n (drop j (idt_entry_bytes d))" if "j + n \<le> 16" for j n
    using load_bytes_sub [OF that] assms by simp
  show "load16 m g = isr_low d" using f [of 0 2] by (simp add: load16_def idt_entry_bytes_def)
  show "load16 m (g + 2) = kernel_cs d" using f [of 2 2] by (simp add: load16_def idt_entry_bytes_def)
  have "load_bytes m g 16 ! 5 = attributes d"
    unfolding assms by (simp add: idt_entry_bytes_def nth_append)
  then show "m (g + 5) = attributes d" by simp
  show "load16 m (g + 6) = isr_mid d" using f [of 6 2] by (simp add: load16_def idt_entry_bytes_def drop_append)
  show "load32 m (g + 8) = isr_high d" using f [of 8 4] by (simp add: load32_def idt_entry_bytes_def drop_append)
qed

lemma entry_sys_fields:
  assumes "load_bytes m d 16 = entry_sys_bytes g"
  shows "load16 m d = g_size g" "load16 m (d + 2) = base_0_15 g" "m (d + 4) = base_16_23 g"
    "m (d + 5) = access_byte (access g)" "m (d + 7) = base_24_31 g" "load32 m (d + 8) = base_31_64 g"
proof -
  have f: "load_bytes m (d + of_nat j) n = take n (drop j (entry_sys_bytes g))" if "j + n \<le> 16" for j n
    using load_bytes_sub [OF that] assms by simp
  have b: "load_bytes m d 16 ! j = entry_sys_bytes g ! j" for j using assms by simp
  show "load16 m d = g_size g" using f [of 0 2] by (simp add: load16_def entry_sys_bytes_def)
  show "load16 m (d + 2) = base_0_15 g" using f [of 2 2] by (simp add: load16_def entry_sys_bytes_def)
  show "m (d + 4) = base_16_23 g" using b [of 4] by (simp add: entry_sys_bytes_def nth_append)
  show "m (d + 5) = access_byte (access g)" using b [of 5] by (simp add: entry_sys_bytes_def nth_append)
  show "m (d + 7) = base_24_31 g" using b [of 7] by (simp add: entry_sys_bytes_def nth_append)
  show "load32 m (d + 8) = base_31_64 g" using f [of 8 4] by (simp add: load32_def entry_sys_bytes_def drop_append)
qed

text \<open>
  The descriptor \<open>make_tss\<close> writes is the one of the segment: read the way the processor
  reads it, its base is the segment's address, it is a present 64-bit task state segment, its
  limit is 104, and the segment holds the kernel stack.
\<close>
theorem make_tss_descriptor:
  assumes "apart tss 104 tss_ptr 16"
  shows "cpu_tss_base (make_tss tss tss_ptr ks m) tss_ptr = tss \<and> make_tss tss tss_ptr ks m (tss_ptr + 5) = 0x89 \<and>
    load16 (make_tss tss tss_ptr ks m) tss_ptr = 104 \<and> load64 (make_tss tss tss_ptr ks m) (tss + 4) = ks"
proof -
  let ?m = "make_tss tss tss_ptr ks m"
  have l: "load_bytes ?m tss_ptr 16 = entry_sys_bytes (tss_entry tss)"
    by (simp add: make_tss_def Let_def load_store_bytes_same)
  note fs = entry_sys_fields [OF l]
  have "apart (tss_ptr + of_nat 0) 16 (tss + of_nat 4) 8"
    by (rule apart_sub [of tss_ptr 16 tss 104]) (use assms apart_sym in auto)
  then have "load64 ?m (tss + 4) = ks"
    by (simp add: make_tss_def Let_def load64_def load_store_bytes_apart) (simp add: store64_def load_store_bytes_same)
  moreover have "cpu_tss_base ?m tss_ptr = tss" unfolding cpu_tss_base_def fs by (rule join_base)
  moreover have "access_byte tss_access = 0x89" by (simp add: access_byte_def tss_access_def)
  ultimately show ?thesis
    using fs(1,4) by (simp add: tss_entry_def sizeof_tss_def)
qed

section \<open>The table after initialisation\<close>

lemma set_descriptor_entry:
  assumes "unat v < 256" "w < 256"
  shows "load_bytes (idt_set_descriptor idt v isr f m) (idt + of_nat (16 * w)) 16 =
    (if w = unat v then idt_entry_bytes (idt_descriptor isr f) else load_bytes m (idt + of_nat (16 * w)) 16)"
proof (cases "w = unat v")
  case True
  then show ?thesis by (simp add: idt_set_descriptor_def sizeof_idt_entry_def load_store_bytes_same)
next
  case False
  then have "apart (idt + of_nat (16 * unat v)) 16 (idt + of_nat (16 * w)) 16"
    by (intro apart_offsets) (use assms in auto)
  then show ?thesis using False
    by (simp add: idt_set_descriptor_def sizeof_idt_entry_def load_store_bytes_apart del: of_nat_mult)
qed

text \<open>Memory apart from the table is kept.\<close>

lemma set_descriptor_frame:
  assumes "apart idt 4096 a n" "n' + j \<le> n" "0 < n'"
  shows "load_bytes (idt_set_descriptor idt v isr f m) (a + of_nat j) n' = load_bytes m (a + of_nat j) n'"
proof -
  have "unat v < 256" using unsigned_less [of v] by simp
  then have "apart (idt + of_nat (16 * unat v)) 16 (a + of_nat j) n'"
    by (intro apart_sub [OF assms(1)]) (use assms in auto)
  then show ?thesis
    by (simp add: idt_set_descriptor_def sizeof_idt_entry_def load_store_bytes_apart del: of_nat_mult)
qed

lemma set_gates_frame:
  assumes "apart idt 4096 a n" "n' + j \<le> n" "0 < n'"
  shows "load_bytes (set_gates vs idt stubs m) (a + of_nat j) n' = load_bytes m (a + of_nat j) n'"
  by (induction vs arbitrary: m) (simp_all add: set_descriptor_frame [OF assms])

lemma set_gates_entry:
  assumes "set vs \<subseteq> {..<48}" "distinct vs" "w < 256" "apart idt 4096 stubs 384"
  shows "load_bytes (set_gates vs idt stubs m) (idt + of_nat (16 * w)) 16 =
    (if w \<in> set vs then idt_entry_bytes (idt_descriptor (load64 m (stubs + of_nat (8 * w))) 0x8E)
     else load_bytes m (idt + of_nat (16 * w)) 16)"
  using assms(1,2)
proof (induction vs arbitrary: m)
  case (Cons v vs)
  have v: "v < 48" "unat (of_nat v :: u8) = v" using Cons.prems(1) by (auto intro: unat_of_nat_small)
  let ?m = "idt_set_descriptor idt (of_nat v) (load64 m (stubs + of_nat (8 * v))) 0x8E m"
  have "load64 ?m (stubs + of_nat (8 * w)) = load64 m (stubs + of_nat (8 * w))" if "w \<in> set vs"
  proof -
    have "8 + 8 * w \<le> 384" using that Cons.prems(1) by auto
    from set_descriptor_frame [OF assms(4) this] show ?thesis by (simp add: load64_def)
  qed
  then show ?case
    using Cons.IH [of ?m] Cons.prems set_descriptor_entry [of "of_nat v" w idt] v assms(3) by auto
qed simp

lemma memset_bytes:
  assumes "j + k \<le> unat n"
  shows "load_bytes (snd (memset a 0 n m)) (a + of_nat j) k = replicate k 0"
proof (rule nth_equalityI)
  fix i assume "i < length (load_bytes (snd (memset a 0 n m)) (a + of_nat j) k)"
  then have i: "i < k" by simp
  have "unat (of_nat (j + i) :: u64) = j + i"
    using i assms unat_lt_64 [of n] by (intro unat_of_nat_small) simp
  then have "unat (a + of_nat j + of_nat i - a) < unat n" using i assms by simp
  then show "load_bytes (snd (memset a 0 n m)) (a + of_nat j) k ! i = replicate k 0 ! i"
    using i by (simp add: memset_eq)
qed simp

lemma memset_apart:
  assumes "apart a (unat n) b k"
  shows "load_bytes (snd (memset a v n m)) b k = load_bytes m b k"
proof (rule load_bytes_cong)
  fix i assume "i < k"
  from apart_miss [OF assms this] show "snd (memset a v n m) (b + of_nat i) = m (b + of_nat i)"
    by (simp add: memset_eq not_less)
qed

text \<open>The objects do not overlap.\<close>

definition idt_layout :: "u64 \<Rightarrow> u64 \<Rightarrow> u64 \<Rightarrow> u64 \<Rightarrow> bool" where
  "idt_layout idt idtp stubs handlers \<longleftrightarrow> apart idt 4096 idtp 10 \<and> apart idt 4096 stubs 384 \<and>
     apart idt 4096 handlers 2048 \<and> apart idtp 10 stubs 384"

text \<open>The memory after the descriptor register and the clearing of the table, and after the gates.\<close>

definition idt_cleared :: "u64 \<Rightarrow> u64 \<Rightarrow> mem \<Rightarrow> mem" where
  "idt_cleared idt idtp m = snd (memset idt 0 (of_nat (sizeof_idt_entry * 256 - 1))
     (store_bytes idtp (to_le 2 (of_nat (sizeof_idt_entry * IDT_MAX_DESCRIPTORS - 1) :: u16)) (store64 (idtp + 2) idt m)))"

definition idt_gated :: "u64 \<Rightarrow> u64 \<Rightarrow> u64 \<Rightarrow> mem \<Rightarrow> mem" where
  "idt_gated idt idtp stubs m = set_gates [0..<48] idt stubs (idt_cleared idt idtp m)"

lemma idt_init_stages: "idt_init idt idtp stubs handlers m =
    (load_idt idtp (idt_gated idt idtp stubs m),
     snd (memset handlers 0 (of_nat (8 * IDT_MAX_DESCRIPTORS - 1)) (idt_gated idt idtp stubs m)))"
  unfolding idt_init_def Let_def idt_gated_def idt_cleared_def by (rule refl)

lemma idt_lengths:
  "unat (of_nat (sizeof_idt_entry * 256 - 1) :: u64) = 4095" "unat (of_nat (8 * IDT_MAX_DESCRIPTORS - 1) :: u64) = 2039"
  by (simp_all add: sizeof_idt_entry_def IDT_MAX_DESCRIPTORS_def)

lemma idt_init_register:
  assumes "idt_layout idt idtp stubs handlers"
  shows "load_idt idtp (idt_gated idt idtp stubs m) = \<lparr>idt_limit = 4079, idt_base = idt\<rparr>"
proof -
  define m1 where "m1 = store64 (idtp + 2) idt m"
  define m2 where "m2 = store_bytes idtp (to_le 2 (of_nat (sizeof_idt_entry * IDT_MAX_DESCRIPTORS - 1) :: u16)) m1"
  let ?m = "idt_gated idt idtp stubs m"
  have ap: "apart idt 4096 idtp 10" using assms by (simp add: idt_layout_def)
  have pb: "load_bytes ?m (idtp + of_nat j) k = load_bytes m2 (idtp + of_nat j) k" if "k + j \<le> 10" "0 < k" for j k
  proof -
    have "apart (idt + of_nat 0) 4095 (idtp + of_nat j) k" by (rule apart_sub [OF ap]) (use that in auto)
    then have "load_bytes (idt_cleared idt idtp m) (idtp + of_nat j) k = load_bytes m2 (idtp + of_nat j) k"
      using idt_lengths unfolding idt_cleared_def m2_def m1_def by (intro memset_apart) simp
    then show ?thesis using set_gates_frame [OF ap that] by (simp add: idt_gated_def)
  qed
  have "apart (idtp + of_nat 0) 2 (idtp + of_nat 2) 8" by (rule apart_offsets) simp_all
  then have "load64 ?m (idtp + 2) = idt"
    using pb [of 8 2] by (simp add: load64_def m2_def load_store_bytes_apart) (simp add: m1_def store64_def load_store_bytes_same)
  moreover have "load16 ?m idtp = 4079"
    using pb [of 2 0] by (simp add: load16_def m2_def load_store_bytes_same sizeof_idt_entry_def IDT_MAX_DESCRIPTORS_def)
  ultimately show ?thesis by (simp add: load_idt_def)
qed

lemma idt_cleared_stub:
  assumes "idt_layout idt idtp stubs handlers" "w < 48"
  shows "load64 (idt_cleared idt idtp m) (stubs + of_nat (8 * w)) = load64 m (stubs + of_nat (8 * w))"
proof -
  have ap: "apart idt 4096 stubs 384" "apart idtp 10 stubs 384" using assms(1) by (auto simp: idt_layout_def)
  have 1: "apart (idt + of_nat 0) 4095 (stubs + of_nat (8 * w)) 8"
    and 2: "apart (idtp + of_nat 0) 2 (stubs + of_nat (8 * w)) 8"
    and 3: "apart (idtp + of_nat 2) 8 (stubs + of_nat (8 * w)) 8"
    using assms(2) by (intro apart_sub [OF ap(1)] apart_sub [OF ap(2)]; simp)+
  show ?thesis using 1 2 3 idt_lengths
    by (simp add: idt_cleared_def load64_def store64_def memset_apart load_store_bytes_apart del: of_nat_mult)
qed

lemma idt_init_entry:
  assumes "idt_layout idt idtp stubs handlers" "w < 256"
  shows "load_bytes (snd (idt_init idt idtp stubs handlers m)) (idt + of_nat (16 * w)) 16 =
      (if w < 48 then idt_entry_bytes (idt_descriptor (load64 m (stubs + of_nat (8 * w))) 0x8E)
       else load_bytes (idt_cleared idt idtp m) (idt + of_nat (16 * w)) 16)"
proof -
  have ap: "apart idt 4096 stubs 384" "apart idt 4096 handlers 2048" using assms(1) by (auto simp: idt_layout_def)
  have sub: "set [0..<48] \<subseteq> {..<48}" "distinct [0..<48]" by auto
  have "apart (handlers + of_nat 0) 2039 (idt + of_nat (16 * w)) 16"
    by (rule apart_sub [of handlers 2048 idt 4096]) (use ap(2) apart_sym assms(2) in auto)
  then have "load_bytes (snd (idt_init idt idtp stubs handlers m)) (idt + of_nat (16 * w)) 16 =
      load_bytes (idt_gated idt idtp stubs m) (idt + of_nat (16 * w)) 16"
    using idt_lengths unfolding idt_init_stages snd_conv by (intro memset_apart) simp
  then show ?thesis
    using set_gates_entry [OF sub, of w idt stubs "idt_cleared idt idtp m"] assms ap(1) idt_cleared_stub [OF assms(1)]
    by (auto simp: idt_gated_def)
qed

lemma idt_gates:
  assumes "idt_layout idt idtp stubs handlers"
  shows "let (r, m') = idt_init idt idtp stubs handlers m
    in cpu_gate m' r v = (if unat v < 48 then Some (8, load64 m (stubs + of_nat (8 * unat v))) else None) \<and>
       (unat (idt_limit r) < 16 * unat v + 15 \<longleftrightarrow> v = 255)"
proof -
  define w m5 where "w = unat v" and "m5 = snd (idt_init idt idtp stubs handlers m)"
  let ?r = "\<lparr>idt_limit = 4079, idt_base = idt\<rparr> :: idtr_t"
  have v: "w < 256" using unsigned_less [of v] by (simp add: w_def)
  note entry = idt_init_entry [OF assms v, of m, folded m5_def]
  have lim: "unat (idt_limit ?r) < 16 * w + 15 \<longleftrightarrow> v = 255"
    using v by (auto simp: word_unat_eq_iff w_def)
  have "cpu_gate m5 ?r v = (if w < 48 then Some (8, load64 m (stubs + of_nat (8 * w))) else None)"
  proof (cases "w < 48")
    case True
    then have "v \<noteq> 255" by (auto simp: w_def)
    with idt_entry_fields [of m5] entry True lim join_isr show ?thesis
      by (simp add: cpu_gate_def Let_def flip: w_def) (simp add: idt_descriptor_def)
  next
    case False
    have "load_bytes (idt_cleared idt idtp m) (idt + of_nat (16 * w)) 16 = replicate 16 0" if "v \<noteq> 255"
      using v that idt_lengths unfolding idt_cleared_def by (intro memset_bytes) (auto simp: word_unat_eq_iff w_def)
    then have "m5 (idt + of_nat (16 * w) + 5) = 0" if "v \<noteq> 255"
      using entry False that nth_load_bytes [of 5 16 m5 "idt + of_nat (16 * w)"] by simp
    then show ?thesis using False lim by (auto simp: cpu_gate_def Let_def simp flip: w_def)
  qed
  moreover have "idt_init idt idtp stubs handlers m = (?r, m5)"
    using idt_init_register [OF assms, of m] by (simp add: m5_def idt_init_stages)
  ultimately show ?thesis using lim by (simp flip: w_def)
qed

text \<open>
  C30. After \<open>idt_init\<close> the processor finds, for each of the vectors 0 to 47, a gate to the entry
  point of that vector in the kernel's code segment, and none for any other vector; vector 255,
  the spurious vector of the local APIC, even lies outside the limit.
\<close>
theorem idt_init_gates:
  assumes "idt_layout idt idtp stubs handlers"
  shows "let (r, m') = idt_init idt idtp stubs handlers m
    in cpu_gate m' r v = (if unat v < 48 then Some (8, load64 m (stubs + of_nat (8 * unat v))) else None) \<and>
       (unat (idt_limit r) < 16 * unat v + 15 \<longleftrightarrow> v = 255)"
  using assms by (rule idt_gates)

section \<open>Witnesses\<close>

theorem make_tss_descriptor_witness:
  "cpu_tss_base (make_tss 0x3000 0x2028 0x9000 (\<lambda>_. 0)) 0x2028 = 0x3000"
  using make_tss_descriptor [of "0x3000" "0x2028" "0x9000" "\<lambda>_. 0"] by (simp add: apart_def)

theorem idt_init_gates_witness:
  "let (r, m') = idt_init 0x4000 0x6000 0x7000 0x8000 (store64 0x7018 0xffffffff80001234 (\<lambda>_. 0))
   in cpu_gate m' r 3 = Some (8, 0xffffffff80001234)"
proof -
  have l: "idt_layout 0x4000 0x6000 0x7000 0x8000" by (simp add: idt_layout_def apart_def)
  show ?thesis
    using idt_init_gates [OF l, of "store64 0x7018 0xffffffff80001234 (\<lambda>_. 0)" 3] by (simp add: split_def mem_simps Let_def)
qed

end
