(* ===== verification/GdtDump.thy ===== *)
theory GdtDump
  imports DescTables
begin

text \<open>
  \<^verbatim>\<open>dump_gdt\<close> of \<^verbatim>\<open>src/boot/gdt.c\<close>: reading the descriptor table back field by field. A line of the dump is
  the name that is printed with its values; the spaces and the number bases of the formats are left
  out, and the lines are a list in place of the calls of the log.
\<close>

section \<open>Reading descriptors\<close>

type_synonym dump_line = "string \<times> u64 list"

record gdt_entry_t =
  e_limit_0_15 :: u16
  e_base_0_15 :: u16
  e_base_16_23 :: u8
  e_access :: access_bit_t
  e_limit_16_19_and_flags :: u8
  e_base_24_31 :: u8

definition access_at :: "mem \<Rightarrow> u64 \<Rightarrow> access_bit_t" where
  "access_at m p = \<lparr>accessed = bit (m p) 0, RW = bit (m p) 1, DC = bit (m p) 2, exec = bit (m p) 3,
     not_sys = bit (m p) 4, priv = ucast (drop_bit 5 (m p)), present = bit (m p) 7\<rparr>"

definition gdt_entry_at :: "mem \<Rightarrow> u64 \<Rightarrow> gdt_entry_t" where
  "gdt_entry_at m p = \<lparr>e_limit_0_15 = load16 m p, e_base_0_15 = load16 m (p + 2), e_base_16_23 = m (p + 4),
     e_access = access_at m (p + 5), e_limit_16_19_and_flags = m (p + 6), e_base_24_31 = m (p + 7)\<rparr>"

definition gdt_sys_at :: "mem \<Rightarrow> u64 \<Rightarrow> gdt_entry_sys_t" where
  "gdt_sys_at m p = \<lparr>g_size = load16 m p, base_0_15 = load16 m (p + 2), base_16_23 = m (p + 4),
     access = access_at m (p + 5), flags = m (p + 6), base_24_31 = m (p + 7), base_31_64 = load32 m (p + 8),
     reserved0 = load32 m (p + 12)\<rparr>"

section \<open>The dump\<close>

definition access_lines :: "access_bit_t \<Rightarrow> dump_line list" where
  "access_lines a = [(''---access bit---'', []), (''accessed'', [of_bool (accessed a)]), (''RW'', [of_bool (RW a)]),
     (''DC'', [of_bool (DC a)]), (''exec'', [of_bool (exec a)]), (''not_sys'', [of_bool (not_sys a)]),
     (''priv'', [ucast (priv a)]), (''present'', [of_bool (present a)])]"

definition entry_lines :: "string \<Rightarrow> gdt_entry_t \<Rightarrow> dump_line list" where
  "entry_lines name e = [(name, []), (''limit_0_15'', [ucast (e_limit_0_15 e)]), (''base_0_15'', [ucast (e_base_0_15 e)]),
     (''base_16_23'', [ucast (e_base_16_23 e)])] @ access_lines (e_access e) @
     [(''limit_16_19_and_flags'', [ucast (e_limit_16_19_and_flags e), ucast (e_limit_16_19_and_flags e)]),
      (''base_24_31'', [ucast (e_base_24_31 e)])]"

definition tss_lines :: "gdt_entry_sys_t \<Rightarrow> dump_line list" where
  "tss_lines g = [(''gdt->tss'', []), (''size'', [ucast (g_size g)]), (''base_0_15'', [ucast (base_0_15 g)]),
     (''base_16_23'', [ucast (base_16_23 g)])] @ access_lines (access g) @
     [(''flags'', [ucast (flags g)]), (''base_24_31'', [ucast (base_24_31 g)]), (''base_31_64'', [ucast (base_31_64 g)]),
      (''reserved0'', [ucast (reserved0 g)])]"

definition segment_lines :: "mem \<Rightarrow> u64 \<Rightarrow> dump_line list" where
  "segment_lines m gdt = [(''===DUMP GDT==='', [])] @ entry_lines ''gdt->kernel_cs'' (gdt_entry_at m (gdt + 8)) @
     entry_lines ''gdt->kernel_ds'' (gdt_entry_at m (gdt + 16)) @ entry_lines ''gdt->user_cs'' (gdt_entry_at m (gdt + 24)) @
     entry_lines ''gdt->user_ds'' (gdt_entry_at m (gdt + 32))"

definition dump_gdt :: "mem \<Rightarrow> u64 \<Rightarrow> bool \<Rightarrow> dump_line list" where
  "dump_gdt m gdt dump_sys = segment_lines m gdt @
     (if \<not> dump_sys then [(''not dumping gdt->tss+'', []), (''=== END GDT DUMP ==='', [])]
      else tss_lines (gdt_sys_at m (gdt + 40)) @ [(''=== END GDT DUMP ==='', [])])"

text \<open>The dumps \<open>init_gdt_tss\<close> prints, by its argument.\<close>

definition init_gdt_tss_dumps :: "u64 \<Rightarrow> u64 \<Rightarrow> u64 \<Rightarrow> u64 \<Rightarrow> u8 \<Rightarrow> mem \<Rightarrow> (dump_line list \<times> mem) res" where
  "init_gdt_tss_dumps gdt_ptr tss_ptr tss kernel_stack dump m =
     bindE (init_gdt_tss gdt_ptr tss_ptr tss kernel_stack m) (\<lambda>m'.
       Inr ((if 1 \<le> dump then dump_gdt m gdt_ptr False else []) @
         (if 1 < dump then dump_gdt m' gdt_ptr True else []), m'))"

section \<open>Reading back what was written\<close>

lemma access_at_byte:
  assumes "m p = access_byte a"
  shows "access_at m p = a"
proof -
  have b: "bit (access_byte a) 0 = accessed a" "bit (access_byte a) 1 = RW a" "bit (access_byte a) 2 = DC a"
    "bit (access_byte a) 3 = exec a" "bit (access_byte a) 4 = not_sys a" "bit (access_byte a) 7 = present a"
    by (auto simp: access_byte_def bit_simps dest: bit_imp_le_length)
  have "ucast (drop_bit 5 (access_byte a)) = priv a"
  proof (rule bit_word_eqI)
    fix n assume "n < LENGTH(2)"
    then have "n = 0 \<or> n = 1" by auto
    then show "bit (ucast (drop_bit 5 (access_byte a)) :: 2 word) n = bit (priv a) n"
      by (auto simp: access_byte_def bit_simps)
  qed
  with b show ?thesis by (simp add: access_at_def assms)
qed

lemma gdt_sys_at_bytes:
  assumes "load_bytes m p 16 = entry_sys_bytes g"
  shows "gdt_sys_at m p = g"
proof -
  note f = entry_sys_fields [OF assms]
  have "load_bytes m p 16 ! 6 = entry_sys_bytes g ! 6" using assms by simp
  then have "m (p + 6) = flags g" by (simp add: entry_sys_bytes_def nth_append)
  moreover have "load_bytes m (p + of_nat 12) 4 = take 4 (drop 12 (entry_sys_bytes g))"
    using load_bytes_sub [of 12 4 16 m p] assms by simp
  then have "load32 m (p + 12) = reserved0 g" by (simp add: load32_def entry_sys_bytes_def drop_append)
  ultimately show ?thesis using f access_at_byte [where m = m and p = "p + 5", OF f(4)] by (simp add: gdt_sys_at_def)
qed

lemma gdt_entry_at_cong:
  assumes "load_bytes m' p 8 = load_bytes m p 8"
  shows "gdt_entry_at m' p = gdt_entry_at m p"
proof -
  have b: "m' (p + of_nat j) = m (p + of_nat j)" if "j < 8" for j
    using arg_cong [OF assms, of "\<lambda>bs. bs ! j"] that by simp
  have w: "load16 m' (p + of_nat j) = load16 m (p + of_nat j)" if "j + 2 \<le> 8" for j
    unfolding load16_def load_bytes_sub [OF that] assms ..
  show ?thesis
    using b [of 4] b [of 5] b [of 6] b [of 7] w [of 0] w [of 2] by (simp add: gdt_entry_at_def access_at_def)
qed

lemma make_tss_apart:
  assumes "apart tss 104 q n" "apart tss_ptr 16 q n" "0 < n"
  shows "load_bytes (make_tss tss tss_ptr ks m) q n = load_bytes m q n"
proof -
  have "apart q n tss 104" using assms(1) apart_sym by blast
  then have "apart (q + of_nat 0) n (tss + of_nat 4) 8" by (rule apart_sub) (use assms(3) in auto)
  then have "apart (tss + 4) 8 q n" using apart_sym by simp
  moreover have "apart tss (unat sizeof_tss) q n" using assms(1) by (simp add: sizeof_tss_def)
  ultimately show ?thesis using assms(2)
    by (simp add: make_tss_def Let_def load_store_bytes_apart store64_def memset_apart)
qed


section \<open>Witness\<close>


end
