(* ===== verification/KernelRun.thy ===== *)
theory KernelRun
  imports Kmain Idle BootTags GdtDump Serial
begin

text \<open>
  The whole of \<open>kmain\<close> in \<^verbatim>\<open>src/kernel/kernel.c\<close>: the serial port and the descriptor tables, the tag loop
  (theory Boot), the start-up (theory Kmain) and the loop it ends in (theory Idle). What comes
  from elsewhere, and the addresses of the kernel's objects, are the environment. The lines logged on
  the way are left out; theory Printk shows that logging returns on a port that sends.
\<close>

section \<open>The kernel\<close>

record kernel_env = start_env +
  e_boot :: boot_env
  e_gdt_ptr :: u64
  e_tss_ptr :: u64
  e_tss :: u64
  e_stack :: u64
  e_idt :: u64
  e_idtp :: u64
  e_stubs :: u64
  e_handlers :: u64

record kernel_run =
  r_serial :: serial
  r_desc :: mem
  r_idtr :: idtr_t
  r_kboot :: kernel_boot_t
  r_kernel :: started_kernel

text \<open>
  Up to the last loop. \<open>dm\<close> is the memory of the descriptor tables, \<open>m\<close> the one with the boot
  information and the page tables, \<open>pm\<close> what the page allocator's state holds before it is set.
\<close>

definition kmain :: "kernel_env \<Rightarrow> u64 \<Rightarrow> u64 \<Rightarrow> physmem \<Rightarrow> mem \<Rightarrow> mem \<Rightarrow> kernel_run res" where
  "kmain env header magic pm dm m =
     (if magic \<noteq> MULTIBOOT2_BOOTLOADER_MAGIC then Inl (Panic ''MB MAGIC MISMATCH'')
      else case run_state (serial_init (e_dev env) serial_reset) [] of ((_, ser), h) \<Rightarrow>
        bindE (init_gdt_tss (e_gdt_ptr env) (e_tss_ptr env) (e_tss env) (e_stack env) dm) (\<lambda>dm1.
          case idt_init (e_idt env) (e_idtp env) (e_stubs env) (e_handlers env) dm1 of (idtr, dm2) \<Rightarrow>
        bindE (boot_parse (e_boot env) header magic pm m) (\<lambda>bs.
        bindE (kmain_start (start_env.truncate env) bs (isr_boot\<lparr>i_io := h\<rparr>)) (\<lambda>(kb, k).
          Inr \<lparr>r_serial = ser, r_desc = dm2, r_idtr = idtr, r_kboot = kb, r_kernel = k\<rparr>))))"

definition kernel_rounds :: "kernel_env \<Rightarrow> kernel_run \<Rightarrow> nat \<Rightarrow> (u8 \<times> mem \<times> io) option" where
  "kernel_rounds env kr n =
     idle (e_dev env) (k_hpet (r_kernel kr)) (r_kboot kr) n (0, v_mem (k_vm (r_kernel kr)), i_io (k_isr (r_kernel kr)))"

section \<open>A machine it runs on\<close>

text \<open>The kernel's image: the descriptor of the task state segment in its place, the tables apart.\<close>

definition image_ok :: "kernel_env \<Rightarrow> bool" where
  "image_ok env \<longleftrightarrow> e_tss_ptr env - e_gdt_ptr env = TSS_GDT_OFFSET \<and>
     idt_layout (e_idt env) (e_idtp env) (e_stubs env) (e_handlers env)"

text \<open>The page tables the entry code made are a tree in the reserved pages, away from the command line.\<close>

definition boot_tables :: "u64 \<Rightarrow> mem \<Rightarrow> bool" where
  "boot_tables r m \<longleftrightarrow> (\<exists>A3 A2. tree (pte m) r A3 A2 \<and> (\<forall>t\<in>insert r (A3 \<union> A2). table_ok t \<and> page_of t < 16))"

definition tables_ok :: "kernel_env \<Rightarrow> mem \<Rightarrow> bool" where
  "tables_ok env m \<longleftrightarrow> (\<forall>m'. same_info (e_cl (e_boot env)) m m' \<longrightarrow> boot_tables (e_cr3 env) m')"

text \<open>
  The loader's tags at \<open>ts\<close>: none is bad, the last memory map has the low memory, the picture of the
  last framebuffer fits the four pages mapped for it, and \<open>rsdp\<close> is the one the loop takes.
\<close>

definition map_tags :: "mem \<Rightarrow> u64 list \<Rightarrow> u64 list" where "map_tags m ts = filter (\<lambda>t. tag_type m t = 6) ts"
definition fb_tags :: "mem \<Rightarrow> u64 list \<Rightarrow> u64 list" where "fb_tags m ts = filter (usable_fb m) ts"

definition fb_fits :: "mem \<Rightarrow> u64 \<Rightarrow> bool" where
  "fb_fits m t \<longleftrightarrow> ucast (tagfb_height m t) * ucast (tagfb_pitch m t) < PAGE_SIZE * 4 \<and>
     picture_fits (tagfb_width m t) (tagfb_height m t) (tagfb_pitch m t)"

definition loader_ok :: "boot_env \<Rightarrow> u64 \<Rightarrow> mem \<Rightarrow> u64 list \<Rightarrow> u64 \<Rightarrow> bool" where
  "loader_ok e header m ts rsdp \<longleftrightarrow> boot_tags (e_cl e) m (header + 8) ts \<and> (\<forall>t\<in>set ts. tag_apart (e_cl e) m t) \<and>
     boot_image_ok e m \<and> (\<forall>t\<in>set ts. tag_good (e_cl e) m t) \<and> best_rsdp m (acpi_rsdps m ts) rsdp \<and> e_ub e = x86_shl \<and>
     map_tags m ts \<noteq> [] \<and> low_map (map_of_tag m (last (map_tags m ts))) \<and>
     fb_tags m ts \<noteq> [] \<and> fb_fits m (last (fb_tags m ts))"

text \<open>
  The firmware's tables with the MADT at \<open>madt\<close>, its entries at \<open>ps\<close> and the timer's table at \<open>sdt\<close>,
  and the devices: an APIC, an I/O APIC at an address the assertion lets pass, and a timer that works.
\<close>

definition lapic_place :: "kernel_env \<Rightarrow> u64 \<Rightarrow> u64" where
  "lapic_place env madt = ucast (madt_lapic_addr (e_firmware env) madt)"
definition ioapic_place :: "kernel_env \<Rightarrow> u64 list \<Rightarrow> u64" where
  "ioapic_place env ps = ucast (ioapic_addr (e_firmware env) (hd (of_kind (e_firmware env) Io_apic ps)))"

definition timer_ok :: "kernel_env \<Rightarrow> u64 \<Rightarrow> u64 \<Rightarrow> bool" where
  "timer_ok env sdt period \<longleftrightarrow> sdt \<noteq> 0 \<and> unat sdt < 2 ^ 48 \<and> period \<noteq> 0 \<and>
     (\<forall>h. drop_bit 32 (e_dev env (h @ [Mmio_read64 (hpet_address (e_firmware env) sdt)])) = period) \<and>
     (\<forall>hp. hp_tbl hp = hpet_address (e_firmware env) sdt \<and> f_per_tick hp = period \<longrightarrow> timer_works (e_dev env) hp (ms_to_us 500))"

definition hardware_ok :: "kernel_env \<Rightarrow> u64 \<Rightarrow> u64 \<Rightarrow> u64 list \<Rightarrow> u64 \<Rightarrow> u64 \<Rightarrow> bool" where
  "hardware_ok env rsdp madt ps sdt period \<longleftrightarrow>
     firmware_ok (e_firmware env) (e_lits env) rsdp madt ps \<and> of_kind (e_firmware env) Io_apic ps \<noteq> [] \<and>
     apic_is_available (e_cpuid env) \<and> e_test_handler env \<noteq> 0 \<and>
     ioapic_place env ps + KERNEL_VADDR < KERNEL_VADDR + KERNEL_VADDR_SIZE \<and>
     (\<forall>h. unat (answered_max (e_dev env) (ioapic_place env ps) h) < 120) \<and>
     (\<forall>(irq, gsi)\<in>set (override_list (e_firmware env) ps). unat gsi < 120) \<and>
     acpi_find_tbl (e_firmware env) (xsdt_inst (rsdp_xsdt_addr (e_firmware env) rsdp)) (e_hpet_str env) = Inr sdt \<and>
     timer_ok env sdt period"

section \<open>The page tables at the start\<close>

lemma boot_tables_vm_ok:
  assumes "boot_tables r m" "low_free pm"
  shows "vm_ok r \<lparr>v_phys = pm, v_mem = m, v_cur = 0\<rparr>"
proof -
  from assms(1) obtain A3 A2 where t: "tree (pte m) r A3 A2" "\<forall>t\<in>insert r (A3 \<union> A2). table_ok t \<and> page_of t < 16"
    unfolding boot_tables_def by blast
  have "page_used (pmm pm) (page_of t)" if "t \<in> insert r (A3 \<union> A2)" for t
  proof -
    have "page_of t < 16" using t(2) that by blast
    then show ?thesis using assms(2) by (simp add: low_free_def)
  qed
  then have "vm_inv r A3 A2 \<lparr>v_phys = pm, v_mem = m, v_cur = 0\<rparr>"
    using t assms(2) by (simp add: vm_inv_def pool_inv_def low_free_def)
  then show ?thesis unfolding vm_ok_def by blast
qed

lemma low_free_tables:
  assumes "low_free pm"
  obtains x ph where "phys_malloc (PAGE_SIZE * 64) pm = Inr (x, ph)"
    "16 \<le> tables_left \<lparr>v_phys = ph, v_mem = m, v_cur = 0\<rparr>"
proof -
  from low_alloc [OF assms] obtain ph ph1 where
    "phys_malloc (PAGE_SIZE * 64) pm = Inr (0x2000000, ph)" "phys_malloc PAGE_SIZE ph = Inr (0xA000000, ph1)" by blast
  then show ?thesis using that by (simp add: tables_left_def page_in_window_def)
qed

section \<open>What the loader said\<close>

lemma fb_fields_of:
  "fb_fields kb = fb_of_tag m t \<Longrightarrow> fb_addr kb = tagfb_addr m t \<and> fb_w kb = ucast (tagfb_width m t) \<and>
     fb_h kb = ucast (tagfb_height m t) \<and> fb_pitch kb = ucast (tagfb_pitch m t)"
  by (simp add: fb_fields_def fb_of_tag_def)

lemma best_rsdp_unique:
  assumes "best_rsdp m as r" "best_rsdp m as r'"
  shows "r = r'"
proof -
  obtain xs ys xs' ys' where a: "as = xs @ r # ys" "\<forall>a\<in>set ys. rsdp_revision m a < rsdp_revision m r"
    "as = xs' @ r' # ys'" "\<forall>a\<in>set ys'. rsdp_revision m a < rsdp_revision m r'"
    using assms unfolding best_rsdp_def by blast
  have "\<not> rsdp_revision m r' < rsdp_revision m r" "\<not> rsdp_revision m r < rsdp_revision m r'"
    using best_rsdp_le [OF assms(1) best_rsdp_mem [OF assms(2)]] best_rsdp_le [OF assms(2) best_rsdp_mem [OF assms(1)]]
    by (simp_all add: not_less)
  then have "r' \<notin> set ys" "r \<notin> set ys'" using a(2,4) by auto
  moreover have "xs @ r # ys = xs' @ r' # ys'" using a(1,3) by simp
  ultimately show ?thesis by (auto simp: append_eq_append_conv2 append_eq_Cons_conv Cons_eq_append_conv)
qed

lemma loader_parses:
  assumes "loader_ok e header m ts rsdp"
  defines "t \<equiv> last (fb_tags m ts)"
  obtains bs where "boot_parse e header MULTIBOOT2_BOOTLOADER_MAGIC pm m = Inr bs" "b_rsdp bs = rsdp" "same_info (e_cl e) m (b_mem bs)"
    "b_total bs \<noteq> 0" "low_free (b_pmm bs)" "fb_fields (b_kboot bs) = fb_of_tag m t" "usable_fb m t" "fb_fits m t"
proof -
  have ok: "boot_tags (e_cl e) m (header + 8) ts" "\<forall>t\<in>set ts. tag_apart (e_cl e) m t" "boot_image_ok e m"
    "\<forall>t\<in>set ts. tag_good (e_cl e) m t" "best_rsdp m (acpi_rsdps m ts) rsdp" "e_ub e = x86_shl"
    "map_tags m ts \<noteq> []" "low_map (map_of_tag m (last (map_tags m ts)))" "fb_tags m ts \<noteq> []" "fb_fits m t"
    using assms(1) by (simp_all add: loader_ok_def t_def)
  obtain bs where l: "tag_loop e (header + 8) (boot_start pm m) = Some (Inr bs)"
    using boot_loop_good [OF ok(1,3)] ok(2,4) by blast
  from boot_loop_seen [OF ok(1,2) refl refl, of pm] l
  have seen: "boot_seen (e_cl e) (e_ub e) pm m ts bs" "rsdp_inv (e_cl e) m (acpi_rsdps m ts) bs" by auto
  have init: "physmem_init x86_shl (map_of_tag m (last (map_tags m ts))) = Inr (b_total bs, b_pmm bs)" "b_total bs \<noteq> 0"
    using seen(1) ok(6,7) by (simp_all add: boot_seen_def map_told_def map_tags_def Let_def)
  have fb: "fb_fields (b_kboot bs) = fb_of_tag m t"
    using seen(1) ok(9) by (simp add: boot_seen_def fb_told_def fb_tags_def t_def Let_def)
  have "t \<in> set (fb_tags m ts)" using ok(9) by (simp add: t_def)
  then have usable: "usable_fb m t" by (simp add: fb_tags_def)
  have "acpi_rsdps m ts \<noteq> []" using best_rsdp_mem [OF ok(5)] by auto
  then have "b_rsdp bs = rsdp" using seen(2) best_rsdp_unique [OF ok(5)] by (auto simp: rsdp_inv_def)
  moreover have "boot_parse e header MULTIBOOT2_BOOTLOADER_MAGIC pm m = Inr bs" using l init(2) by (simp add: boot_parse_def)
  ultimately show ?thesis
    using that seen(1) init fb usable ok(10) physmem_init_low_free [OF init(1) ok(8)] by (simp add: boot_seen_def)
qed

section \<open>The run\<close>

lemma truncate_env [simp]:
  "e_firmware (start_env.truncate env) = e_firmware env" "e_cr3 (start_env.truncate env) = e_cr3 env"
  "e_dev (start_env.truncate env) = e_dev env" "e_lits (start_env.truncate env) = e_lits env"
  "e_cpuid (start_env.truncate env) = e_cpuid env" "e_test_handler (start_env.truncate env) = e_test_handler env"
  "e_hpet_str (start_env.truncate env) = e_hpet_str env" "e_spurious (start_env.truncate env) = e_spurious env"
  by (simp_all add: start_env.truncate_def)

lemma ucast_twice [simp]: "ucast (ucast (w :: u32) :: u64) = w"
  by (simp add: ucast_up_ucast_id is_up)

definition pages_mapped :: "kernel_env \<Rightarrow> kernel_run \<Rightarrow> u64 set \<Rightarrow> bool" where
  "pages_mapped env kr as \<longleftrightarrow> (\<forall>a\<in>as. \<forall>v. same_page v a \<longrightarrow>
     mmu_walk (v_mem (k_vm (r_kernel kr))) (e_cr3 env) v = Some (v AND mask 48))"

definition screen_mapped :: "kernel_env \<Rightarrow> kernel_run \<Rightarrow> u64 \<Rightarrow> bool" where
  "screen_mapped env kr fb \<longleftrightarrow> (\<forall>v. unat (page_align fb) \<le> unat v \<and> unat v < unat (page_align fb) + 4 * 2097152 \<longrightarrow>
     mmu_walk (v_mem (k_vm (r_kernel kr))) (e_cr3 env) v = Some v)"

text \<open>The picture on the screen described by tag \<open>t\<close> after round \<open>n\<close>.\<close>

definition screen_shows :: "mem \<Rightarrow> u64 \<Rightarrow> nat \<Rightarrow> mem \<Rightarrow> bool" where
  "screen_shows m t n m' \<longleftrightarrow> (\<forall>y<unat (tagfb_height m t). \<forall>x<unat (tagfb_width m t).
     load32 m' (tagfb_addr m t + 4 * of_nat (y * unat (tagfb_pitch m t div 4) + x)) =
     rgb_color (HSVtoRGB (of_nat ((x * 256 div unat (tagfb_width m t) + n mod 255) mod 256)) 255 255))"

lemma start_from_loader:
  assumes told: "b_total bs \<noteq> 0" "low_free (b_pmm bs)" "fb_fields (b_kboot bs) = fb_of_tag m t" "usable_fb m t" "fb_fits m t"
    and tables: "boot_tables (e_cr3 env) (b_mem bs)" and hw: "hardware_ok env (b_rsdp bs) madt ps sdt period"
  shows "\<exists>kb k h1 h2. kmain_start (start_env.truncate env) bs (isr_boot\<lparr>i_io := h\<rparr>) = Inr (kb, k) \<and>
     fb_ptr kb = tagfb_addr m t \<and> fb_w kb = ucast (tagfb_width m t) \<and> fb_h kb = ucast (tagfb_height m t) \<and>
     fb_pitch kb = ucast (tagfb_pitch m t) \<and>
     hp_tbl (k_hpet k) = hpet_address (e_firmware env) sdt \<and> f_per_tick (k_hpet k) = period \<and>
     (\<forall>v. unat (page_align (tagfb_addr m t)) \<le> unat v \<and> unat v < unat (page_align (tagfb_addr m t)) + 4 * 2097152 \<longrightarrow>
        mmu_walk (v_mem (k_vm k)) (e_cr3 env) v = Some v) \<and>
     (\<forall>a\<in>{rsdp_xsdt_addr (e_firmware env) (b_rsdp bs), lapic_place env madt, ioapic_place env ps, sdt}. \<forall>v. same_page v a \<longrightarrow>
        mmu_walk (v_mem (k_vm k)) (e_cr3 env) v = Some (v AND mask 48)) \<and>
     i_called (k_isr k) = [e_test_handler env] \<and>
     i_io (k_isr k) = h1 @ h2 @ [Mmio_write (lapic_place env madt + 0xb0) 0] \<and>
     (\<forall>e<16. routed (regs_after (ioapic_place env ps) c h1) e
        (32 + (case last_line (override_list (e_firmware env) ps) e of None \<Rightarrow> of_nat e | Some irq \<Rightarrow> irq)))"
proof -
  let ?env = "start_env.truncate env" and ?kb = "b_kboot bs" and ?is = "isr_boot\<lparr>i_io := h\<rparr>"
  note fb = fb_fields_of [OF told(3)]
  have env: "e_firmware env = e_firmware ?env" "e_cr3 env = e_cr3 ?env" by simp_all
  note vm = boot_tables_vm_ok [OF tables told(2)]
  obtain x ph where ph: "phys_malloc (PAGE_SIZE * 64) (b_pmm bs) = Inr (x, ph)"
    "16 \<le> tables_left \<lparr>v_phys = ph, v_mem = b_mem bs, v_cur = 0\<rparr>" by (rule low_free_tables [OF told(2)])
  have scr: "fb_h ?kb * fb_pitch ?kb < PAGE_SIZE * 4" "picture_fits (ucast (fb_w ?kb)) (ucast (fb_h ?kb)) (ucast (fb_pitch ?kb))"
    using told(5) fb by (simp_all add: fb_fits_def)
  have "tagfb_addr m t \<le> 0x100000000000" using told(4) by (simp add: usable_fb_def)
  then have low: "unat (fb_addr ?kb) + 4 * 2097152 \<le> 2 ^ 48" using fb by (simp add: word_le_nat_alt)
  obtain q qs where q: "of_kind (e_firmware env) Io_apic ps = q # qs"
    using hw by (cases "of_kind (e_firmware env) Io_apic ps") (auto simp: hardware_ok_def)
  then have io: "ioapic_place env ps = ucast (ioapic_addr (e_firmware env) q)" by (simp add: ioapic_place_def)
  have H: "firmware_ok (e_firmware env) (e_lits ?env) (b_rsdp bs) madt ps" "apic_is_available (e_cpuid ?env)" "e_test_handler ?env \<noteq> 0"
     "ioapic_place env ps + KERNEL_VADDR < KERNEL_VADDR + KERNEL_VADDR_SIZE"
     "\<forall>h. unat (answered_max (e_dev ?env) (ioapic_place env ps) h) < 120"
     "\<forall>(irq, gsi)\<in>set (override_list (e_firmware env) ps). unat gsi < 120"
     "acpi_find_tbl (e_firmware env) (xsdt_inst (rsdp_xsdt_addr (e_firmware env) (b_rsdp bs))) (e_hpet_str ?env) = Inr sdt"
     "sdt \<noteq> 0" "unat sdt < 2 ^ 48"
     "\<forall>h. drop_bit 32 (e_dev ?env (h @ [Mmio_read64 (hpet_address (e_firmware env) sdt)])) = period" "period \<noteq> 0"
    using hw unfolding hardware_ok_def timer_ok_def truncate_env by blast+
  have init: "length (interupt_handlers ?is) = 256" "last_num ?is \<noteq> 3" "i_called ?is = []" by (simp_all add: isr_boot_def)
  from kmain_start_ok [OF env refl told(1) vm ph scr(1) low scr(2) H(1) q lapic_place_def io refl H(2-11) init(1,2), of c]
  obtain k h1 h2 where K: "kmain_start ?env bs ?is = Inr (?kb\<lparr>fb_ptr := fb_addr ?kb\<rparr>, k)"
     "hp_tbl (k_hpet k) = hpet_address (e_firmware env) sdt" "f_per_tick (k_hpet k) = period"
     "\<forall>v. unat (page_align (fb_addr ?kb)) \<le> unat v \<and> unat v < unat (page_align (fb_addr ?kb)) + 4 * 2097152 \<longrightarrow>
        mmu_walk (v_mem (k_vm k)) (e_cr3 env) v = Some v"
     "\<forall>a\<in>{rsdp_xsdt_addr (e_firmware env) (b_rsdp bs), lapic_place env madt, ioapic_place env ps, sdt}. \<forall>v. same_page v a \<longrightarrow>
        mmu_walk (v_mem (k_vm k)) (e_cr3 env) v = Some (v AND mask 48)"
     "i_called (k_isr k) = i_called ?is @ [e_test_handler ?env]"
     "i_io (k_isr k) = h1 @ h2 @ [Mmio_write (lapic_place env madt + 0xb0) 0]"
     "\<forall>e<16. routed (regs_after (ioapic_place env ps) c h1) e
        (32 + (case last_line (override_list (e_firmware env) ps) e of None \<Rightarrow> of_nat e | Some irq \<Rightarrow> irq))" by blast
  show ?thesis
    by (rule exI [of _ "?kb\<lparr>fb_ptr := fb_addr ?kb\<rparr>"], intro exI conjI, rule K(1))
      (use K(2-8) fb init(3) in \<open>simp_all add: fb\<close>)
qed


section \<open>The wrong loader\<close>

text \<open>Without the magic number nothing has been done when the kernel stops: the port is not initialised.\<close>

lemma kmain_wrong_magic:
  "magic \<noteq> MULTIBOOT2_BOOTLOADER_MAGIC \<Longrightarrow> kmain env header magic pm dm m = Inl (Panic ''MB MAGIC MISMATCH'')"
  by (simp add: kmain_def)

section \<open>Witness\<close>

text \<open>
  The loader's tags of theory BootTags, the firmware of theory Kmain, page tables that map nothing
  yet, and a timer whose counter has run for a second.
\<close>

definition demo_device :: device where
  "demo_device h = (if h \<noteq> [] \<and> last h = Mmio_read64 0xfed000f0 then 10000000 else 0x05F5E10000170011)"

definition demo_kernel :: kernel_env where
  "demo_kernel = \<lparr>e_shl = (\<lambda>_. 0), e_dev = demo_device, e_firmware = start_firmware, e_cr3 = demo_root,
     e_cpuid = \<lparr>cpuid_eax = 0, cpuid_edx = 0x200, cpuid_ecx = 0, cpuid_ebx = 0\<rparr>, e_spurious = 0x1000, e_test_handler = 0x1234,
     e_hpet_str = 0x3000, e_lits = e_lits Kmain.demo_env, e_callp = demo_call, e_bootstrap_fn = 1, e_kfree_fn = 2,
     e_regs_3 = demo_regs 0, e_regs_47 = demo_regs 0, e_boot = info_env, e_gdt_ptr = 0x2000, e_tss_ptr = 0x2028, e_tss = 0x3000,
     e_stack = 0x9000, e_idt = 0x4000, e_idtp = 0x6000, e_stubs = 0x7000, e_handlers = 0x8000\<rparr>"

lemma info_no_tables:
  assumes "same_info 0x10000 info_mem m"
  shows "boot_tables demo_root m"
proof -
  have "m x = 0" if "unat KERNEL_VADDR \<le> unat x" for x
  proof -
    have "unat (x - 0x10000) = unat x - 0x10000" using that by (subst unat_sub) (simp_all add: KERNEL_VADDR_def word_le_nat_alt)
    then have "m x = info_mem x" using assms that by (simp add: same_info_def KERNEL_VADDR_def)
    then show ?thesis using that by (auto simp: info_mem_def KERNEL_VADDR_def)
  qed
  then have "same_window (\<lambda>_. 0) m" by (simp add: same_window_def)
  moreover have root: "table_ok demo_root" by (simp add: demo_root_def table_ok_def)
  ultimately have "pte m demo_root i = 0" if "i < 512" for i
    using same_window_pte [of "\<lambda>_. 0" m demo_root i] that by (simp add: pte_zero)
  then have "tree (pte m) demo_root {} {}" using root by (simp add: tree_def)
  moreover have "page_of demo_root = 1" by (simp add: demo_root_def page_of_def)
  ultimately show ?thesis using root unfolding boot_tables_def by (intro exI [of _ "{}"]) simp
qed

lemma info_loader_ok: "loader_ok info_env 0x5FA8 info_mem info_tags 0x6000" "fb_tags info_mem info_tags = [0x5FD8]"
proof -
  have tags: "map_tags info_mem info_tags = [0x5FB0]" "fb_tags info_mem info_tags = [0x5FD8]"
    by (simp_all add: map_tags_def fb_tags_def usable_fb_def info_tags_def info_fields)
  have "low_map [\<lparr>mm_addr = 0, mm_len = 0x20000000, mm_type = 1\<rparr>]"
    unfolding low_map_def by (intro conjI exI [of _ "[]"]) (auto simp: map_fits_def MULTIBOOT_MEMORY_AVAILABLE_def)
  moreover have "fb_fits info_mem 0x5FD8" by (simp add: fb_fits_def info_fields PAGE_SIZE_def picture_fits_def)
  moreover have "acpi_rsdps info_mem info_tags = [0x6000]"
    by (simp add: info_tags_def info_fields acpi_rsdps_def acpi_tag_rsdp_def)
  then have "best_rsdp info_mem (acpi_rsdps info_mem info_tags) 0x6000"
    unfolding best_rsdp_def by (intro exI [of _ "[]"]) (simp add: info_fields)
  moreover have "e_ub info_env = x86_shl" by (simp add: info_env_def)
  ultimately show "loader_ok info_env 0x5FA8 info_mem info_tags 0x6000"
    using info_well_formed info_image_ok info_good tags by (simp add: loader_ok_def info_fields)
  show "fb_tags info_mem info_tags = [0x5FD8]" by (rule tags(2))
qed

lemma demo_timer_ok: "timer_ok demo_kernel 0x2000 0x05F5E100"
proof -
  have "load_bytes start_firmware (0x2000 + of_nat 44) 8 = take 8 (drop 44 hpet_bytes)"
    using load_bytes_sub [of 44 8 56 start_firmware "0x2000"] start_regions(2) by simp
  also have "take 8 (drop 44 hpet_bytes) = [0, 0, 0xd0, 0xfe, 0, 0, 0, 0]" by code_simp
  finally have a: "hpet_address start_firmware 0x2000 = 0xfed00000" by (simp add: hpet_address_def load64_def)
  have "timer_works demo_device hp (ms_to_us 500)" if "hp_tbl hp = 0xfed00000" "f_per_tick hp = 0x05F5E100" for hp
    unfolding timer_works_def
  proof (intro allI exI [of _ 0])
    fix h
    show "1000000000 * unat (ms_to_us 500) \<le> unat (reading demo_device hp (started demo_device hp h) 0) * unat (f_per_tick hp) \<and>
        (\<forall>i\<le>0. unat (reading demo_device hp (started demo_device hp h) i) * unat (f_per_tick hp) < 2 ^ 64)"
      by (simp add: reading_def reads_def hpet_main_counter_def that demo_device_def ms_to_us_def)
  qed
  then show ?thesis by (simp add: timer_ok_def demo_kernel_def a demo_device_def)
qed

lemma demo_hardware_ok: "hardware_ok demo_kernel 0x6000 0x5000 demo_entries 0x2000 0x05F5E100"
proof -
  have "ioapic_place demo_kernel demo_entries = 0xfec00000"
    by (simp add: ioapic_place_def demo_kernel_def start_places start_fields)
  moreover have "(0xfec00000 :: u64) + KERNEL_VADDR < KERNEL_VADDR + KERNEL_VADDR_SIZE"
    by (simp add: KERNEL_VADDR_def KERNEL_VADDR_SIZE_def)
  moreover have "unat (answered_max demo_device 0xfec00000 h) < 120" for h by (simp add: answered_max_def demo_device_def)
  ultimately show ?thesis
    using demo_timer_ok start_firmware_ok start_found(2)
    by (simp add: hardware_ok_def demo_kernel_def start_places start_fields apic_is_available_def CPUID_FEAT_EDX_APIC_def)
qed


end
