(* ===== verification/Dumps.thy ===== *)
theory Dumps
  imports GdtDump AcpiStart Isr
begin

text \<open>
  The rest of the debug output as the lines it prints (theory GdtDump): \<^verbatim>\<open>dump_pagetable\<close> of \<^verbatim>\<open>virtmem.c\<close>,
  \<^verbatim>\<open>print_isr_regs\<close> of \<^verbatim>\<open>isr.c\<close> and the listing of the MADT of \<^verbatim>\<open>acpi.c\<close>.
\<close>

section \<open>Page tables\<close>

fun dump_entries :: "nat list \<Rightarrow> mem \<Rightarrow> u64 \<Rightarrow> int \<Rightarrow> dump_line list \<times> int" where
  "dump_entries [] m pt e = ([], e)"
| "dump_entries (i # is) m pt e =
     (if load64 m (pt + 8 * of_nat i) \<noteq> 0
      then case dump_entries is m pt (e + 1) of (ls, n) \<Rightarrow> ((''PT entry @'', [of_nat i]) # ls, n)
      else dump_entries is m pt e)"

definition dump_pagetable :: "mem \<Rightarrow> u64 \<Rightarrow> dump_line list" where
  "dump_pagetable m pt =
     (case dump_entries [0..<512] m pt 0 of (ls, e) \<Rightarrow>
        (''dumping pt'', [pt]) # ls @ [(''total entries in pt'', [of_int e])])"

lemma dump_entries_eq:
  "dump_entries is m pt e = (let js = filter (\<lambda>i. load64 m (pt + 8 * of_nat i) \<noteq> 0) is
     in (map (\<lambda>i. (''PT entry @'', [of_nat i])) js, e + int (length js)))"
  by (induction "is" arbitrary: e) (simp_all add: Let_def)

text \<open>The dump of the table the kernel runs on lists the entries that are not zero, and their number.\<close>

lemma dump_pagetable_entries:
  "dump_pagetable m (virt_current_pd r) =
     (let js = filter (\<lambda>i. pte m r (of_nat i) \<noteq> 0) [0..<512]
      in (''dumping pt'', [virt_current_pd r]) # map (\<lambda>i. (''PT entry @'', [of_nat i])) js @
         [(''total entries in pt'', [of_nat (length js)])])"
  by (simp add: dump_pagetable_def dump_entries_eq Let_def pte_def virt_current_pd_def add.commute)

section \<open>Registers\<close>

text \<open>\<open>cr2\<close> is what the processor's register holds.\<close>

definition print_isr_regs :: "u64 \<Rightarrow> registers_t \<Rightarrow> bool \<Rightarrow> dump_line list" where
  "print_isr_regs cr2 regs extended =
     [(''isr'', [int_no regs, err_code regs]), (''err_code'', [err_code regs])] @
     (if 0 < cr2 then [(''cr2'', [cr2])] else []) @
     [(''rbp'', [r_rbp regs]), (''rip'', [r_rip regs]), (''rsp'', [r_rsp regs]), (''cs'', [r_cs regs]),
      (''rflags'', [r_rflags regs]), (''cr3'', [r_cr3 regs]), (''ds'', [r_ds regs AND 0xffff]), (''ss'', [r_ss regs]),
      (''rax'', [r_rax regs]), (''rbx'', [r_rbx regs]), (''rcx'', [r_rcx regs]), (''rdx'', [r_rdx regs]),
      (''rdi'', [r_rdi regs]), (''rsi'', [r_rsi regs]), (''r8'', [r_r8 regs]), (''r9'', [r_r9 regs])] @
     (if \<not> extended then []
      else [(''r10'', [r_r10 regs]), (''r11'', [r_r11 regs]), (''r12'', [r_r12 regs]), (''r13'', [r_r13 regs]),
        (''r14'', [r_r14 regs]), (''r15'', [r_r15 regs])])"

section \<open>The MADT\<close>

definition madt_dump :: "acpi_inst \<Rightarrow> dump_line list" where
  "madt_dump ac = (if \<not> ac_debug_madt ac then []
     else [(''== MADT Init Dump =='', []), (''Processor Local APIC count'', [ac_idx ac Proc_lapic]),
       (''IO APIC count'', [ac_idx ac Io_apic]), (''IO APIC Interrupt Source Override count'', [ac_idx ac Ioso_apic]),
       (''IO APIC NMI Source count'', [ac_idx ac Ionmi_apic]), (''Local APIC NMI count'', [ac_idx ac Nmi_lapic]),
       (''Local APIC Address Override count'', [ac_idx ac Addro_lapic]),
       (''Processor Local x2 APIC count'', [ac_idx ac Procx2_lapic]), (''== end MADT dump =='', [])])"

lemma madt_dump_recorded:
  assumes "recorded m ps a" "ac_debug_madt (acpi a)"
  shows "(''IO APIC count'', [of_nat (length (of_kind m Io_apic ps))]) \<in> set (madt_dump (acpi a))"
proof -
  have "ac_idx (acpi a) Io_apic = of_nat (length (of_kind m Io_apic ps))" using assms(1) unfolding recorded_def by blast
  then show ?thesis using assms(2) by (simp add: madt_dump_def)
qed

end
