(* ===== verification/Spec2Isabelle.thy ===== *)
theory Spec2Isabelle
  imports PhysReach HeapSpec Tlb Hpet Panic KernelRun Dumps
begin

text \<open>
  A model of the twOS kernel, a 64-bit x86 hobby kernel started by a multiboot2 loader.

  \<^bold>\<open>The program.\<close> \<open>kmain\<close> (\<^verbatim>\<open>src/kernel/kernel.c\<close>) sets up the serial log, reads the tags of the boot
  loader (command line, memory map, framebuffer, ACPI root pointer), starts the page allocator
  with the memory map, maps the framebuffer, starts the heap, reads the ACPI tables into arrays
  allocated from the heap, and sets up the local APIC, the I/O APIC and the event timer. After
  that the kernel only handles exceptions and interrupts and draws a pattern twice a second.
  The parts share one address space: the heap and the page tables live in pages of the page
  allocator, the drivers reach their registers through page table entries the kernel adds.

  \<^bold>\<open>Reading the model.\<close> C integers are words of their width (\<open>u8\<close> to \<open>u64\<close>, theory Prelude), memory
  is a function from addresses to bytes, a structure that is overlaid on memory is read and
  written at its offsets, and a structure that is not is a record. What does not return is a
  value of \<open>fault\<close>: a panic, a failed assertion, a division by zero, an access outside a local
  object, a construct C leaves undefined, or a loop that does not end. Code that talks to devices
  appends its port and register accesses to a trace, and what a device answers is a function of
  the trace, which is a parameter. Logging is left out of the operations that log.

  \<^bold>\<open>The theories.\<close>
  \<^item> Prelude: integers, faults and their sequencing, byte memory, regions that are apart.
  \<^item> PageMath: alignment and the page macros of \<^verbatim>\<open>include/kernel/mem/page.h\<close>.
  \<^item> PhysMem: \<^verbatim>\<open>physmem.c\<close>, the page bitmap. Soundness, first fit and completeness of
    allocation, the round trip with freeing, what initialisation keeps reserved, and the defects
    of the bitmap masks and of runs across full words.
  \<^item> PhysReach: the states the page allocator reaches in any order of its operations; they are well
    typed and no request faults in them.
  \<^item> MemOps, CStrings: \<^verbatim>\<open>memory.c\<close> and \<^verbatim>\<open>string.c\<close>.
  \<^item> OArray, KAlloc, KHeap: \<^verbatim>\<open>orderedarray.h\<close> and \<^verbatim>\<open>kalloc.c\<close>. The heap invariant holds in every
    state the heap can reach, an allocation is apart from all others and the smallest that
    fits, and freeing gives the block back. The ordering of the free list is the locale
    \<open>keyed\<close>, interpreted for the comparison of the block headers.
  \<^item> HeapSpec: the abstract heap, a map from blocks to sizes and free flags with its steps, and the
    refinement of it by \<open>kmalloc\<close>, \<open>kfree\<close> and the writes of clients.
  \<^item> KBoot, VirtMem, VirtMap, VirtProps: \<^verbatim>\<open>virtmem.c\<close> and a specification of the processor's page
    walk; mapping and unmapping refine it.
  \<^item> Tlb: the tables behind the processor's translation buffer, with the flush and the page
    invalidation of \<^verbatim>\<open>virtmem.c\<close>; no sequence of mappings and unmappings leaves a stale entry.
  \<^item> PhysBoot: a memory map with low memory leaves the low pages free for the start.
  \<^item> Cmdline, Boot, BootTags: \<^verbatim>\<open>cmdline.c\<close> and the tag loop of \<open>kmain\<close>. On a well formed list it ends,
    without a fault unless a tag is bad, and what it has read is a function of the list.
  \<^item> Acpi: \<^verbatim>\<open>acpi.c\<close>, table search and the interrupt controllers listed by the firmware.
  \<^item> AcpiStart: \<open>acpi_init\<close> on the heap the start leaves. It records every entry of the MADT, and its
    first array lies over the header of a heap block.
  \<^item> DescTables, GdtDump: \<^verbatim>\<open>gdt.c\<close> and \<^verbatim>\<open>idt.c\<close> with what the processor reads from the tables, and
    the dump, which reads back what was encoded.
  \<^item> Dumps: the other debug output, as the names and values that are printed.
  \<^item> PortIO: \<^verbatim>\<open>port.h\<close>, the trace, and the locale \<open>polling\<close> for loops that wait for a device,
    interpreted for the timer and for the serial port.
  \<^item> Isr: \<^verbatim>\<open>isr.c\<close>. Which sequences of exceptions and interrupts the kernel survives, and which
    handlers it calls.
  \<^item> Pic, Apic, IoApicProps: \<^verbatim>\<open>pic.c\<close>, \<^verbatim>\<open>apic.c\<close>, \<^verbatim>\<open>ioapic.c\<close> and the state of the chips they drive.
  \<^item> Hpet: \<^verbatim>\<open>hpet.c\<close>, the timer and busy waiting.
  \<^item> Printf, PrintfProps: \<^verbatim>\<open>print.c\<close>. The locale \<open>out_fn\<close> is what the formatter needs of its out
    function; it is interpreted for the one of \<open>snprintf\<close>.
  \<^item> Serial, Printk: \<^verbatim>\<open>serialdriver.c\<close>, a 16550, and \<^verbatim>\<open>printk.c\<close>; what is logged is sent.
  \<^item> Panic: \<^verbatim>\<open>panic.c\<close>, \<^verbatim>\<open>kassert.c\<close> and \<^verbatim>\<open>orderedarray.c\<close>, what the kernel logs and how it stops.
  \<^item> Framebuffer: \<^verbatim>\<open>framebuffer.h\<close>, the colours and the patterns.
  \<^item> Kmain: \<open>kmain\<close> after its tag loop, the parts above in the order of the code. From a memory map,
    a framebuffer and firmware tables the code accepts, it reaches its last loop; the page tables,
    the interrupt lines and the handlers are then what they should be.
  \<^item> Idle: that loop, which draws the animated pattern with the cycle of each round.
  \<^item> KernelRun: the whole of \<open>kmain\<close>. From a loader, page tables, firmware tables and devices it
    accepts, it reaches its last loop with the gates, mappings and interrupt lines in place, and
    every number of rounds of the loop completes.

  \<^bold>\<open>Loops.\<close> Loops that end for a reason in the code are recursive functions with a measure. Loops
  that need not end (the search for a NUL, the tags, the entries of a firmware table, waiting for
  a device, the formatter) are partial functions into \<open>option\<close>; the properties that say what they
  compute also say that they return. No fuel is used.

  \<^bold>\<open>Bounds.\<close> \<open>int\<close> counters that a buffer or the loop bound keeps small are numbers. \<open>strncmp\<close> is
  modelled for lengths below \<open>2^31\<close>. The value of an \<open>int\<close> shift by 31 or more is a parameter
  (\<open>int_shl\<close>) with the value the processor gives in the witnesses.

  \<^bold>\<open>Not modelled.\<close> The assembly (entry code, interrupt stubs, \<open>cpuid\<close>, loading of the tables), the
  linker script, the formats of the debug dumps, the log lines of the operations other than those of theory
  Panic, constants of \<^verbatim>\<open>multiboot2.h\<close>, \<^verbatim>\<open>madt.h\<close> and
  \<^verbatim>\<open>cpuid.h\<close> the code does not use, and the code behind the last loop of \<open>kmain\<close>, which is not
  reached. The composition of the start-up keeps the descriptor tables, the heap, the page tables and the
  firmware's tables as separate memories, as they are in different pages.
\<close>

end
